(* ===== verification/Prelude.thy ===== *)
theory Prelude
  imports Main "HOL-Library.Word" "HOL-Library.Multiset" "HOL-Library.AList"
    "HOL-Library.Signed_Division"
begin

unbundle bit_operations_syntax

text \<open>
  Shared vocabulary of the development: the Go types the program uses, the errors it returns,
  little-endian integers (package \<open>encoding/binary\<close>), signed wrap-around, durations and times
  (package \<open>time\<close>), list exchange, and generic lemmas about them.

  Go's \<open>int\<close> and \<open>int64\<close> are \<open>int\<close> values kept in range by \<open>i64\<close>, its unsigned integers are
  words. A \<open>time.Time\<close> is an \<open>int\<close>, the nanoseconds since the Unix epoch (the monotonic
  reading is identified with the wall reading); a \<open>time.Duration\<close> is an \<open>int64\<close>. A Go map is an
  association list with distinct keys: its order stands for the iteration order, which Go leaves
  open.
\<close>

section \<open>Types\<close>

type_synonym byte = "8 word"
type_synonym u16 = "16 word"
type_synonym u32 = "32 word"
type_synonym u64 = "64 word"
type_synonym gotime = int
type_synonym duration = int
type_synonym ptr = nat
type_synonym ('k, 'v) gomap = "('k \<times> 'v) list"

named_theorems frame_simps \<open>what an operation leaves unchanged\<close>

section \<open>Errors\<close>

text \<open>
  One constructor per error value the packages build. A constructor with an error argument is a
  wrapped error (\<open>%w\<close>), which \<open>errors.Is\<close> looks through.
\<close>

datatype corrupt_reason =
    HeaderChecksum u32 u32
  | LengthExceeds nat
  | RecordChecksum u32 u32 nat
  | UnknownType byte

datatype go_error =
    ErrNotFound
  | ErrNotInFlight
  | ErrClosed
  | ErrWalClosed
  | ErrIncompleteQueue string
  | ErrQueueExists string
  | CorruptionError string nat corrupt_reason
  | ErrShortPayload
  | ErrVersion byte
  | ErrPriorityRange int
  | ErrEmptyID
  | ErrDuplicateID string
  | ErrAckUnknown string
  | ErrAttemptUnknown string
  | ErrUnhandledType byte
  | ErrFirstNotMeta
  | ErrNoMeta string
  | ErrInvalidName string
  | ErrInvalidOrdering string
  | ErrInvalidConfig string
  | ErrJSON
  | ErrOS string
  | Wrapped string go_error

text \<open>\<open>errors.Is\<close> and \<open>errors.As\<close>: the chain of wrapped errors.\<close>

fun error_root :: "go_error \<Rightarrow> go_error" where
  "error_root (Wrapped _ e) = error_root e"
| "error_root e = e"

fun is_corruption :: "go_error \<Rightarrow> bool" where
  "is_corruption (Wrapped _ e) = is_corruption e"
| "is_corruption (CorruptionError _ _ _) = True"
| "is_corruption _ = False"

text \<open>\<open>if err != nil { return err }\<close> between two calls.\<close>

definition bindE :: "'e + 'a \<Rightarrow> ('a \<Rightarrow> 'e + 'b) \<Rightarrow> 'e + 'b" where
  "bindE x f = (case x of Inl e \<Rightarrow> Inl e | Inr a \<Rightarrow> f a)"

lemma bindE_simps [simp]: "bindE (Inl e) f = Inl e" "bindE (Inr a) f = f a"
  by (simp_all add: bindE_def)

lemma bindE_eq_Inr: "bindE x f = Inr y \<longleftrightarrow> (\<exists>a. x = Inr a \<and> f a = Inr y)"
  by (cases x) auto

section \<open>Signed 64-bit integers, durations and times\<close>

definition i64 :: "int \<Rightarrow> int" where
  "i64 x = sint (word_of_int x :: u64)"

definition max_i64 :: int where
  "max_i64 = 9223372036854775807"

definition min_i64 :: int where
  "min_i64 = -9223372036854775808"

definition in_i64 :: "int \<Rightarrow> bool" where
  "in_i64 x \<longleftrightarrow> min_i64 \<le> x \<and> x \<le> max_i64"

lemma i64_id [simp]: "in_i64 x \<Longrightarrow> i64 x = x"
  unfolding i64_def in_i64_def min_i64_def max_i64_def
  by (simp add: sint_sbintrunc' signed_take_bit_int_eq_self_iff)

lemma in_i64_i64 [simp]: "in_i64 (i64 x)"
proof -
  have "- (2 ^ 63) \<le> signed_take_bit 63 x" and "signed_take_bit 63 x < 2 ^ 63"
    by (rule signed_take_bit_int_greater_eq_minus_exp, rule signed_take_bit_int_less_exp)
  then show ?thesis
    by (simp add: i64_def in_i64_def min_i64_def max_i64_def sint_sbintrunc')
qed

lemma i64_wrapped: "max_i64 < x \<Longrightarrow> x \<le> max_i64 - min_i64 \<Longrightarrow> i64 x = x - 2 ^ 64"
proof -
  assume x: "max_i64 < x" "x \<le> max_i64 - min_i64"
  have "(word_of_int x :: u64) = word_of_int (x - 2 ^ 64)" by (simp add: word_of_int_eq_iff take_bit_eq_mod)
  then have "i64 x = i64 (x - 2 ^ 64)" by (simp only: i64_def)
  also have "\<dots> = x - 2 ^ 64" using x by (intro i64_id) (simp add: in_i64_def max_i64_def min_i64_def)
  finally show ?thesis .
qed

lemma i64_i64 [simp]: "i64 (i64 x) = i64 x"
  by simp

lemma i64_plus [simp]: "i64 (i64 a + b) = i64 (a + b)"
  by (simp add: i64_def)

text \<open>\<open>time.Duration(n) * time.Millisecond\<close>, which wraps as every \<open>int64\<close> product does.\<close>

definition millis :: "int \<Rightarrow> duration" where
  "millis n = i64 (n * 1000000)"

text \<open>\<open>t.Sub(u)\<close> saturates at the ends of the duration range; \<open>t.Add(d)\<close> is exact.\<close>

definition time_sub :: "gotime \<Rightarrow> gotime \<Rightarrow> duration" where
  "time_sub t u = max min_i64 (min max_i64 (t - u))"

definition time_add :: "gotime \<Rightarrow> duration \<Rightarrow> gotime" where
  "time_add t d = t + d"

text \<open>The zero \<open>time.Time\<close> is the first instant of year 1.\<close>

definition zero_time :: gotime where
  "zero_time = -62135596800000000000"

definition time_is_zero :: "gotime \<Rightarrow> bool" where
  "time_is_zero t \<longleftrightarrow> t = zero_time"

lemma in_i64_time_sub [simp]: "in_i64 (time_sub t u)"
  by (auto simp: time_sub_def in_i64_def min_i64_def max_i64_def)

lemma millis_exact:
  assumes "0 \<le> n" and "n \<le> 9223372036854"
  shows "millis n = n * 1000000"
  using assms by (simp add: millis_def in_i64_def min_i64_def max_i64_def)

section \<open>Strings and byte slices\<close>

definition bytes_of :: "string \<Rightarrow> byte list" where
  "bytes_of s = map (\<lambda>c. of_nat (of_char c)) s"

definition string_of :: "byte list \<Rightarrow> string" where
  "string_of bs = map (\<lambda>b. char_of (unat b)) bs"

lemma length_bytes_of [simp]: "length (bytes_of s) = length s"
  by (simp add: bytes_of_def)

lemma string_of_bytes_of [simp]: "string_of (bytes_of s) = s"
proof -
  have "char_of (unat (of_nat (of_char c) :: byte)) = c" for c :: char
    by (simp add: unat_of_nat of_char_mod_256)
  then show ?thesis by (simp add: bytes_of_def string_of_def comp_def)
qed

section \<open>Little-endian integers\<close>

text \<open>
  \<open>binary.LittleEndian.AppendUint\<^sub>n\<close> writes the low byte first; \<open>binary.LittleEndian.Uint\<^sub>n\<close>
  shifts the bytes back together.
\<close>

definition le_bytes :: "nat \<Rightarrow> 'a::len word \<Rightarrow> byte list" where
  "le_bytes k w = map (\<lambda>i. ucast (drop_bit (8 * i) w)) [0..<k]"

primrec le_word :: "byte list \<Rightarrow> 'a::len word" where
  "le_word [] = 0"
| "le_word (b # bs) = ucast b OR push_bit 8 (le_word bs)"

lemma length_le_bytes [simp]: "length (le_bytes k w) = k"
  by (simp add: le_bytes_def)

lemma bit_le_word:
  "bit (le_word bs :: 'a::len word) n \<longleftrightarrow>
     n < LENGTH('a) \<and> n div 8 < length bs \<and> bit (bs ! (n div 8)) (n mod 8)"
proof (induction bs arbitrary: n)
  case Nil
  then show ?case by simp
next
  case (Cons b bs)
  show ?case
  proof (cases "n < 8")
    case True
    then show ?thesis
      by (simp add: bit_simps)
  next
    case False
    then have n: "n div 8 = Suc ((n - 8) div 8)" "n mod 8 = (n - 8) mod 8"
      by (auto simp: le_div_geq mod_if)
    have "\<not> bit (ucast b :: 'a word) n"
      using False bit_imp_le_length [of b n] by (auto simp: bit_simps)
    then show ?thesis
      using False Cons.IH [of "n - 8"] n by (auto simp: bit_simps)
  qed
qed

lemma le_word_le_bytes:
  assumes "LENGTH('a) \<le> 8 * k"
  shows "le_word (le_bytes k w) = (w :: 'a::len word)"
proof (rule bit_word_eqI)
  fix n assume n: "n < LENGTH('a)"
  with assms have k: "n div 8 < k" by (simp add: less_mult_imp_div_less mult.commute)
  have "8 * (n div 8) + n mod 8 = n" by simp
  with n k show "bit (le_word (le_bytes k w) :: 'a word) n = bit w n"
    by (simp add: bit_le_word le_bytes_def bit_simps)
qed

lemma le_bytes_le_word:
  assumes "8 * length bs \<le> LENGTH('a)"
  shows "le_bytes (length bs) (le_word bs :: 'a::len word) = bs"
proof (rule nth_equalityI)
  show "length (le_bytes (length bs) (le_word bs :: 'a word)) = length bs" by simp
next
  fix i assume "i < length (le_bytes (length bs) (le_word bs :: 'a word))"
  then have i: "i < length bs" by simp
  show "le_bytes (length bs) (le_word bs :: 'a word) ! i = bs ! i"
  proof (rule bit_word_eqI)
    fix n assume n: "n < LENGTH(8)"
    then have "(8 * i + n) div 8 = i" "(8 * i + n) mod 8 = n" "8 * i + n < LENGTH('a)"
      using i assms by auto
    with i n show "bit (le_bytes (length bs) (le_word bs :: 'a word) ! i) n = bit (bs ! i) n"
      by (simp add: bit_le_word le_bytes_def bit_simps)
  qed
qed

lemma le_word_inj:
  assumes "le_word xs = (le_word ys :: 'a::len word)" and "length xs = length ys"
    and "8 * length xs \<le> LENGTH('a)"
  shows "xs = ys"
  by (metis assms le_bytes_le_word)

lemmas le16_roundtrip [simp] = le_word_le_bytes [where 'a = 16 and k = 2, simplified]
lemmas le32_roundtrip [simp] = le_word_le_bytes [where 'a = 32 and k = 4, simplified]
lemmas le64_roundtrip [simp] = le_word_le_bytes [where 'a = 64 and k = 8, simplified]

lemma unat_bound: "unat (w :: 'a::len word) < 2 ^ LENGTH('a)"
  by (rule unsigned_less)

section \<open>Exchanging two elements of a list\<close>

definition exchange :: "'a list \<Rightarrow> nat \<Rightarrow> nat \<Rightarrow> 'a list" where
  "exchange xs i j = xs[i := xs ! j, j := xs ! i]"

lemma length_exchange [simp]: "length (exchange xs i j) = length xs"
  by (simp add: exchange_def)

lemma nth_exchange:
  "i < length xs \<Longrightarrow> j < length xs \<Longrightarrow> k < length xs \<Longrightarrow>
   exchange xs i j ! k = (if k = i then xs ! j else if k = j then xs ! i else xs ! k)"
  by (auto simp: exchange_def nth_list_update)

lemma mset_exchange [simp]:
  "i < length xs \<Longrightarrow> j < length xs \<Longrightarrow> mset (exchange xs i j) = mset xs"
  by (simp add: exchange_def mset_swap)

lemma set_exchange [simp]:
  "i < length xs \<Longrightarrow> j < length xs \<Longrightarrow> set (exchange xs i j) = set xs"
  by (metis mset_exchange set_mset_mset)

lemma distinct_exchange [simp]:
  "i < length xs \<Longrightarrow> j < length xs \<Longrightarrow> distinct (exchange xs i j) = distinct xs"
  by (metis distinct_count_atmost_1 mset_exchange set_exchange)

lemma map_exchange:
  "i < length xs \<Longrightarrow> j < length xs \<Longrightarrow> map f (exchange xs i j) = exchange (map f xs) i j"
  by (simp add: exchange_def map_update)

end
