(* ===== verification/Go_Heap.thy ===== *)
theory Go_Heap
  imports Prelude
begin

text \<open>
  Package \<open>container/heap\<close> of the Go library, which the queue uses for its three heaps.
  \<open>heap_iface\<close> is \<open>heap.Interface\<close>; \<open>up\<close>, \<open>down\<close>, \<open>heap_Push\<close>, \<open>heap_Pop\<close>, \<open>heap_Remove\<close> and
  \<open>heap_Init\<close> follow the library's functions of those names. The locale \<open>go_heap\<close> states what an
  implementation of the interface must provide and proves, once for all implementations, that
  the operations keep the heap order and the elements.
\<close>

section \<open>The operations\<close>

record ('h, 'x) heap_iface =
  hLen :: "'h \<Rightarrow> nat"
  hLess :: "'h \<Rightarrow> nat \<Rightarrow> nat \<Rightarrow> bool"
  hSwap :: "'h \<Rightarrow> nat \<Rightarrow> nat \<Rightarrow> 'h"
  hPush :: "'h \<Rightarrow> 'x \<Rightarrow> 'h"
  hPop :: "'h \<Rightarrow> 'h \<times> 'x"

definition par :: "nat \<Rightarrow> nat" where
  "par j = (j - 1) div 2"

lemma par_less: "0 < j \<Longrightarrow> par j < j"
  by (simp add: par_def)

lemma par_bound [simp]: "k < n \<Longrightarrow> par k < n"
  by (auto simp: par_def)

lemma not_less_par [simp]: "\<not> k < par k" "k < n \<Longrightarrow> par k \<noteq> n" "k < n \<Longrightarrow> n \<noteq> par k"
  by (auto simp: par_def)

lemma par_eq_iff: "0 < k \<Longrightarrow> par k = i \<longleftrightarrow> k = 2 * i + 1 \<or> k = 2 * i + 2"
  by (auto simp: par_def)

lemma par_child [simp]: "par (Suc (2 * i)) = i" "par (Suc (Suc (2 * i))) = i"
  by (simp_all add: par_def)

function up :: "('h, 'x) heap_iface \<Rightarrow> 'h \<Rightarrow> nat \<Rightarrow> 'h" where
  "up H h j =
     (let i = par j
      in if i = j \<or> \<not> hLess H h j i then h else up H (hSwap H h i j) i)"
  by pat_completeness auto
termination
  by (relation "measure (\<lambda>(H, h, j). j)") (auto simp: par_def)

text \<open>\<open>down\<close> returns the final position too: the library's result is whether it moved.\<close>

function down :: "('h, 'x) heap_iface \<Rightarrow> 'h \<Rightarrow> nat \<Rightarrow> nat \<Rightarrow> 'h \<times> nat" where
  "down H h i n =
     (let j1 = 2 * i + 1; j2 = j1 + 1;
          j = (if j2 < n \<and> hLess H h j2 j1 then j2 else j1)
      in if n \<le> j1 then (h, i)
         else if \<not> hLess H h j i then (h, i)
         else down H (hSwap H h i j) j n)"
  by pat_completeness auto
termination
  by (relation "measure (\<lambda>(H, h, i, n). n - i)") (auto split: if_splits)

declare up.simps [simp del] down.simps [simp del]

lemma up_stop: "par j = j \<or> \<not> hLess H h j (par j) \<Longrightarrow> up H h j = h"
  by (subst up.simps) (auto simp: Let_def)

lemma up_step: "par j \<noteq> j \<Longrightarrow> hLess H h j (par j) \<Longrightarrow> up H h j = up H (hSwap H h (par j) j) (par j)"
  by (subst up.simps) (simp add: Let_def)

text \<open>The child \<open>down\<close> compares with.\<close>

definition best_child :: "('h, 'x) heap_iface \<Rightarrow> 'h \<Rightarrow> nat \<Rightarrow> nat \<Rightarrow> nat" where
  "best_child H h i n =
     (if 2 * i + 2 < n \<and> hLess H h (2 * i + 2) (2 * i + 1) then 2 * i + 2 else 2 * i + 1)"

lemma down_stop:
  "n \<le> 2 * i + 1 \<or> \<not> hLess H h (best_child H h i n) i \<Longrightarrow> down H h i n = (h, i)"
  by (subst down.simps) (auto simp: Let_def best_child_def)

lemma down_step:
  "2 * i + 1 < n \<Longrightarrow> hLess H h (best_child H h i n) i \<Longrightarrow>
   down H h i n = down H (hSwap H h i (best_child H h i n)) (best_child H h i n) n"
  by (subst down.simps) (auto simp: Let_def best_child_def)

definition heap_Push :: "('h, 'x) heap_iface \<Rightarrow> 'h \<Rightarrow> 'x \<Rightarrow> 'h" where
  "heap_Push H h x = (let h' = hPush H h x in up H h' (hLen H h' - 1))"

definition heap_Pop :: "('h, 'x) heap_iface \<Rightarrow> 'h \<Rightarrow> 'h \<times> 'x" where
  "heap_Pop H h =
     (let n = hLen H h - 1; h1 = hSwap H h 0 n in hPop H (fst (down H h1 0 n)))"

definition heap_Remove :: "('h, 'x) heap_iface \<Rightarrow> 'h \<Rightarrow> nat \<Rightarrow> 'h \<times> 'x" where
  "heap_Remove H h i =
     (let n = hLen H h - 1
      in hPop H
           (if n = i then h
            else let (h2, i') = down H (hSwap H h i n) i n
                 in if i < i' then h2 else up H h2 i))"

primrec heap_Init_loop :: "('h, 'x) heap_iface \<Rightarrow> 'h \<Rightarrow> nat \<Rightarrow> nat \<Rightarrow> 'h" where
  "heap_Init_loop H h n 0 = h"
| "heap_Init_loop H h n (Suc i) = heap_Init_loop H (fst (down H h i n)) n i"

definition heap_Init :: "('h, 'x) heap_iface \<Rightarrow> 'h \<Rightarrow> 'h" where
  "heap_Init H h = heap_Init_loop H h (hLen H h) (hLen H h div 2)"

section \<open>Heap order on lists\<close>

text \<open>
  \<open>heap_on lt m n xs\<close>: below index \<open>n\<close>, no element precedes its parent, for the parents from \<open>m\<close>
  on. \<open>hole_down\<close> and \<open>hole_up\<close> are the states in which only the element at \<open>i\<close> may be out of
  place, downwards or upwards.
\<close>

definition heap_on :: "('k \<Rightarrow> 'k \<Rightarrow> bool) \<Rightarrow> nat \<Rightarrow> nat \<Rightarrow> 'k list \<Rightarrow> bool" where
  "heap_on lt m n xs \<longleftrightarrow>
     (\<forall>k. 0 < k \<longrightarrow> k < n \<longrightarrow> m \<le> par k \<longrightarrow> \<not> lt (xs ! k) (xs ! par k))"

definition is_heap :: "('k \<Rightarrow> 'k \<Rightarrow> bool) \<Rightarrow> 'k list \<Rightarrow> bool" where
  "is_heap lt xs \<longleftrightarrow> heap_on lt 0 (length xs) xs"

definition hole_down :: "('k \<Rightarrow> 'k \<Rightarrow> bool) \<Rightarrow> nat \<Rightarrow> nat \<Rightarrow> 'k list \<Rightarrow> nat \<Rightarrow> bool" where
  "hole_down lt m n xs i \<longleftrightarrow>
     (\<forall>k. 0 < k \<longrightarrow> k < n \<longrightarrow> m \<le> par k \<longrightarrow>
        (par k \<noteq> i \<longrightarrow> \<not> lt (xs ! k) (xs ! par k)) \<and>
        (par k = i \<longrightarrow> 0 < i \<longrightarrow> m \<le> par i \<longrightarrow> \<not> lt (xs ! k) (xs ! par i)))"

definition hole_up :: "('k \<Rightarrow> 'k \<Rightarrow> bool) \<Rightarrow> nat \<Rightarrow> 'k list \<Rightarrow> nat \<Rightarrow> bool" where
  "hole_up lt n xs i \<longleftrightarrow>
     (\<forall>k. 0 < k \<longrightarrow> k < n \<longrightarrow>
        (k \<noteq> i \<longrightarrow> \<not> lt (xs ! k) (xs ! par k)) \<and>
        (par k = i \<longrightarrow> 0 < i \<longrightarrow> \<not> lt (xs ! k) (xs ! par i)))"

lemma heap_on_half: "heap_on lt (n div 2) n xs"
  by (auto simp: heap_on_def par_def)

lemma heap_on_hole_down: "heap_on lt (Suc i) n xs \<Longrightarrow> hole_down lt i n xs i"
  using par_less [of i] by (auto simp: heap_on_def hole_down_def Suc_le_eq)

lemma is_heap_Nil [simp]: "is_heap lt []"
  by (simp add: is_heap_def heap_on_def)

lemma heap_on_cong:
  assumes "\<And>k. k < n \<Longrightarrow> xs ! k = ys ! k"
  shows "heap_on lt m n xs = heap_on lt m n ys"
proof -
  have "xs ! par k = ys ! par k" if "0 < k" "k < n" for k
    using that assms by simp
  then show ?thesis using assms by (auto simp: heap_on_def)
qed

lemma is_heap_butlast: "heap_on lt 0 (length xs - 1) xs \<Longrightarrow> is_heap lt (butlast xs)"
  unfolding is_heap_def length_butlast
  by (subst heap_on_cong [where ys = xs]) (simp_all add: nth_butlast)

locale heap_order =
  fixes lt :: "'k \<Rightarrow> 'k \<Rightarrow> bool"
  assumes lt_asym: "lt a b \<Longrightarrow> \<not> lt b a"
    and lt_negtrans: "\<not> lt b a \<Longrightarrow> \<not> lt c b \<Longrightarrow> \<not> lt c a"
begin

lemma lt_irrefl [simp]: "\<not> lt a a"
  using lt_asym by blast

lemma is_heap_min:
  assumes "is_heap lt xs" and "k < length xs"
  shows "\<not> lt (xs ! k) (xs ! 0)"
  using assms(2)
proof (induction k rule: less_induct)
  case (less k)
  show ?case
  proof (cases "k = 0")
    case False
    then have "\<not> lt (xs ! k) (xs ! par k)"
      using assms(1) less.prems by (simp add: is_heap_def heap_on_def)
    moreover have "\<not> lt (xs ! par k) (xs ! 0)"
      using False less.prems par_less [of k] by (intro less.IH) auto
    ultimately show ?thesis by (rule lt_negtrans [rotated])
  qed simp
qed

lemma hole_down_step:
  assumes hole: "hole_down lt m n xs i" and m: "m \<le> i"
    and j: "j = 2 * i + 1 \<or> j = 2 * i + 2" "j < n" "n \<le> length xs"
    and lt: "lt (xs ! j) (xs ! i)"
    and sib: "\<And>c. par c = i \<Longrightarrow> 0 < c \<Longrightarrow> c < n \<Longrightarrow> \<not> lt (xs ! c) (xs ! j)"
  shows "hole_down lt m n (exchange xs i j) j"
  unfolding hole_down_def
proof (intro allI impI, rule conjI)
  fix k assume k: "0 < k" "k < n" "m \<le> par k"
  from j have pj: "par j = i" "i < j" "0 < j" by (auto simp: par_def)
  have pk: "par k < k" using k by (simp add: par_less)
  note nth = nth_exchange [of i xs j] and H = hole [unfolded hole_down_def, rule_format]
  show "par k \<noteq> j \<longrightarrow> \<not> lt (exchange xs i j ! k) (exchange xs i j ! par k)"
  proof
    assume nj: "par k \<noteq> j"
    consider "k = j" | "k = i" | "k \<noteq> j" "k \<noteq> i" "par k = i" | "k \<noteq> j" "k \<noteq> i" "par k \<noteq> i" by blast
    then show "\<not> lt (exchange xs i j ! k) (exchange xs i j ! par k)"
    proof cases
      case 1
      then show ?thesis using lt_asym [OF lt] pj j by (simp add: nth)
    next
      case 2
      then show ?thesis using H [of j] pj j k m pk by (simp add: nth)
    next
      case 3
      then show ?thesis using sib [of k] pj j k by (simp add: nth)
    next
      case 4
      then show ?thesis using H [of k] nj pj j k pk by (simp add: nth)
    qed
  qed
  show "par k = j \<longrightarrow> 0 < j \<longrightarrow> m \<le> par j \<longrightarrow>
      \<not> lt (exchange xs i j ! k) (exchange xs i j ! par j)"
    using H [of k] pj j k pk by (auto simp: nth)
qed

lemma hole_down_stop:
  assumes "hole_down lt m n xs i"
    and "\<And>c. par c = i \<Longrightarrow> 0 < c \<Longrightarrow> c < n \<Longrightarrow> \<not> lt (xs ! c) (xs ! i)"
  shows "heap_on lt m n xs"
  using assms by (auto simp: heap_on_def hole_down_def)

lemma hole_up_step:
  assumes hole: "hole_up lt n xs i" and i: "0 < i" "i < n" "n \<le> length xs"
    and lt: "lt (xs ! i) (xs ! par i)"
  shows "hole_up lt n (exchange xs (par i) i) (par i)"
  unfolding hole_up_def
proof (intro allI impI, rule conjI)
  let ?p = "par i"
  fix k assume k: "0 < k" "k < n"
  have pi: "?p < i" and pk: "par k < k" using i k by (auto simp: par_less)
  note nth = nth_exchange [of ?p xs i] and H = hole [unfolded hole_up_def, rule_format]
  show "k \<noteq> ?p \<longrightarrow> \<not> lt (exchange xs ?p i ! k) (exchange xs ?p i ! par k)"
  proof
    assume np: "k \<noteq> ?p"
    consider "k = i" | "k \<noteq> i" "par k = ?p" | "k \<noteq> i" "par k = i"
      | "k \<noteq> i" "par k \<noteq> ?p" "par k \<noteq> i" by blast
    then show "\<not> lt (exchange xs ?p i ! k) (exchange xs ?p i ! par k)"
    proof cases
      case 1
      then show ?thesis using lt_asym [OF lt] pi i by (simp add: nth)
    next
      case 2
      then have "\<not> lt (xs ! k) (xs ! ?p)" using H [of k] k by simp
      then have "\<not> lt (xs ! k) (xs ! i)" using lt_asym [OF lt] by (rule lt_negtrans [rotated])
      then show ?thesis using 2 np pi i k by (simp add: nth)
    next
      case 3
      then show ?thesis using H [of k] np pi i k by (simp add: nth)
    next
      case 4
      then show ?thesis using H [of k] np pi pk i k by (simp add: nth)
    qed
  qed
  show "par k = ?p \<longrightarrow> 0 < ?p \<longrightarrow> \<not> lt (exchange xs ?p i ! k) (exchange xs ?p i ! par ?p)"
  proof (intro impI)
    assume a: "par k = ?p" "0 < ?p"
    have pp: "par ?p < ?p" using a by (simp add: par_less)
    have p: "\<not> lt (xs ! ?p) (xs ! par ?p)" using H [of ?p] a i pi by simp
    show "\<not> lt (exchange xs ?p i ! k) (exchange xs ?p i ! par ?p)"
    proof (cases "k = i")
      case True
      then show ?thesis using p pp pi i by (simp add: nth)
    next
      case False
      then have "\<not> lt (xs ! k) (xs ! ?p)" using H [of k] a k by simp
      then have "\<not> lt (xs ! k) (xs ! par ?p)" using p by (rule lt_negtrans [rotated])
      then show ?thesis using False a pp pi pk i k by (simp add: nth)
    qed
  qed
qed

lemma hole_up_stop:
  assumes "hole_up lt n xs i" and "i = 0 \<or> \<not> lt (xs ! i) (xs ! par i)"
  shows "heap_on lt 0 n xs"
  using assms by (auto simp: heap_on_def hole_up_def)

end

section \<open>Implementations of the interface\<close>

text \<open>
  What an implementation provides: \<open>view\<close> lists the keys its elements are compared by, \<open>good\<close> is
  its own invariant, \<open>key\<close> the key of an element and \<open>fresh\<close> the condition for pushing one.
\<close>

locale go_heap = heap_order lt
  for lt :: "'k \<Rightarrow> 'k \<Rightarrow> bool" +
  fixes H :: "('h, 'x) heap_iface"
    and view :: "'h \<Rightarrow> 'k list"
    and good :: "'h \<Rightarrow> bool"
    and key :: "'h \<Rightarrow> 'x \<Rightarrow> 'k"
    and fresh :: "'h \<Rightarrow> 'x \<Rightarrow> bool"
  assumes len: "good h \<Longrightarrow> hLen H h = length (view h)"
    and less_key: "good h \<Longrightarrow> i < length (view h) \<Longrightarrow> j < length (view h) \<Longrightarrow>
      hLess H h i j = lt (view h ! i) (view h ! j)"
    and swap_view: "good h \<Longrightarrow> i < length (view h) \<Longrightarrow> j < length (view h) \<Longrightarrow>
      view (hSwap H h i j) = exchange (view h) i j"
    and swap_good: "good h \<Longrightarrow> i < length (view h) \<Longrightarrow> j < length (view h) \<Longrightarrow>
      good (hSwap H h i j)"
    and push_view: "good h \<Longrightarrow> fresh h x \<Longrightarrow> view (hPush H h x) = view h @ [key h x]"
    and push_good: "good h \<Longrightarrow> fresh h x \<Longrightarrow> good (hPush H h x)"
    and pop_view: "good h \<Longrightarrow> view h \<noteq> [] \<Longrightarrow> view (fst (hPop H h)) = butlast (view h)"
    and pop_good: "good h \<Longrightarrow> view h \<noteq> [] \<Longrightarrow> good (fst (hPop H h))"
    and pop_key: "good h \<Longrightarrow> view h \<noteq> [] \<Longrightarrow>
      key (fst (hPop H h)) (snd (hPop H h)) = last (view h)"
begin

text \<open>A property every in-range exchange keeps is kept by \<open>up\<close> and \<open>down\<close>.\<close>

lemma up_invariant:
  assumes step: "\<And>h i j. good h \<Longrightarrow> P h \<Longrightarrow> i < length (view h) \<Longrightarrow> j < length (view h) \<Longrightarrow>
      P (hSwap H h i j)"
    and "good h" and "j < length (view h)" and "P h"
  shows "good (up H h j) \<and> P (up H h j)"
  using assms(2-4)
proof (induction j arbitrary: h rule: less_induct)
  case (less j)
  show ?case
  proof (cases "par j = j \<or> \<not> hLess H h j (par j)")
    case False
    then have "par j < j" by (auto simp: par_def)
    with False less.prems show ?thesis
      by (simp add: up_step less.IH step swap_good swap_view)
  qed (use less.prems in \<open>simp add: up_stop\<close>)
qed

lemma best_child:
  assumes "2 * i + 1 < n"
  shows "i < best_child H h i n" and "best_child H h i n < n" and "par (best_child H h i n) = i"
    and "0 < best_child H h i n"
  using assms by (auto simp: best_child_def par_def)

lemma best_child_least:
  assumes "good h" and "n \<le> length (view h)" and "2 * i + 1 < n"
    and "par c = i" and "0 < c" and "c < n"
  shows "\<not> lt (view h ! c) (view h ! best_child H h i n)"
  using assms by (auto simp: par_eq_iff best_child_def less_key lt_asym)

lemma down_invariant:
  assumes step: "\<And>h i j. good h \<Longrightarrow> P h \<Longrightarrow> i < length (view h) \<Longrightarrow> j < length (view h) \<Longrightarrow>
      P (hSwap H h i j)"
    and "good h" and "n \<le> length (view h)" and "P h"
  shows "good (fst (down H h i n)) \<and> P (fst (down H h i n))"
  using assms(2-4)
proof (induction "n - i" arbitrary: h i rule: less_induct)
  case less
  show ?case
  proof (cases "n \<le> 2 * i + 1 \<or> \<not> hLess H h (best_child H h i n) i")
    case False
    let ?j = "best_child H h i n"
    have j: "i < ?j" "?j < n" using False best_child [of i n h] by auto
    with False less.prems show ?thesis
      by (simp add: down_step less.hyps step swap_good swap_view)
  qed (use less.prems in \<open>simp add: down_stop\<close>)
qed

lemma up_good: "good h \<Longrightarrow> j < length (view h) \<Longrightarrow> good (up H h j)"
  using up_invariant [where P = "\<lambda>_. True"] by blast

lemma down_good: "good h \<Longrightarrow> n \<le> length (view h) \<Longrightarrow> good (fst (down H h i n))"
  using down_invariant [where P = "\<lambda>_. True"] by blast

lemma up_mset:
  assumes "good h" and "j < length (view h)"
  shows "mset (view (up H h j)) = mset (view h)"
  using up_invariant [where P = "\<lambda>h'. mset (view h') = mset (view h)"] assms
  by (simp add: swap_view)

lemma down_mset:
  assumes "good h" and "n \<le> length (view h)"
  shows "mset (view (fst (down H h i n))) = mset (view h)"
  using down_invariant [where P = "\<lambda>h'. mset (view h') = mset (view h)"] assms
  by (simp add: swap_view)

lemma up_length:
  "good h \<Longrightarrow> j < length (view h) \<Longrightarrow> length (view (up H h j)) = length (view h)"
  by (metis up_mset size_mset)

lemma down_length:
  "good h \<Longrightarrow> n \<le> length (view h) \<Longrightarrow> length (view (fst (down H h i n))) = length (view h)"
  by (metis down_mset size_mset)

text \<open>\<open>up\<close> touches nothing above its start, \<open>down\<close> nothing from \<open>n\<close> on.\<close>

lemma up_nth:
  "good h \<Longrightarrow> j < length (view h) \<Longrightarrow> j < k \<Longrightarrow> k < length (view h) \<Longrightarrow>
   view (up H h j) ! k = view h ! k"
proof (induction j arbitrary: h rule: less_induct)
  case (less j)
  show ?case
  proof (cases "par j = j \<or> \<not> hLess H h j (par j)")
    case False
    then have "par j < j" by (auto simp: par_def)
    with False less.prems show ?thesis
      by (simp add: up_step less.IH swap_good swap_view nth_exchange)
  qed (use less.prems in \<open>simp add: up_stop\<close>)
qed

lemma down_nth:
  "good h \<Longrightarrow> n \<le> k \<Longrightarrow> k < length (view h) \<Longrightarrow> view (fst (down H h i n)) ! k = view h ! k"
proof (induction "n - i" arbitrary: h i rule: less_induct)
  case less
  show ?case
  proof (cases "n \<le> 2 * i + 1 \<or> \<not> hLess H h (best_child H h i n) i")
    case False
    let ?j = "best_child H h i n"
    have "i < ?j" "?j < n" using False best_child [of i n h] by auto
    with False less.prems show ?thesis
      by (simp add: down_step less.hyps swap_good swap_view nth_exchange)
  qed (use less.prems in \<open>simp add: down_stop\<close>)
qed

lemma down_moves: "i \<le> snd (down H h i n)"
proof (induction "n - i" arbitrary: h i rule: less_induct)
  case less
  show ?case
  proof (cases "n \<le> 2 * i + 1 \<or> \<not> hLess H h (best_child H h i n) i")
    case False
    let ?j = "best_child H h i n"
    have j: "i < ?j" "?j < n" using False best_child [of i n h] by auto
    have "?j \<le> snd (down H (hSwap H h i ?j) ?j n)" using j by (intro less.hyps) simp
    with j False show ?thesis by (simp add: down_step)
  qed (simp add: down_stop)
qed

lemma up_heap:
  "good h \<Longrightarrow> n \<le> length (view h) \<Longrightarrow> j < n \<Longrightarrow> hole_up lt n (view h) j \<Longrightarrow>
   heap_on lt 0 n (view (up H h j))"
proof (induction j arbitrary: h rule: less_induct)
  case (less j)
  show ?case
  proof (cases "par j = j \<or> \<not> hLess H h j (par j)")
    case True
    then have "j = 0 \<or> \<not> lt (view h ! j) (view h ! par j)"
      using less.prems par_less [of j] by (auto simp: less_key)
    with True less.prems show ?thesis by (simp add: up_stop hole_up_stop)
  next
    case False
    then have p: "par j < j" by (auto simp: par_def)
    have "hole_up lt n (exchange (view h) (par j) j) (par j)"
      using False p less.prems by (intro hole_up_step) (auto simp: less_key)
    with False p less.prems show ?thesis
      by (simp add: up_step less.IH swap_good swap_view)
  qed
qed

lemma down_heap:
  "good h \<Longrightarrow> n \<le> length (view h) \<Longrightarrow> m \<le> i \<Longrightarrow> hole_down lt m n (view h) i \<Longrightarrow> i < length (view h) \<Longrightarrow>
   heap_on lt m n (view (fst (down H h i n)))"
proof (induction "n - i" arbitrary: h i rule: less_induct)
  case less
  let ?j = "best_child H h i n"
  show ?case
  proof (cases "n \<le> 2 * i + 1 \<or> \<not> hLess H h ?j i")
    case True
    have "\<not> lt (view h ! c) (view h ! i)" if c: "par c = i" "0 < c" "c < n" for c
    proof -
      have i: "2 * i + 1 < n" using c by (auto simp: par_eq_iff)
      then have "\<not> lt (view h ! ?j) (view h ! i)"
        using True less.prems best_child [of i n h] by (simp add: less_key)
      moreover have "\<not> lt (view h ! c) (view h ! ?j)"
        using less.prems i c by (intro best_child_least) auto
      ultimately show ?thesis by (rule lt_negtrans)
    qed
    with True less.prems show ?thesis by (simp add: down_stop hole_down_stop)
  next
    case False
    then have j: "i < ?j" "?j < n" "par ?j = i" "0 < ?j" using best_child [of i n h] by auto
    have "hole_down lt m n (exchange (view h) i ?j) ?j"
    proof (rule hole_down_step)
      show "?j = 2 * i + 1 \<or> ?j = 2 * i + 2" by (simp add: best_child_def)
      show "lt (view h ! ?j) (view h ! i)" using False less.prems j by (simp add: less_key)
      show "\<not> lt (view h ! c) (view h ! ?j)" if "par c = i" "0 < c" "c < n" for c
        using less.prems False that by (intro best_child_least) auto
    qed (use less.prems j in auto)
    with False j less.prems show ?thesis
      by (simp add: down_step less.hyps swap_good swap_view)
  qed
qed

text \<open>The operations keep the invariant, the heap order and the elements.\<close>

lemma Push_correct:
  assumes "good h" and "fresh h x" and "is_heap lt (view h)"
  shows "good (heap_Push H h x)"
    and "is_heap lt (view (heap_Push H h x))"
    and "mset (view (heap_Push H h x)) = add_mset (key h x) (mset (view h))"
proof -
  let ?h = "hPush H h x" and ?n = "length (view h)"
  have g: "good ?h" and v: "view ?h = view h @ [key h x]"
    using assms by (simp_all add: push_good push_view)
  have P: "heap_Push H h x = up H ?h ?n"
    using g v by (simp add: heap_Push_def Let_def len)
  have "hole_up lt (Suc ?n) (view ?h) ?n"
    using assms(3) unfolding hole_up_def is_heap_def heap_on_def v
    by (auto simp: nth_append less_Suc_eq)
  then have "heap_on lt 0 (Suc ?n) (view (up H ?h ?n))"
    using g v by (intro up_heap) auto
  then show "is_heap lt (view (heap_Push H h x))"
    using g v by (simp add: P is_heap_def up_length)
  show "good (heap_Push H h x)" using g v by (simp add: P up_good)
  show "mset (view (heap_Push H h x)) = add_mset (key h x) (mset (view h))"
    using g v by (simp add: P up_mset)
qed

text \<open>The common end of \<open>Pop\<close> and \<open>Remove\<close>: dropping the last of \<open>n + 1\<close> elements.\<close>

lemma drop_last_correct:
  assumes "good h" and "length (view h) = Suc n" and "heap_on lt 0 n (view h)"
    and "hPop H h = (h', x)"
  shows "good h' \<and> is_heap lt (view h') \<and> key h' x = view h ! n \<and>
     mset (view h) = add_mset (key h' x) (mset (view h'))"
proof -
  have ne: "view h \<noteq> []" using assms(2) by auto
  have v: "view h' = butlast (view h)" and k: "key h' x = last (view h)" and g: "good h'"
    using pop_view [OF assms(1) ne] pop_key [OF assms(1) ne] pop_good [OF assms(1) ne] assms(4)
    by simp_all
  have "is_heap lt (butlast (view h))" using assms(2,3) by (intro is_heap_butlast) simp
  moreover have "mset (view h) = add_mset (last (view h)) (mset (butlast (view h)))"
    by (metis ne append_butlast_last_id mset_append add_mset_add_single mset_single_iff_right
        union_mset_add_mset_right mset.simps add.right_neutral)
  ultimately show ?thesis using g v k ne assms(2) by (simp add: last_conv_nth)
qed

lemma Pop_correct:
  assumes "good h" and "is_heap lt (view h)" and "view h \<noteq> []" and "heap_Pop H h = (h', x)"
  shows "good h' \<and> is_heap lt (view h') \<and> key h' x = view h ! 0 \<and>
     mset (view h) = add_mset (key h' x) (mset (view h'))"
proof -
  define n where "n = length (view h) - 1"
  let ?h1 = "hSwap H h 0 n"
  let ?h2 = "fst (down H ?h1 0 n)"
  have n: "length (view h) = Suc n" using assms(3) by (simp add: n_def)
  have g1: "good ?h1" and v1: "view ?h1 = exchange (view h) 0 n"
    using assms n by (simp_all add: swap_good swap_view)
  have "hole_down lt 0 n (exchange (view h) 0 n) 0"
    using assms(2) n unfolding hole_down_def is_heap_def heap_on_def
    by (auto simp: nth_exchange)
  then have hp: "heap_on lt 0 n (view ?h2)"
    using g1 v1 n by (intro down_heap) auto
  have g2: "good ?h2" using g1 v1 n by (intro down_good) auto
  have l2: "length (view ?h2) = Suc n" using g1 v1 n by (simp add: down_length)
  have "hPop H ?h2 = (h', x)"
    using assms(1,4) n by (simp add: heap_Pop_def Let_def len)
  from drop_last_correct [OF g2 l2 hp this] show ?thesis
    using g1 v1 n by (simp add: down_nth down_mset nth_exchange)
qed

lemma Remove_heap:
  assumes "good h" and "is_heap lt (view h)" and "i < n" and "length (view h) = Suc n"
    and "down H (hSwap H h i n) i n = (h2, i')" and "h3 = (if i < i' then h2 else up H h2 i)"
  shows "good h3 \<and> length (view h3) = Suc n \<and> heap_on lt 0 n (view h3) \<and>
     view h3 ! n = view h ! i \<and> mset (view h3) = mset (view h)"
proof -
  let ?xs = "exchange (view h) i n"
  let ?h1 = "hSwap H h i n"
  note hp = assms(2) [unfolded is_heap_def heap_on_def, rule_format]
  have g1: "good ?h1" and v1: "view ?h1 = ?xs" and l1: "length ?xs = Suc n"
    using assms by (simp_all add: swap_good swap_view)
  have h2: "h2 = fst (down H ?h1 i n)" and i': "i' = snd (down H ?h1 i n)"
    using assms(5) by simp_all
  have g2: "good h2" and l2: "length (view h2) = Suc n" and m2: "mset (view h2) = mset (view h)"
    and n2: "view h2 ! n = view h ! i"
    using g1 v1 l1 assms(3,4)
    by (simp_all add: h2 down_good down_length down_mset down_nth nth_exchange)
  have up: "good (up H h2 i)" "length (view (up H h2 i)) = Suc n"
    "mset (view (up H h2 i)) = mset (view h)" "view (up H h2 i) ! n = view h ! i"
    using g2 l2 m2 n2 assms(3) by (simp_all add: up_good up_length up_mset up_nth)
  have gp: "\<not> lt (view h ! k) (view h ! par i)" if "par k = i" "0 < i" "k < n" "0 < k" for k
    by (rule lt_negtrans [of "view h ! i"]) (use that hp [of i] hp [of k] assms(3,4) in auto)
  have "heap_on lt 0 n (view h3)"
  proof (cases "0 < i \<and> lt (?xs ! i) (?xs ! par i)")
    case False
    have "hole_down lt 0 n ?xs i"
      unfolding hole_down_def
    proof (intro allI impI, rule conjI)
      fix k assume k: "0 < k" "k < n" "0 \<le> par k"
      have "par k < n" "par i < n" using k assms(3) by simp_all
      then show "par k \<noteq> i \<longrightarrow> \<not> lt (?xs ! k) (?xs ! par k)"
        using False k hp [of k] assms(3,4) by (cases "k = i") (auto simp: nth_exchange)
      show "par k = i \<longrightarrow> 0 < i \<longrightarrow> 0 \<le> par i \<longrightarrow> \<not> lt (?xs ! k) (?xs ! par i)"
        using k gp [of k] par_less [of k] par_less [of i] assms(3,4) \<open>par i < n\<close>
        by (auto simp: nth_exchange)
    qed
    then have d: "heap_on lt 0 n (view h2)"
      using g1 v1 l1 assms(3) by (simp add: h2 down_heap)
    then have "hole_up lt n (view h2) i"
      using gp d by (auto simp: hole_up_def heap_on_def) (metis lt_negtrans par_bound assms(3))
    then have "heap_on lt 0 n (view (up H h2 i))"
      using g2 l2 assms(3) by (intro up_heap) auto
    with d show ?thesis by (simp add: assms(6))
  next
    case True
    have ge: "\<not> lt (?xs ! c) (?xs ! i)" if c: "par c = i" "0 < c" "c < n" for c
    proof (rule lt_negtrans)
      show "\<not> lt (?xs ! par i) (?xs ! i)" using True lt_asym by blast
      show "\<not> lt (?xs ! c) (?xs ! par i)"
        using True gp [of c] c par_less [of c] par_less [of i] assms(3,4) by (simp add: nth_exchange)
    qed
    have "n \<le> 2 * i + 1 \<or> \<not> hLess H ?h1 (best_child H ?h1 i n) i"
      using ge [of "best_child H ?h1 i n"] best_child [of i n ?h1] g1 v1 l1 assms(3)
      by (auto simp: less_key)
    then have stop: "h2 = ?h1" "i' = i" using assms(5) by (auto simp: down_stop)
    have "hole_up lt n ?xs i"
      unfolding hole_up_def
    proof (intro allI impI, rule conjI)
      fix k assume k: "0 < k" "k < n"
      show "k \<noteq> i \<longrightarrow> \<not> lt (?xs ! k) (?xs ! par k)"
        using ge [of k] k hp [of k] par_less [of k] assms(3,4)
        by (cases "par k = i") (auto simp: nth_exchange)
      show "par k = i \<longrightarrow> 0 < i \<longrightarrow> \<not> lt (?xs ! k) (?xs ! par i)"
        using k gp [of k] par_less [of k] par_less [of i] assms(3,4) by (auto simp: nth_exchange)
    qed
    then have "heap_on lt 0 n (view (up H h2 i))"
      using g1 v1 l1 assms(3) stop by (intro up_heap) auto
    then show ?thesis by (simp add: assms(6) stop)
  qed
  with g2 l2 m2 n2 up show ?thesis by (simp add: assms(6))
qed

lemma Remove_correct:
  assumes "good h" and "is_heap lt (view h)" and "i < length (view h)"
    and "heap_Remove H h i = (h', x)"
  shows "good h' \<and> is_heap lt (view h') \<and> key h' x = view h ! i \<and>
     mset (view h) = add_mset (key h' x) (mset (view h'))"
proof -
  obtain n where n: "length (view h) = Suc n" using assms(3) by (cases "length (view h)") auto
  obtain h2 i' where d: "down H (hSwap H h i n) i n = (h2, i')" by fastforce
  show ?thesis
  proof (cases "n = i")
    case True
    then have "hPop H h = (h', x)" using assms(1,4) n by (simp add: heap_Remove_def len)
    moreover have "heap_on lt 0 n (view h)" using assms(2) n by (simp add: is_heap_def heap_on_def)
    ultimately show ?thesis using drop_last_correct [OF assms(1) n] True by simp
  next
    case False
    define h3 where "h3 = (if i < i' then h2 else up H h2 i)"
    have "i < n" using False n assms(3) by simp
    note R = Remove_heap [OF assms(1,2) this n d h3_def]
    have "hPop H h3 = (h', x)"
      using assms(1,4) n False d by (simp add: heap_Remove_def len h3_def split: if_splits)
    with R drop_last_correct [of h3 n h' x] show ?thesis by simp
  qed
qed

lemma Init_loop_correct:
  "good h \<Longrightarrow> n = length (view h) \<Longrightarrow> i \<le> n \<Longrightarrow> heap_on lt i n (view h) \<Longrightarrow>
   good (heap_Init_loop H h n i) \<and> is_heap lt (view (heap_Init_loop H h n i)) \<and>
   mset (view (heap_Init_loop H h n i)) = mset (view h)"
proof (induction i arbitrary: h)
  case 0
  then show ?case by (simp add: is_heap_def)
next
  case (Suc i)
  let ?h = "fst (down H h i n)"
  have "heap_on lt i n (view ?h)"
    using Suc.prems by (intro down_heap heap_on_hole_down) auto
  with Suc.prems Suc.IH [of ?h] show ?case by (simp add: down_good down_length down_mset)
qed

lemma Init_correct:
  assumes "good h"
  shows "good (heap_Init H h) \<and> is_heap lt (view (heap_Init H h)) \<and>
     mset (view (heap_Init H h)) = mset (view h)"
  using assms Init_loop_correct [of h "length (view h)" "length (view h) div 2"]
  by (simp add: heap_Init_def len heap_on_half)

text \<open>What in-range exchanges keep is kept by every operation: the rule for frame conditions.\<close>

lemma Push_invariant:
  assumes "\<And>h i j. good h \<Longrightarrow> P h \<Longrightarrow> i < length (view h) \<Longrightarrow> j < length (view h) \<Longrightarrow>
      P (hSwap H h i j)"
    and "good h" and "fresh h x" and "P (hPush H h x)"
  shows "P (heap_Push H h x)"
proof -
  have "good (hPush H h x)" and "length (view (hPush H h x)) = Suc (length (view h))"
    using assms(2,3) by (simp_all add: push_good push_view)
  then show ?thesis
    using up_invariant [of P "hPush H h x"] assms(1,4) by (simp add: heap_Push_def len)
qed

lemma Pop_invariant:
  assumes "\<And>h i j. good h \<Longrightarrow> P h \<Longrightarrow> i < length (view h) \<Longrightarrow> j < length (view h) \<Longrightarrow>
      P (hSwap H h i j)"
    and "good h" and "view h \<noteq> []" and "P h"
    and "\<And>h. good h \<Longrightarrow> view h \<noteq> [] \<Longrightarrow> P h \<Longrightarrow> Q (hPop H h)"
  shows "Q (heap_Pop H h)"
proof -
  define h1 where "h1 = hSwap H h 0 (length (view h) - 1)"
  have h1: "good h1" "P h1" "length (view h1) = length (view h)"
    using assms by (simp_all add: h1_def swap_good swap_view)
  then have "good (fst (down H h1 0 (length (view h) - 1)))
      \<and> P (fst (down H h1 0 (length (view h) - 1)))"
    by (intro down_invariant assms(1)) auto
  moreover have "view (fst (down H h1 0 (length (view h) - 1))) \<noteq> []"
    using h1 assms(3) down_length [of h1 "length (view h) - 1" 0] by auto
  ultimately show ?thesis
    using assms(2,5) by (simp add: heap_Pop_def len h1_def Let_def)
qed

lemma Remove_invariant:
  assumes "\<And>h i j. good h \<Longrightarrow> P h \<Longrightarrow> i < length (view h) \<Longrightarrow> j < length (view h) \<Longrightarrow>
      P (hSwap H h i j)"
    and "good h" and "i < length (view h)" and "P h"
    and "\<And>h. good h \<Longrightarrow> view h \<noteq> [] \<Longrightarrow> P h \<Longrightarrow> Q (hPop H h)"
  shows "Q (heap_Remove H h i)"
proof -
  define n where "n = length (view h) - 1"
  define h1 where "h1 = hSwap H h i n"
  obtain h2 i' where d: "down H h1 i n = (h2, i')" by fastforce
  have n: "length (view h) = Suc n" using assms(3) by (simp add: n_def)
  have h1: "good h1" "P h1" "length (view h1) = Suc n"
    using assms n by (simp_all add: h1_def swap_good swap_view)
  then have h2: "good h2 \<and> P h2" using down_invariant [of P h1 n i] assms(1) d by simp
  have l2: "length (view h2) = Suc n" using down_length [of h1 n i] h1 d by simp
  have i: "i < Suc n" using assms(3) n by simp
  have "good (up H h2 i) \<and> P (up H h2 i)" using h2 l2 i by (intro up_invariant assms(1)) auto
  moreover have "length (view (up H h2 i)) = Suc n" using h2 l2 i by (simp add: up_length)
  ultimately have "Q (hPop H (if i < i' then h2 else up H h2 i))"
    using assms(5) h2 l2 by (metis Suc_neq_Zero list.size(3))
  moreover have "Q (hPop H h)" using assms(2,4,5) n by fastforce
  ultimately show ?thesis
    using assms(2) d n by (simp add: heap_Remove_def len h1_def Let_def)
qed

lemma Init_invariant:
  assumes "\<And>h i j. good h \<Longrightarrow> P h \<Longrightarrow> i < length (view h) \<Longrightarrow> j < length (view h) \<Longrightarrow>
      P (hSwap H h i j)"
    and "good h" and "P h"
  shows "P (heap_Init H h)"
proof -
  have "P (heap_Init_loop H h n i)" if "good h" "P h" "n = length (view h)" for h n i
    using that
  proof (induction i arbitrary: h)
    case (Suc i)
    have "good (fst (down H h i n)) \<and> P (fst (down H h i n))"
      using Suc.prems by (intro down_invariant assms(1)) auto
    moreover have "length (view (fst (down H h i n))) = n"
      using Suc.prems by (simp add: down_length)
    ultimately show ?case using Suc.IH [of "fst (down H h i n)"] by simp
  qed simp
  then show ?thesis using assms(2,3) by (simp add: heap_Init_def len)
qed

end

end
