(* ===== verification/Message.thy ===== *)
theory Message
  imports Prelude
begin

text \<open>
  \<open>internal/queue/message.go\<close>: messages, queue configurations with their validation, and the one
  comparator behind all orderings. The random bytes \<open>newID\<close> draws are an argument.
\<close>

section \<open>Data\<close>

abbreviation FIFO :: string where "FIFO \<equiv> ''fifo''"
abbreviation LIFO :: string where "LIFO \<equiv> ''lifo''"

datatype mstate = stateReady | stateDelayed | stateInFlight | stateDead

fun state_String :: "mstate \<Rightarrow> string" where
  "state_String stateReady = ''ready''"
| "state_String stateDelayed = ''delayed''"
| "state_String stateInFlight = ''in_flight''"
| "state_String stateDead = ''dead''"

record message =
  m_ID :: string
  m_DedupID :: string
  m_Seq :: u64
  m_Priority :: int
  m_VisibleAt :: gotime
  m_Payload :: "byte list"
  m_Attempts :: int
  m_CreatedAt :: gotime
  m_state :: mstate
  m_index :: int
  m_effPriority :: int
  m_deadline :: gotime

definition Deadline :: "message \<Rightarrow> gotime" where
  "Deadline m = m_deadline m"

record config =
  c_Name :: string
  c_Ordering :: string
  c_PriorityEnabled :: bool
  c_MaxAttempts :: int
  c_DefaultVisibilityTimeoutMS :: int
  c_AgingIntervalMS :: int
  c_AgingMaxBoost :: int
  c_DedupWindowMS :: int
  c_NextSeq :: u64

definition DefaultVisibilityTimeout :: duration where
  "DefaultVisibilityTimeout = 30 * 1000000000"

definition DefaultMaxAttempts :: int where
  "DefaultMaxAttempts = 5"

definition DefaultDedupWindow :: duration where
  "DefaultDedupWindow = 5 * 60 * 1000000000"

section \<open>Validation\<close>

text \<open>The regular expression \<open>^[a-zA-Z0-9][a-zA-Z0-9_.-]{0,63}$\<close>.\<close>

definition alnum :: "char \<Rightarrow> bool" where
  "alnum c \<longleftrightarrow> (let n = (of_char c :: nat)
     in (48 \<le> n \<and> n \<le> 57) \<or> (65 \<le> n \<and> n \<le> 90) \<or> (97 \<le> n \<and> n \<le> 122))"

definition name_char :: "char \<Rightarrow> bool" where
  "name_char c \<longleftrightarrow> alnum c \<or> c = CHR ''_'' \<or> c = CHR ''.'' \<or> c = CHR ''-''"

fun nameRE :: "string \<Rightarrow> bool" where
  "nameRE [] = False"
| "nameRE (c # cs) = (alnum c \<and> list_all name_char cs \<and> length cs \<le> 63)"

text \<open>\<open>Validate\<close> rewrites the configuration in place; the model returns the rewritten one.\<close>

definition validate_ordering :: "config \<Rightarrow> go_error + config" where
  "validate_ordering c =
     (if c_Ordering c = '''' then Inr (c\<lparr>c_Ordering := FIFO\<rparr>)
      else if c_Ordering c = FIFO \<or> c_Ordering c = LIFO then Inr c
      else Inl (ErrInvalidOrdering (c_Ordering c)))"

definition validate_attempts :: "config \<Rightarrow> go_error + config" where
  "validate_attempts c =
     (let c' = (if c_MaxAttempts c = 0 then c\<lparr>c_MaxAttempts := DefaultMaxAttempts\<rparr> else c)
      in if c_MaxAttempts c' < 1 then Inl (ErrInvalidConfig ''max_attempts must be >= 1'')
         else Inr c')"

definition validate_visibility :: "config \<Rightarrow> go_error + config" where
  "validate_visibility c =
     (let c' = (if c_DefaultVisibilityTimeoutMS c = 0
                then c\<lparr>c_DefaultVisibilityTimeoutMS := DefaultVisibilityTimeout sdiv 1000000\<rparr>
                else c)
      in if c_DefaultVisibilityTimeoutMS c' < 0
         then Inl (ErrInvalidConfig ''default_visibility_timeout_ms must be >= 0'')
         else Inr c')"

definition validate_dedup :: "config \<Rightarrow> go_error + config" where
  "validate_dedup c =
     (let c' = (if c_DedupWindowMS c = 0
                then c\<lparr>c_DedupWindowMS := DefaultDedupWindow sdiv 1000000\<rparr> else c)
      in if c_DedupWindowMS c' < 0 then Inl (ErrInvalidConfig ''dedup_window_ms must be >= 0'')
         else Inr c')"

definition validate_aging :: "config \<Rightarrow> go_error + config" where
  "validate_aging c =
     (if c_AgingIntervalMS c < 0 then Inl (ErrInvalidConfig ''aging_interval_ms must be >= 0'')
      else let c' = (if c_AgingIntervalMS c > 0 \<and> c_AgingMaxBoost c \<le> 0
                     then c\<lparr>c_AgingMaxBoost := 10\<rparr> else c)
      in if \<not> c_PriorityEnabled c' \<and> c_AgingIntervalMS c' > 0
         then Inl (ErrInvalidConfig ''aging_interval_ms requires priority_enabled'')
         else Inr c')"

definition Validate :: "config \<Rightarrow> go_error + config" where
  "Validate c =
     (if \<not> nameRE (c_Name c) then Inl (ErrInvalidName (c_Name c))
      else bindE (validate_ordering c) (\<lambda>c.
           bindE (validate_attempts c) (\<lambda>c.
           bindE (validate_visibility c) (\<lambda>c.
           bindE (validate_dedup c) validate_aging))))"

definition visibilityTimeout :: "config \<Rightarrow> duration" where
  "visibilityTimeout c = millis (c_DefaultVisibilityTimeoutMS c)"

definition dedupWindow :: "config \<Rightarrow> duration" where
  "dedupWindow c = millis (c_DedupWindowMS c)"

definition agingInterval :: "config \<Rightarrow> duration" where
  "agingInterval c = millis (c_AgingIntervalMS c)"

section \<open>The comparator\<close>

definition cfg_less :: "config \<Rightarrow> message \<Rightarrow> message \<Rightarrow> bool" where
  "cfg_less c a b =
     (if c_PriorityEnabled c \<and> m_effPriority a \<noteq> m_effPriority b
      then m_effPriority a > m_effPriority b
      else if c_Ordering c = LIFO then m_Seq a > m_Seq b
      else m_Seq a < m_Seq b)"

section \<open>Message ids\<close>

definition hex_digit :: "nat \<Rightarrow> char" where
  "hex_digit n = ''0123456789abcdef'' ! n"

definition hex_byte :: "byte \<Rightarrow> string" where
  "hex_byte b = [hex_digit (unat b div 16), hex_digit (unat b mod 16)]"

text \<open>The eight bytes \<open>crypto/rand\<close> fills in are one word here, its lowest byte the first drawn.\<close>

definition newID :: "u64 \<Rightarrow> string" where
  "newID random = concat (map hex_byte (le_bytes 8 random))"

lemma length_newID [simp]: "length (newID random) = 16"
  by (simp add: newID_def hex_byte_def length_concat comp_def sum_list_triv)

section \<open>Properties\<close>

lemma quot_defaults [simp]:
  "DefaultVisibilityTimeout sdiv 1000000 = 30000"
  "DefaultDedupWindow sdiv 1000000 = 300000"
  by (simp_all add: DefaultVisibilityTimeout_def DefaultDedupWindow_def)

text \<open>What a configuration looks like once \<open>Validate\<close> has accepted it.\<close>

definition valid_config :: "config \<Rightarrow> bool" where
  "valid_config c \<longleftrightarrow>
     nameRE (c_Name c) \<and> (c_Ordering c = FIFO \<or> c_Ordering c = LIFO) \<and>
     1 \<le> c_MaxAttempts c \<and> 0 < c_DefaultVisibilityTimeoutMS c \<and> 0 < c_DedupWindowMS c \<and>
     0 \<le> c_AgingIntervalMS c \<and> (0 < c_AgingIntervalMS c \<longrightarrow> 0 < c_AgingMaxBoost c \<and> c_PriorityEnabled c)"

text \<open>Each stage establishes its own field and leaves the others alone.\<close>

lemma validate_ordering_spec: "validate_ordering c = Inr c' \<Longrightarrow>
    \<exists>v. c' = c\<lparr>c_Ordering := v\<rparr> \<and> (v = FIFO \<or> v = LIFO)"
  by (auto simp: validate_ordering_def split: if_splits intro: exI [of _ "c_Ordering c"])

lemma validate_attempts_spec: "validate_attempts c = Inr c' \<Longrightarrow>
    \<exists>v. c' = c\<lparr>c_MaxAttempts := v\<rparr> \<and> 1 \<le> v"
  by (auto simp: validate_attempts_def DefaultMaxAttempts_def Let_def split: if_splits
      intro: exI [of _ "c_MaxAttempts c"])

lemma validate_visibility_spec: "validate_visibility c = Inr c' \<Longrightarrow>
    \<exists>v. c' = c\<lparr>c_DefaultVisibilityTimeoutMS := v\<rparr> \<and> 0 < v"
  by (auto simp: validate_visibility_def Let_def split: if_splits
      intro: exI [of _ "c_DefaultVisibilityTimeoutMS c"])

lemma validate_dedup_spec: "validate_dedup c = Inr c' \<Longrightarrow>
    \<exists>v. c' = c\<lparr>c_DedupWindowMS := v\<rparr> \<and> 0 < v"
  by (auto simp: validate_dedup_def Let_def split: if_splits intro: exI [of _ "c_DedupWindowMS c"])

lemma validate_aging_spec: "validate_aging c = Inr c' \<Longrightarrow>
    \<exists>v. c' = c\<lparr>c_AgingMaxBoost := v\<rparr> \<and> 0 \<le> c_AgingIntervalMS c \<and>
      (0 < c_AgingIntervalMS c \<longrightarrow> 0 < v \<and> c_PriorityEnabled c)"
  by (auto simp: validate_aging_def Let_def split: if_splits intro: exI [of _ "c_AgingMaxBoost c"])

lemma Validate_spec:
  assumes "Validate c = Inr c'"
  shows "\<exists>v1 v2 v3 v4 v5. c' = c\<lparr>c_Ordering := v1, c_MaxAttempts := v2,
      c_DefaultVisibilityTimeoutMS := v3, c_DedupWindowMS := v4, c_AgingMaxBoost := v5\<rparr> \<and>
    nameRE (c_Name c) \<and> (v1 = FIFO \<or> v1 = LIFO) \<and> 1 \<le> v2 \<and> 0 < v3 \<and> 0 < v4 \<and>
    0 \<le> c_AgingIntervalMS c \<and> (0 < c_AgingIntervalMS c \<longrightarrow> 0 < v5 \<and> c_PriorityEnabled c)"
proof -
  from assms have name: "nameRE (c_Name c)" by (simp add: Validate_def split: if_splits)
  with assms obtain c1 c2 c3 c4 where s: "validate_ordering c = Inr c1"
    "validate_attempts c1 = Inr c2" "validate_visibility c2 = Inr c3"
    "validate_dedup c3 = Inr c4" "validate_aging c4 = Inr c'"
    by (auto simp: Validate_def bindE_eq_Inr)
  from validate_ordering_spec [OF s(1)] obtain v1 where
    1: "c1 = c\<lparr>c_Ordering := v1\<rparr>" "v1 = FIFO \<or> v1 = LIFO" by blast
  from validate_attempts_spec [OF s(2)] obtain v2 where
    2: "c2 = c1\<lparr>c_MaxAttempts := v2\<rparr>" "1 \<le> v2" by blast
  from validate_visibility_spec [OF s(3)] obtain v3 where
    3: "c3 = c2\<lparr>c_DefaultVisibilityTimeoutMS := v3\<rparr>" "0 < v3" by blast
  from validate_dedup_spec [OF s(4)] obtain v4 where
    4: "c4 = c3\<lparr>c_DedupWindowMS := v4\<rparr>" "0 < v4" by blast
  from validate_aging_spec [OF s(5)] obtain v5 where
    5: "c' = c4\<lparr>c_AgingMaxBoost := v5\<rparr>" "0 \<le> c_AgingIntervalMS c4"
       "0 < c_AgingIntervalMS c4 \<longrightarrow> 0 < v5 \<and> c_PriorityEnabled c4" by blast
  show ?thesis
    by (rule exI [of _ v1], rule exI [of _ v2], rule exI [of _ v3], rule exI [of _ v4],
        rule exI [of _ v5]) (use 1 2 3 4 5 name in simp)
qed

lemma Validate_valid: "Validate c = Inr c' \<Longrightarrow> valid_config c'"
  by (drule Validate_spec) (clarsimp simp: valid_config_def)

lemma valid_Validate: "valid_config c \<Longrightarrow> Validate c = Inr c"
  by (auto simp: Validate_def validate_ordering_def validate_attempts_def validate_visibility_def
      validate_dedup_def validate_aging_def valid_config_def)

lemma Validate_idem: "Validate c = Inr c' \<Longrightarrow> Validate c' = Inr c'"
  by (simp add: Validate_valid valid_Validate)

lemma Validate_Name: "Validate c = Inr c' \<Longrightarrow> c_Name c' = c_Name c"
  by (drule Validate_spec) clarsimp

lemma valid_config_NextSeq [simp]: "valid_config (c\<lparr>c_NextSeq := n\<rparr>) = valid_config c"
  by (simp add: valid_config_def)

lemma cfg_less_asym: "cfg_less c a b \<Longrightarrow> \<not> cfg_less c b a"
  by (auto simp: cfg_less_def split: if_splits)

lemma cfg_less_negtrans: "\<not> cfg_less c b a \<Longrightarrow> \<not> cfg_less c d b \<Longrightarrow> \<not> cfg_less c d a"
  by (auto simp: cfg_less_def split: if_splits)

lemma cfg_less_total: "m_Seq a \<noteq> m_Seq b \<Longrightarrow> cfg_less c a b \<or> cfg_less c b a"
  by (auto simp: cfg_less_def split: if_splits)

lemma cfg_less_index [simp]:
  "cfg_less c (a\<lparr>m_index := i\<rparr>) b = cfg_less c a b"
  "cfg_less c a (b\<lparr>m_index := i\<rparr>) = cfg_less c a b"
  by (simp_all add: cfg_less_def)

end
