(* ===== verification/Queue_Heaps.thy ===== *)
theory Queue_Heaps
  imports Go_Heap Message
begin

text \<open>
  \<open>internal/queue/heaps.go\<close>: the ready, delayed and lease heaps. A heap holds pointers to
  messages; the messages live in a memory, since \<open>Swap\<close>, \<open>Push\<close> and \<open>Pop\<close> write each message's
  own \<open>index\<close> field and the queue reads it back to remove a message from the middle. The three
  Go types differ in \<open>Less\<close> only. \<open>heap_ok\<close> is what \<open>heaps.go\<close> keeps true of a heap: no message
  twice, every \<open>index\<close> field right, and the heap order.
\<close>

section \<open>The three heaps\<close>

type_synonym mem = "ptr \<Rightarrow> message"

definition set_index :: "mem \<Rightarrow> ptr \<Rightarrow> int \<Rightarrow> mem" where
  "set_index mem p i = mem(p := (mem p)\<lparr>m_index := i\<rparr>)"

definition items_Swap :: "mem \<times> ptr list \<Rightarrow> nat \<Rightarrow> nat \<Rightarrow> mem \<times> ptr list" where
  "items_Swap h i j =
     (let items = exchange (snd h) i j
      in (set_index (set_index (fst h) (items ! i) (int i)) (items ! j) (int j), items))"

definition items_Push :: "mem \<times> ptr list \<Rightarrow> ptr \<Rightarrow> mem \<times> ptr list" where
  "items_Push h p = (set_index (fst h) p (int (length (snd h))), snd h @ [p])"

definition items_Pop :: "mem \<times> ptr list \<Rightarrow> (mem \<times> ptr list) \<times> ptr" where
  "items_Pop h = ((set_index (fst h) (last (snd h)) (-1), butlast (snd h)), last (snd h))"

definition msg_heap :: "(message \<Rightarrow> message \<Rightarrow> bool) \<Rightarrow> (mem \<times> ptr list, ptr) heap_iface" where
  "msg_heap lt = \<lparr>
     hLen = (\<lambda>h. length (snd h)),
     hLess = (\<lambda>h i j. lt (fst h (snd h ! i)) (fst h (snd h ! j))),
     hSwap = items_Swap, hPush = items_Push, hPop = items_Pop\<rparr>"

definition delayed_less :: "message \<Rightarrow> message \<Rightarrow> bool" where
  "delayed_less a b =
     (if m_VisibleAt a \<noteq> m_VisibleAt b then m_VisibleAt a < m_VisibleAt b else m_Seq a < m_Seq b)"

definition lease_less :: "message \<Rightarrow> message \<Rightarrow> bool" where
  "lease_less a b =
     (if m_deadline a \<noteq> m_deadline b then m_deadline a < m_deadline b else m_Seq a < m_Seq b)"

definition readyHeap :: "config \<Rightarrow> (mem \<times> ptr list, ptr) heap_iface" where
  "readyHeap c = msg_heap (cfg_less c)"

definition delayedHeap :: "(mem \<times> ptr list, ptr) heap_iface" where
  "delayedHeap = msg_heap delayed_less"

definition leaseHeap :: "(mem \<times> ptr list, ptr) heap_iface" where
  "leaseHeap = msg_heap lease_less"

section \<open>What the heaps keep true\<close>

definition strip :: "message \<Rightarrow> message" where
  "strip m = m\<lparr>m_index := 0\<rparr>"

definition indexed :: "mem \<Rightarrow> ptr list \<Rightarrow> bool" where
  "indexed mem xs \<longleftrightarrow> distinct xs \<and> (\<forall>k < length xs. m_index (mem (xs ! k)) = int k)"

definition heap_ok :: "(message \<Rightarrow> message \<Rightarrow> bool) \<Rightarrow> mem \<Rightarrow> ptr list \<Rightarrow> bool" where
  "heap_ok lt mem xs \<longleftrightarrow> indexed mem xs \<and> is_heap lt (map mem xs)"

text \<open>\<open>mem'\<close> differs from \<open>mem\<close> in \<open>index\<close> fields only, and only at the pointers of \<open>A\<close>.\<close>

definition idx_only :: "ptr set \<Rightarrow> mem \<Rightarrow> mem \<Rightarrow> bool" where
  "idx_only A mem mem' \<longleftrightarrow>
     (\<forall>r. strip (mem' r) = strip (mem r)) \<and> (\<forall>r. r \<notin> A \<longrightarrow> mem' r = mem r)"

lemma strip_eqD:
  assumes "strip a = strip b"
  shows "m_ID a = m_ID b" "m_DedupID a = m_DedupID b" "m_Seq a = m_Seq b"
    "m_Priority a = m_Priority b" "m_VisibleAt a = m_VisibleAt b" "m_Payload a = m_Payload b"
    "m_Attempts a = m_Attempts b" "m_CreatedAt a = m_CreatedAt b" "m_state a = m_state b"
    "m_effPriority a = m_effPriority b" "m_deadline a = m_deadline b"
  using assms by (cases a, cases b, simp add: strip_def)+

lemma strip_set_index [simp]: "strip (set_index mem p i r) = strip (mem r)"
  by (simp add: set_index_def strip_def)

lemma idx_only_refl [simp]: "idx_only A mem mem"
  by (simp add: idx_only_def)

lemma idx_only_trans:
  "idx_only A m1 m2 \<Longrightarrow> idx_only B m2 m3 \<Longrightarrow> A \<union> B \<subseteq> C \<Longrightarrow> idx_only C m1 m3"
  unfolding idx_only_def by (metis UnCI subsetD)

lemma idx_only_set_index: "p \<in> A \<Longrightarrow> idx_only A mem (set_index mem p i)"
  by (auto simp: idx_only_def set_index_def strip_def)

lemma idx_onlyD:
  assumes "idx_only A mem mem'"
  shows "strip (mem' r) = strip (mem r)" and "r \<notin> A \<Longrightarrow> mem' r = mem r"
  using assms by (simp_all add: idx_only_def)

lemmas idx_only_fields = strip_eqD [OF idx_onlyD(1)]

lemma indexed_cong:
  "(\<And>p. p \<in> set xs \<Longrightarrow> m_index (mem' p) = m_index (mem p)) \<Longrightarrow> indexed mem' xs = indexed mem xs"
  by (auto simp: indexed_def)

lemma heap_ok_cong:
  assumes "\<And>p. p \<in> set xs \<Longrightarrow> mem' p = mem p"
  shows "heap_ok lt mem' xs = heap_ok lt mem xs"
proof -
  have "map mem' xs = map mem xs" using assms by simp
  moreover have "indexed mem' xs = indexed mem xs" using assms by (intro indexed_cong) simp
  ultimately show ?thesis by (simp only: heap_ok_def)
qed

lemma heap_ok_Nil [simp]: "heap_ok lt mem []"
  by (simp add: heap_ok_def indexed_def)

lemma heap_ok_distinct: "heap_ok lt mem xs \<Longrightarrow> distinct xs"
  by (simp add: heap_ok_def indexed_def)

lemma heap_ok_index: "heap_ok lt mem xs \<Longrightarrow> k < length xs \<Longrightarrow> m_index (mem (xs ! k)) = int k"
  by (simp add: heap_ok_def indexed_def)

text \<open>The view of a heap its order sees: each pointer with its message, \<open>index\<close> set aside.\<close>

definition heap_view :: "mem \<times> ptr list \<Rightarrow> (ptr \<times> message) list" where
  "heap_view h = map (\<lambda>p. (p, strip (fst h p))) (snd h)"

definition key_less :: "(message \<Rightarrow> message \<Rightarrow> bool) \<Rightarrow> ptr \<times> message \<Rightarrow> ptr \<times> message \<Rightarrow> bool" where
  "key_less lt a b = lt (snd a) (snd b)"

definition heap_frame :: "ptr set \<Rightarrow> mem \<Rightarrow> mem \<times> ptr list \<Rightarrow> bool" where
  "heap_frame A mem h \<longleftrightarrow> idx_only A mem (fst h) \<and> set (snd h) \<subseteq> A"

definition popped :: "ptr set \<Rightarrow> mem \<Rightarrow> (mem \<times> ptr list) \<times> ptr \<Rightarrow> bool" where
  "popped A mem r \<longleftrightarrow> heap_frame A mem (fst r) \<and> m_index (fst (fst r) (snd r)) = -1"

text \<open>
  What a comparator of messages must satisfy: a strict weak order that does not look at the
  \<open>index\<close> field, which the heap itself writes.
\<close>

locale message_order =
  fixes lt :: "message \<Rightarrow> message \<Rightarrow> bool"
  assumes asym: "lt a b \<Longrightarrow> \<not> lt b a"
    and negtrans: "\<not> lt b a \<Longrightarrow> \<not> lt c b \<Longrightarrow> \<not> lt c a"
    and no_index: "lt (strip a) (strip b) = lt a b"

sublocale message_order \<subseteq> go_heap "key_less lt" "msg_heap lt" heap_view
  "\<lambda>h. indexed (fst h) (snd h)" "\<lambda>h p. (p, strip (fst h p))" "\<lambda>h p. p \<notin> set (snd h)"
proof unfold_locales
  fix a b c :: "ptr \<times> message"
  show "key_less lt a b \<Longrightarrow> \<not> key_less lt b a"
    by (simp add: key_less_def asym)
  show "\<not> key_less lt b a \<Longrightarrow> \<not> key_less lt c b \<Longrightarrow> \<not> key_less lt c a"
    unfolding key_less_def by (rule negtrans)
next
  fix h :: "mem \<times> ptr list" and i j
  assume g: "indexed (fst h) (snd h)"
  show "hLen (msg_heap lt) h = length (heap_view h)"
    by (simp add: msg_heap_def heap_view_def)
  assume ij: "i < length (heap_view h)" "j < length (heap_view h)"
  then show "hLess (msg_heap lt) h i j = key_less lt (heap_view h ! i) (heap_view h ! j)"
    by (simp add: msg_heap_def heap_view_def key_less_def no_index)
  from ij have ij': "i < length (snd h)" "j < length (snd h)" by (simp_all add: heap_view_def)
  show "heap_view (hSwap (msg_heap lt) h i j) = exchange (heap_view h) i j"
    using ij' by (simp add: msg_heap_def items_Swap_def heap_view_def Let_def map_exchange)
  show "indexed (fst (hSwap (msg_heap lt) h i j)) (snd (hSwap (msg_heap lt) h i j))"
    using g ij'
    by (auto simp: msg_heap_def items_Swap_def Let_def indexed_def set_index_def nth_exchange
        nth_eq_iff_index_eq)
next
  fix h :: "mem \<times> ptr list" and p
  assume g: "indexed (fst h) (snd h)" and p: "p \<notin> set (snd h)"
  show "heap_view (hPush (msg_heap lt) h p) = heap_view h @ [(p, strip (fst h p))]"
    by (simp add: msg_heap_def items_Push_def heap_view_def)
  show "indexed (fst (hPush (msg_heap lt) h p)) (snd (hPush (msg_heap lt) h p))"
    using g p by (auto simp: msg_heap_def items_Push_def indexed_def set_index_def nth_append
        less_Suc_eq)
next
  fix h :: "mem \<times> ptr list"
  assume g: "indexed (fst h) (snd h)" and "heap_view h \<noteq> []"
  then have ne: "snd h \<noteq> []" by (simp add: heap_view_def)
  show "heap_view (fst (hPop (msg_heap lt) h)) = butlast (heap_view h)"
    by (simp add: msg_heap_def items_Pop_def heap_view_def map_butlast)
  have "butlast (snd h) ! k \<noteq> last (snd h)" if "k < length (snd h) - 1" for k
    using g that ne by (simp add: indexed_def nth_butlast last_conv_nth nth_eq_iff_index_eq)
  then show "indexed (fst (fst (hPop (msg_heap lt) h))) (snd (fst (hPop (msg_heap lt) h)))"
    using g by (simp add: msg_heap_def items_Pop_def indexed_def set_index_def distinct_butlast
        nth_butlast)
  show "(snd (hPop (msg_heap lt) h), strip (fst (fst (hPop (msg_heap lt) h)) (snd (hPop (msg_heap lt) h))))
      = last (heap_view h)"
    using ne by (simp add: msg_heap_def items_Pop_def heap_view_def last_map)
qed

text \<open>The laws at the level of messages and pointers, for any such comparator.\<close>

context message_order
begin

lemma is_heap_view: "is_heap (key_less lt) (heap_view (mem, xs)) = is_heap lt (map mem xs)"
  by (auto simp: is_heap_def heap_on_def heap_view_def key_less_def no_index)

lemma mset_heap_view: "mset (heap_view (mem, xs)) = image_mset (\<lambda>p. (p, strip (mem p))) (mset xs)"
  by (simp add: heap_view_def)

lemma mset_items: "image_mset fst (mset (heap_view (mem, xs))) = mset xs"
  by (simp add: heap_view_def multiset.map_comp comp_def)

text \<open>Exchanges write \<open>index\<close> fields of the heap's own messages only.\<close>

lemma swap_idx_only:
  assumes "i < length xs" and "j < length xs"
  shows "idx_only (set xs) mem (fst (hSwap (msg_heap lt) (mem, xs) i j)) \<and>
    set (snd (hSwap (msg_heap lt) (mem, xs) i j)) = set xs"
proof -
  have "set (exchange xs i j) = set xs" using assms by simp
  then have "exchange xs i j ! i \<in> set xs" "exchange xs i j ! j \<in> set xs"
    using assms nth_mem [of _ "exchange xs i j"] by auto
  then show ?thesis
    using assms
    by (auto simp: msg_heap_def items_Swap_def Let_def intro: idx_only_set_index
        idx_only_trans [where B = "set xs" and A = "set xs"])
qed

lemma swap_frame:
  assumes "indexed (fst h) (snd h)" and "heap_frame A mem h"
    and "i < length (heap_view h)" and "j < length (heap_view h)"
  shows "heap_frame A mem (hSwap (msg_heap lt) h i j)"
proof -
  obtain m xs where h: "h = (m, xs)" by (cases h)
  have "i < length xs" "j < length xs" using assms(3,4) by (simp_all add: h heap_view_def)
  from swap_idx_only [OF this, of m] assms(2) show ?thesis
    by (auto simp: h heap_frame_def intro: idx_only_trans)
qed

lemma Push_ok:
  assumes "heap_ok lt mem xs" and "p \<notin> set xs"
    and "heap_Push (msg_heap lt) (mem, xs) p = (mem', xs')"
  shows "heap_ok lt mem' xs'" and "mset xs' = add_mset p (mset xs)"
    and "idx_only (insert p (set xs)) mem mem'"
proof -
  have g: "indexed (fst (mem, xs)) (snd (mem, xs))" and f: "p \<notin> set (snd (mem, xs))"
    and h: "is_heap (key_less lt) (heap_view (mem, xs))"
    using assms(1,2) by (simp_all add: heap_ok_def is_heap_view)
  note P = Push_correct [OF g f h, unfolded assms(3)]
  then show "heap_ok lt mem' xs'" by (simp add: heap_ok_def is_heap_view)
  have "image_mset fst (mset (heap_view (mem', xs')))
      = image_mset fst (add_mset (p, strip (mem p)) (mset (heap_view (mem, xs))))"
    using P(3) by simp
  then show "mset xs' = add_mset p (mset xs)" by (simp add: mset_items)
  have "heap_frame (insert p (set xs)) mem (heap_Push (msg_heap lt) (mem, xs) p)"
  proof (rule Push_invariant [where P = "heap_frame (insert p (set xs)) mem", OF swap_frame _ f])
    show "heap_frame (insert p (set xs)) mem (hPush (msg_heap lt) (mem, xs) p)"
      by (auto simp: heap_frame_def msg_heap_def items_Push_def intro: idx_only_set_index)
  qed (use g in simp_all)
  then show "idx_only (insert p (set xs)) mem mem'" by (simp add: assms(3) heap_frame_def)
qed

lemma pop_frame:
  assumes "heap_frame A mem h" and "heap_view h \<noteq> []"
  shows "popped A mem (hPop (msg_heap lt) h)"
proof -
  obtain m xs where h: "h = (m, xs)" by (cases h)
  have "xs \<noteq> []" using assms(2) by (simp add: h heap_view_def)
  then have "last xs \<in> A" using assms(1) by (auto simp: h heap_frame_def)
  then have "idx_only A mem (set_index m (last xs) (-1))"
    using assms(1) by (auto simp: h heap_frame_def intro: idx_only_trans idx_only_set_index)
  moreover have "set (butlast xs) \<subseteq> A"
    using assms(1) by (auto simp: h heap_frame_def dest: in_set_butlastD)
  ultimately show ?thesis
    by (simp add: h popped_def heap_frame_def msg_heap_def items_Pop_def set_index_def)
qed

lemma Pop_ok:
  assumes "heap_ok lt mem xs" and "xs \<noteq> []"
    and "heap_Pop (msg_heap lt) (mem, xs) = ((mem', xs'), p)"
  shows "heap_ok lt mem' xs'" and "p = hd xs" and "mset xs = add_mset p (mset xs')"
    and "idx_only (set xs) mem mem'" and "m_index (mem' p) = -1"
proof -
  have g: "indexed (fst (mem, xs)) (snd (mem, xs))" and ne: "heap_view (mem, xs) \<noteq> []"
    using assms(1,2) by (simp_all add: heap_ok_def heap_view_def)
  have h: "is_heap (key_less lt) (heap_view (mem, xs))"
    using assms(1) by (simp add: heap_ok_def is_heap_view)
  note P = Pop_correct [OF g h ne assms(3)]
  then show "heap_ok lt mem' xs'" by (simp add: heap_ok_def is_heap_view)
  show "p = hd xs" using P assms(2) by (simp add: heap_view_def hd_conv_nth)
  have "image_mset fst (mset (heap_view (mem, xs)))
      = image_mset fst (add_mset (p, strip (mem' p)) (mset (heap_view (mem', xs'))))"
    using P by simp
  then show "mset xs = add_mset p (mset xs')" by (simp add: mset_items)
  have "popped (set xs) mem (heap_Pop (msg_heap lt) (mem, xs))"
    by (rule Pop_invariant [where P = "heap_frame (set xs) mem" and Q = "popped (set xs) mem",
          OF swap_frame g ne _ pop_frame]) (simp_all add: heap_frame_def)
  then show "idx_only (set xs) mem mem'" and "m_index (mem' p) = -1"
    by (simp_all add: assms(3) popped_def heap_frame_def)
qed

lemma Remove_ok:
  assumes "heap_ok lt mem xs" and "i < length xs"
    and "heap_Remove (msg_heap lt) (mem, xs) i = ((mem', xs'), p)"
  shows "heap_ok lt mem' xs'" and "p = xs ! i" and "mset xs = add_mset p (mset xs')"
    and "idx_only (set xs) mem mem'" and "m_index (mem' p) = -1"
proof -
  have g: "indexed (fst (mem, xs)) (snd (mem, xs))" and i: "i < length (heap_view (mem, xs))"
    using assms(1,2) by (simp_all add: heap_ok_def heap_view_def)
  have h: "is_heap (key_less lt) (heap_view (mem, xs))"
    using assms(1) by (simp add: heap_ok_def is_heap_view)
  note P = Remove_correct [OF g h i assms(3)]
  then show "heap_ok lt mem' xs'" by (simp add: heap_ok_def is_heap_view)
  show "p = xs ! i" using P assms(2) by (simp add: heap_view_def)
  have "image_mset fst (mset (heap_view (mem, xs)))
      = image_mset fst (add_mset (p, strip (mem' p)) (mset (heap_view (mem', xs'))))"
    using P by simp
  then show "mset xs = add_mset p (mset xs')" by (simp add: mset_items)
  have "popped (set xs) mem (heap_Remove (msg_heap lt) (mem, xs) i)"
    by (rule Remove_invariant [where P = "heap_frame (set xs) mem" and Q = "popped (set xs) mem",
          OF swap_frame g i _ pop_frame]) (simp_all add: heap_frame_def)
  then show "idx_only (set xs) mem mem'" and "m_index (mem' p) = -1"
    by (simp_all add: assms(3) popped_def heap_frame_def)
qed

lemma Init_ok:
  assumes "indexed mem xs" and "heap_Init (msg_heap lt) (mem, xs) = (mem', xs')"
  shows "heap_ok lt mem' xs'" and "mset xs' = mset xs" and "idx_only (set xs) mem mem'"
proof -
  have g: "indexed (fst (mem, xs)) (snd (mem, xs))" using assms(1) by simp
  note P = Init_correct [OF g, unfolded assms(2)]
  then show "heap_ok lt mem' xs'" by (simp add: heap_ok_def is_heap_view)
  have "image_mset fst (mset (heap_view (mem', xs'))) = image_mset fst (mset (heap_view (mem, xs)))"
    using P by simp
  then show "mset xs' = mset xs" by (simp only: mset_items)
  have "heap_frame (set xs) mem (heap_Init (msg_heap lt) (mem, xs))"
    by (rule Init_invariant [where P = "heap_frame (set xs) mem", OF swap_frame g])
      (simp_all add: heap_frame_def)
  then show "idx_only (set xs) mem mem'" by (simp add: assms(2) heap_frame_def)
qed

lemma heap_ok_least:
  assumes "heap_ok lt mem xs" and "p \<in> set xs"
  shows "\<not> lt (mem p) (mem (hd xs))"
proof -
  obtain k where "k < length xs" "p = xs ! k" using assms(2) by (metis in_set_conv_nth)
  moreover have "is_heap (key_less lt) (heap_view (mem, xs))"
    using assms(1) by (simp add: heap_ok_def is_heap_view)
  moreover have "xs \<noteq> []" using assms(2) by auto
  ultimately show ?thesis
    using is_heap_min [of "heap_view (mem, xs)" k]
    by (simp add: heap_view_def key_less_def no_index hd_conv_nth)
qed

end

section \<open>The three comparators are such orders\<close>

lemma cfg_less_order:
  "cfg_less c (strip a) (strip b) = cfg_less c a b"
  by (simp add: strip_def)

lemma delayed_less_order:
  "delayed_less a b \<Longrightarrow> \<not> delayed_less b a"
  "\<not> delayed_less b a \<Longrightarrow> \<not> delayed_less c b \<Longrightarrow> \<not> delayed_less c a"
  "delayed_less (strip a) (strip b) = delayed_less a b"
  by (auto simp: delayed_less_def strip_def split: if_splits)

lemma lease_less_order:
  "lease_less a b \<Longrightarrow> \<not> lease_less b a"
  "\<not> lease_less b a \<Longrightarrow> \<not> lease_less c b \<Longrightarrow> \<not> lease_less c a"
  "lease_less (strip a) (strip b) = lease_less a b"
  by (auto simp: lease_less_def strip_def split: if_splits)

interpretation ready: message_order "cfg_less c" for c
  by (rule message_order.intro)
    (erule cfg_less_asym, erule (1) cfg_less_negtrans, rule cfg_less_order)

interpretation delayed: message_order delayed_less
  by (rule message_order.intro)
    (erule delayed_less_order(1), erule (1) delayed_less_order(2), rule delayed_less_order(3))

interpretation lease: message_order lease_less
  by (rule message_order.intro)
    (erule lease_less_order(1), erule (1) lease_less_order(2), rule lease_less_order(3))

end
