(* ===== verification/Crc32c.thy ===== *)
theory Crc32c
  imports Prelude
begin

text \<open>
  Package \<open>hash/crc32\<close> of the Go library with the Castagnoli table, which the log uses for its two
  checksums: the table is the reflected polynomial applied eight times to each byte, \<open>crc_Update\<close>
  is the table-driven update. The lemmas show that one update step is injective in the running
  value and in the byte, hence that changing any single byte of a message changes its checksum.
\<close>

unbundle bit_operations_syntax

section \<open>The checksum\<close>

definition castagnoli :: u32 where
  "castagnoli = 0x82f63b78"

definition crc_step :: "u32 \<Rightarrow> u32" where
  "crc_step c = (if bit c 0 then drop_bit 1 c XOR castagnoli else drop_bit 1 c)"

definition crc_table :: "byte \<Rightarrow> u32" where
  "crc_table i = (crc_step ^^ 8) (ucast i)"

definition crc_feed :: "u32 \<Rightarrow> byte \<Rightarrow> u32" where
  "crc_feed c v = crc_table (ucast c XOR v) XOR drop_bit 8 c"

definition crc_Update :: "u32 \<Rightarrow> byte list \<Rightarrow> u32" where
  "crc_Update crc p = NOT (foldl crc_feed (NOT crc) p)"

definition crc_Checksum :: "byte list \<Rightarrow> u32" where
  "crc_Checksum p = crc_Update 0 p"

section \<open>Linearity and injectivity\<close>

lemma xor_left_cancel: "c XOR v = c XOR w \<longleftrightarrow> v = (w :: 'a::len word)"
proof
  assume "c XOR v = c XOR w"
  then have "(c XOR c) XOR v = (c XOR c) XOR w" by (simp only: xor.assoc)
  then show "v = w" by simp
qed simp

lemma xor_right_cancel: "v XOR c = w XOR c \<longleftrightarrow> v = (w :: 'a::len word)"
  by (simp only: xor.commute [of _ c] xor_left_cancel)

lemma crc_step_xor: "crc_step (a XOR b) = crc_step a XOR crc_step b"
proof -
  have "drop_bit 1 (a XOR b) = drop_bit 1 a XOR drop_bit 1 b" by (rule drop_bit_xor)
  then show ?thesis
    by (auto simp: crc_step_def bit_xor_iff xor.assoc xor.left_commute xor.commute)
qed

lemma crc_steps_xor: "(crc_step ^^ n) (a XOR b) = (crc_step ^^ n) a XOR (crc_step ^^ n) b"
  by (induction n) (simp_all add: crc_step_xor)

lemma crc_step_eq_0: "crc_step a = 0 \<Longrightarrow> a = 0"
proof -
  assume a: "crc_step a = 0"
  have no31: "\<not> bit (drop_bit 1 a) 31"
    using bit_imp_le_length [of a 32] by (auto simp: bit_simps)
  have poly31: "bit castagnoli 31" by (simp add: castagnoli_def bit_numeral_word_iff)
  have b0: "\<not> bit a 0"
  proof
    assume "bit a 0"
    with a have "drop_bit 1 a XOR castagnoli = castagnoli XOR castagnoli" by (simp add: crc_step_def)
    then have "drop_bit 1 a = castagnoli" by (simp only: xor_right_cancel)
    with no31 poly31 show False by simp
  qed
  with a have "drop_bit 1 a = 0" by (simp add: crc_step_def)
  then have *: "bit (drop_bit 1 a) n = bit (0 :: u32) n" for n by simp
  have "\<not> bit a n" for n
    using b0 * [of "n - 1"] by (cases n) (simp_all add: bit_simps)
  then show "a = 0" by (intro bit_word_eqI) simp
qed

lemma crc_step_inj: "crc_step a = crc_step b \<Longrightarrow> a = b"
proof -
  assume "crc_step a = crc_step b"
  then have "crc_step (a XOR b) = 0" by (simp add: crc_step_xor)
  then have "a XOR b = b XOR b" by (simp add: crc_step_eq_0)
  then show "a = b" by (simp only: xor_right_cancel)
qed

lemma crc_steps_inj: "(crc_step ^^ n) a = (crc_step ^^ n) b \<Longrightarrow> a = b"
  by (induction n) (auto dest: crc_step_inj)

text \<open>Without low bits, the steps only shift.\<close>

lemma crc_steps_shift: "(\<And>i. i < n \<Longrightarrow> \<not> bit x i) \<Longrightarrow> (crc_step ^^ n) x = drop_bit n x"
proof (induction n)
  case (Suc n)
  then have "(crc_step ^^ n) x = drop_bit n x" by simp
  moreover have "\<not> bit (drop_bit n x) 0" using Suc.prems [of n] by (simp add: bit_simps)
  ultimately show ?case by (simp add: crc_step_def [of "drop_bit n x"])
qed simp

lemma crc_feed_steps: "crc_feed c v = (crc_step ^^ 8) (c XOR ucast v)"
proof -
  let ?hi = "push_bit 8 (drop_bit 8 c)"
  have "c XOR ucast v = ucast (ucast c XOR v :: byte) XOR ?hi"
    by (rule bit_word_eqI) (auto simp: bit_simps)
  then have "(crc_step ^^ 8) (c XOR ucast v) = crc_table (ucast c XOR v) XOR (crc_step ^^ 8) ?hi"
    by (simp only: crc_steps_xor crc_table_def)
  also have "(crc_step ^^ 8) ?hi = drop_bit 8 ?hi"
    by (rule crc_steps_shift) (simp add: bit_simps)
  also have "drop_bit 8 ?hi = drop_bit 8 c"
    by (rule bit_word_eqI) (auto simp: bit_simps dest: bit_imp_le_length)
  finally show ?thesis by (simp add: crc_feed_def)
qed

lemma crc_feed_inj_crc: "crc_feed a v = crc_feed b v \<Longrightarrow> a = b"
  unfolding crc_feed_steps
  by (drule crc_steps_inj) (simp only: xor_right_cancel)

lemma crc_feed_inj_byte: "crc_feed c v = crc_feed c w \<Longrightarrow> v = w"
proof -
  assume "crc_feed c v = crc_feed c w"
  then have "c XOR ucast v = c XOR ucast w" unfolding crc_feed_steps by (rule crc_steps_inj)
  then have "(ucast v :: u32) = ucast w" by (simp only: xor_left_cancel)
  then have *: "bit (ucast v :: u32) n = bit (ucast w :: u32) n" for n by simp
  show "v = w"
  proof (rule bit_word_eqI)
    fix n assume "n < LENGTH(8)"
    then show "bit v n = bit w n" using * [of n] by (simp add: bit_ucast_iff)
  qed
qed

lemma foldl_feed_inj: "foldl crc_feed a p = foldl crc_feed b p \<Longrightarrow> a = b"
  by (induction p arbitrary: a b) (auto dest: crc_feed_inj_crc)

lemma crc_Update_append: "crc_Update (crc_Update c p) q = crc_Update c (p @ q)"
  by (simp add: crc_Update_def)

lemma crc_Update_single_byte:
  assumes "i < length p" and "p ! i \<noteq> b"
  shows "crc_Update c (p[i := b]) \<noteq> crc_Update c p"
proof
  assume eq: "crc_Update c (p[i := b]) = crc_Update c p"
  have "p = take i p @ p ! i # drop (Suc i) p" using assms(1) by (simp add: id_take_nth_drop)
  moreover have "p[i := b] = take i p @ b # drop (Suc i) p" using assms(1) by (simp add: upd_conv_take_nth_drop)
  ultimately have "foldl crc_feed (NOT c) (take i p @ b # drop (Suc i) p)
      = foldl crc_feed (NOT c) (take i p @ p ! i # drop (Suc i) p)"
    using eq by (metis crc_Update_def bit.double_compl)
  then have "crc_feed (foldl crc_feed (NOT c) (take i p)) b
      = crc_feed (foldl crc_feed (NOT c) (take i p)) (p ! i)"
    by (simp add: foldl_feed_inj)
  then show False using crc_feed_inj_byte assms(2) by blast
qed

end
