(* ===== verification/Wal_Record.thy ===== *)
theory Wal_Record
  imports Crc32c
begin

text \<open>
  \<open>internal/wal/record.go\<close>: the record types and the framing
  \<open>[4B length][1B type][4B header crc][4B record crc][payload]\<close>. \<open>encode_all\<close> is the contents of a
  log that holds the given records, what a run of \<open>Append\<close>s writes.
\<close>

section \<open>Record types\<close>

type_synonym rtype = byte

definition TypeMeta :: rtype where "TypeMeta = 1"
definition TypeEnqueue :: rtype where "TypeEnqueue = 2"
definition TypeAck :: rtype where "TypeAck = 3"
definition TypeNack :: rtype where "TypeNack = 4"
definition TypeLeaseExpire :: rtype where "TypeLeaseExpire = 5"
definition TypeDedup :: rtype where "TypeDedup = 6"

lemmas rtype_defs = TypeMeta_def TypeEnqueue_def TypeAck_def TypeNack_def TypeLeaseExpire_def
  TypeDedup_def

definition Type_String :: "rtype \<Rightarrow> string" where
  "Type_String t =
     (if t = TypeMeta then ''META''
      else if t = TypeEnqueue then ''ENQUEUE''
      else if t = TypeAck then ''ACK''
      else if t = TypeNack then ''NACK''
      else if t = TypeLeaseExpire then ''LEASE_EXPIRE''
      else if t = TypeDedup then ''DEDUP''
      else ''UNKNOWN'')"

definition Type_valid :: "rtype \<Rightarrow> bool" where
  "Type_valid t \<longleftrightarrow> TypeMeta \<le> t \<and> t \<le> TypeDedup"

lemma Type_valid_consts [simp]:
  "Type_valid TypeMeta" "Type_valid TypeEnqueue" "Type_valid TypeAck" "Type_valid TypeNack"
  "Type_valid TypeLeaseExpire" "Type_valid TypeDedup"
  by (simp_all add: Type_valid_def rtype_defs)

section \<open>Framing\<close>

definition HeaderSize :: nat where "HeaderSize = 13"
definition MaxRecordSize :: nat where "MaxRecordSize = 67108864"

record wal_record =
  r_Type :: rtype
  r_Payload :: "byte list"
  r_Offset :: nat

definition EncodedLen :: "byte list \<Rightarrow> nat" where
  "EncodedLen payload = HeaderSize + length payload"

definition headerChecksum :: "byte list \<Rightarrow> u32" where
  "headerChecksum hdr = crc_Checksum (take 5 hdr)"

definition recordChecksum :: "byte list \<Rightarrow> byte list \<Rightarrow> u32" where
  "recordChecksum hdr payload = crc_Update (crc_Update 0 (take 5 hdr)) payload"

text \<open>The header is filled field by field, each checksum over what is already there.\<close>

definition Encode :: "byte list \<Rightarrow> rtype \<Rightarrow> byte list \<Rightarrow> byte list" where
  "Encode dst t payload =
     (let hdr = le_bytes 4 (of_nat (length payload) :: u32) @ [t];
          hdr = hdr @ le_bytes 4 (headerChecksum hdr);
          hdr = hdr @ le_bytes 4 (recordChecksum hdr payload)
      in dst @ hdr @ payload)"

section \<open>Lemmas\<close>

type_synonym entry = "rtype \<times> byte list"

definition frame_fields :: "rtype \<Rightarrow> byte list \<Rightarrow> byte list" where
  "frame_fields t payload = le_bytes 4 (of_nat (length payload) :: u32) @ [t]"

definition frame_header :: "rtype \<Rightarrow> byte list \<Rightarrow> byte list" where
  "frame_header t payload =
     frame_fields t payload @ le_bytes 4 (crc_Checksum (frame_fields t payload)) @
     le_bytes 4 (crc_Update 0 (frame_fields t payload @ payload))"

lemma length_frame_fields [simp]: "length (frame_fields t p) = 5"
  by (simp add: frame_fields_def)

lemma length_frame_header [simp]: "length (frame_header t p) = 13"
  by (simp add: frame_header_def)

lemma Encode_frame: "Encode dst t p = dst @ frame_header t p @ p"
  by (simp add: Encode_def Let_def frame_header_def frame_fields_def headerChecksum_def
      recordChecksum_def crc_Update_append)

lemma length_Encode [simp]: "length (Encode dst t p) = length dst + EncodedLen p"
  by (simp add: Encode_frame EncodedLen_def HeaderSize_def)

definition wf_entry :: "entry \<Rightarrow> bool" where
  "wf_entry e \<longleftrightarrow> Type_valid (fst e) \<and> length (snd e) \<le> MaxRecordSize"

definition encode_all :: "entry list \<Rightarrow> byte list" where
  "encode_all es = foldl (\<lambda>buf e. Encode buf (fst e) (snd e)) [] es"

lemma encode_all_Nil [simp]: "encode_all [] = []"
  by (simp add: encode_all_def)

lemma encode_all_snoc [simp]: "encode_all (es @ [e]) = encode_all es @ Encode [] (fst e) (snd e)"
  by (simp add: encode_all_def Encode_frame)

lemma encode_all_append: "encode_all (xs @ ys) = encode_all xs @ encode_all ys"
proof (induction ys rule: rev_induct)
  case (snoc y ys)
  have "encode_all (xs @ ys @ [y]) = encode_all (xs @ ys) @ Encode [] (fst y) (snd y)"
    using encode_all_snoc [of "xs @ ys" y] by simp
  with snoc show ?case by simp
qed simp

lemma encode_all_Cons: "encode_all (e # es) = Encode [] (fst e) (snd e) @ encode_all es"
  using encode_all_append [of "[e]" es] encode_all_snoc [of "[]" e] by simp

text \<open>Reading the fields of a frame back.\<close>

lemma frame_header_fields:
  assumes "length p < 2 ^ 32"
  shows "unat (le_word (take 4 (frame_header t p)) :: u32) = length p"
    and "frame_header t p ! 4 = t"
    and "take 5 (frame_header t p) = frame_fields t p"
    and "le_word (take 4 (drop 5 (frame_header t p))) = crc_Checksum (frame_fields t p)"
    and "le_word (drop 9 (frame_header t p)) = crc_Update 0 (frame_fields t p @ p)"
proof -
  have "unat (of_nat (length p) :: u32) = length p" using assms by (simp add: unat_of_nat)
  then show "unat (le_word (take 4 (frame_header t p)) :: u32) = length p"
    by (simp add: frame_header_def frame_fields_def)
  show "frame_header t p ! 4 = t"
    by (simp add: frame_header_def frame_fields_def nth_append)
  show "take 5 (frame_header t p) = frame_fields t p" by (simp add: frame_header_def)
  show "le_word (take 4 (drop 5 (frame_header t p))) = crc_Checksum (frame_fields t p)"
    and "le_word (drop 9 (frame_header t p)) = crc_Update 0 (frame_fields t p @ p)"
    by (simp_all add: frame_header_def)
qed

end
