(* ===== verification/Wal_Replay.thy ===== *)
theory Wal_Replay
  imports Wal_Record
begin

text \<open>
  \<open>internal/wal/replay.go\<close>, the reader: \<open>Replay\<close> hands every record of a log to a callback, stops
  at a torn tail and refuses anything it cannot trust. The callback's closure state is threaded
  through; \<open>io\<close> says at which file positions a read fails, so that the two read-error returns are
  branches of the model.
\<close>

section \<open>Reading a log\<close>

record torn_tail =
  t_Offset :: nat
  t_Bytes :: nat

record replay_result =
  v_ValidBytes :: nat
  v_Records :: nat
  v_Torn :: "torn_tail option"

text \<open>What \<open>os.Open\<close> and \<open>f.Stat\<close> find at a path.\<close>

datatype opened =
    NotExist
  | OpenError go_error
  | Opened "byte list" "nat \<Rightarrow> go_error option"

definition empty_result :: replay_result where
  "empty_result = \<lparr>v_ValidBytes = 0, v_Records = 0, v_Torn = None\<rparr>"

text \<open>One turn of the loop up to the callback: what is found at offset \<open>off\<close>.\<close>

datatype found =
    CleanEnd
  | TornAt torn_tail
  | Failed go_error
  | Found wal_record

definition read_record :: "string \<Rightarrow> byte list \<Rightarrow> (nat \<Rightarrow> go_error option) \<Rightarrow> nat \<Rightarrow> found" where
  "read_record path data io off =
     (let remaining = length data - off
      in if remaining = 0 then CleanEnd
      else if remaining < HeaderSize then TornAt \<lparr>t_Offset = off, t_Bytes = remaining\<rparr>
      else case io off of Some e \<Rightarrow> Failed (Wrapped ''wal: reading header'' e) | None \<Rightarrow>
     (let hdr = take HeaderSize (drop off data);
          len = unat (le_word (take 4 hdr) :: u32);
          wantHeader = le_word (take 4 (drop 5 hdr)) :: u32;
          wantRecord = le_word (take 4 (drop 9 hdr)) :: u32;
          gotHeader = headerChecksum hdr
      in if gotHeader \<noteq> wantHeader
         then Failed (CorruptionError path off (HeaderChecksum wantHeader gotHeader))
      else if len > MaxRecordSize then Failed (CorruptionError path off (LengthExceeds len))
      else if len > remaining - HeaderSize then TornAt \<lparr>t_Offset = off, t_Bytes = remaining\<rparr>
      else case io (off + HeaderSize) of Some e \<Rightarrow> Failed (Wrapped ''wal: reading payload'' e)
      | None \<Rightarrow>
     (let payload = take len (drop (off + HeaderSize) data);
          got = recordChecksum hdr payload; t = hdr ! 4
      in if got \<noteq> wantRecord
         then Failed (CorruptionError path off (RecordChecksum wantRecord got len))
      else if \<not> Type_valid t then Failed (CorruptionError path off (UnknownType t))
      else Found \<lparr>r_Type = t, r_Payload = payload, r_Offset = off\<rparr>)))"

lemma read_record_Found_size:
  "read_record path data io off = Found r \<Longrightarrow> off < length data"
  by (auto simp: read_record_def Let_def HeaderSize_def split: if_splits option.splits)

function replay_loop ::
  "string \<Rightarrow> byte list \<Rightarrow> (nat \<Rightarrow> go_error option) \<Rightarrow> ('s \<Rightarrow> wal_record \<Rightarrow> go_error + 's) \<Rightarrow>
   nat \<Rightarrow> replay_result \<Rightarrow> 's \<Rightarrow> replay_result \<times> 's \<times> go_error option" where
  "replay_loop path data io fn off res s =
     (case read_record path data io off of
        CleanEnd \<Rightarrow> (res\<lparr>v_ValidBytes := off\<rparr>, s, None)
      | TornAt t \<Rightarrow> (res\<lparr>v_ValidBytes := off, v_Torn := Some t\<rparr>, s, None)
      | Failed e \<Rightarrow> (res, s, Some e)
      | Found r \<Rightarrow>
          (case fn s r of
             Inl e \<Rightarrow> (res, s, Some (Wrapped ''wal: applying record'' e))
           | Inr s' \<Rightarrow>
               replay_loop path data io fn (off + (HeaderSize + length (r_Payload r)))
                 (res\<lparr>v_Records := v_Records res + 1\<rparr>) s'))"
  by pat_completeness auto
termination
  by (relation "measure (\<lambda>(path, data, io, fn, off, res, s). length data - off)")
    (auto dest: read_record_Found_size simp: HeaderSize_def)

declare replay_loop.simps [simp del]

definition Replay ::
  "string \<Rightarrow> opened \<Rightarrow> ('s \<Rightarrow> wal_record \<Rightarrow> go_error + 's) \<Rightarrow> 's \<Rightarrow>
   replay_result \<times> 's \<times> go_error option" where
  "Replay path f fn s =
     (case f of
        NotExist \<Rightarrow> (empty_result, s, None)
      | OpenError e \<Rightarrow> (empty_result, s, Some e)
      | Opened data io \<Rightarrow> replay_loop path data io fn 0 empty_result s)"

section \<open>What the reader finds in a log the writer wrote\<close>

abbreviation no_io :: "nat \<Rightarrow> go_error option" where
  "no_io \<equiv> (\<lambda>_. None)"

lemma MaxRecordSize_u32: "n \<le> MaxRecordSize \<Longrightarrow> n < 2 ^ 32"
  by (simp add: MaxRecordSize_def)

lemma read_record_Encode:
  assumes "wf_entry (t, p)"
  shows "read_record path (pre @ Encode [] t p @ rest) no_io (length pre)
     = Found \<lparr>r_Type = t, r_Payload = p, r_Offset = length pre\<rparr>"
proof -
  let ?data = "pre @ Encode [] t p @ rest"
  have hdr: "take HeaderSize (drop (length pre) ?data) = frame_header t p"
    by (simp add: Encode_frame HeaderSize_def)
  have pay: "drop (length pre + HeaderSize) ?data = p @ rest"
    by (simp add: Encode_frame HeaderSize_def)
  have len: "length p \<le> MaxRecordSize" using assms by (simp add: wf_entry_def)
  note F = frame_header_fields [OF MaxRecordSize_u32 [OF len]]
  show ?thesis
    using assms len unfolding read_record_def Let_def hdr pay
    by (simp add: F headerChecksum_def recordChecksum_def crc_Update_append wf_entry_def
        EncodedLen_def HeaderSize_def)
qed

text \<open>
  Feeding the callback the records of a log: the specification of a replay that meets no damage.
\<close>

fun feed :: "('s \<Rightarrow> wal_record \<Rightarrow> go_error + 's) \<Rightarrow> nat \<Rightarrow> entry list \<Rightarrow> 's \<Rightarrow> go_error + 's" where
  "feed fn off [] s = Inr s"
| "feed fn off ((t, p) # es) s =
     bindE (fn s \<lparr>r_Type = t, r_Payload = p, r_Offset = off\<rparr>)
       (feed fn (off + EncodedLen p) es)"

lemma feed_append:
  "feed fn off (xs @ ys) s
     = bindE (feed fn off xs s) (feed fn (off + length (encode_all xs)) ys)"
proof (induction xs arbitrary: off s)
  case (Cons x xs)
  obtain t p where x: "x = (t, p)" by (cases x)
  show ?case
    by (cases "fn s \<lparr>r_Type = t, r_Payload = p, r_Offset = off\<rparr>")
      (simp_all add: x Cons encode_all_Cons add.assoc)
qed simp

lemma replay_loop_Encode:
  assumes "wf_entry (t, p)"
  shows "replay_loop path (pre @ Encode [] t p @ rest) no_io fn (length pre) res s
    = (case fn s \<lparr>r_Type = t, r_Payload = p, r_Offset = length pre\<rparr> of
         Inl e \<Rightarrow> (res, s, Some (Wrapped ''wal: applying record'' e))
       | Inr s' \<Rightarrow> replay_loop path (pre @ Encode [] t p @ rest) no_io fn
           (length pre + EncodedLen p) (res\<lparr>v_Records := v_Records res + 1\<rparr>) s')"
  by (subst replay_loop.simps) (simp add: read_record_Encode [OF assms] EncodedLen_def split: sum.split)

lemma replay_loop_encode_all:
  assumes "list_all wf_entry es" and "feed fn (length pre) es s = Inr s'"
  shows "replay_loop path (pre @ encode_all es @ rest) no_io fn (length pre) res s
    = replay_loop path (pre @ encode_all es @ rest) no_io fn (length pre + length (encode_all es))
        (res\<lparr>v_Records := v_Records res + length es\<rparr>) s'"
  using assms
proof (induction es arbitrary: pre res s)
  case (Cons x es)
  obtain t p where x: "x = (t, p)" by (cases x)
  from Cons.prems x obtain s1 where
    s1: "fn s \<lparr>r_Type = t, r_Payload = p, r_Offset = length pre\<rparr> = Inr s1"
    and fd: "feed fn (length (pre @ Encode [] t p)) es s1 = Inr s'"
    by (auto simp: bindE_eq_Inr)
  have "replay_loop path ((pre @ Encode [] t p) @ encode_all es @ rest) no_io fn
      (length (pre @ Encode [] t p)) (res\<lparr>v_Records := v_Records res + 1\<rparr>) s1
    = replay_loop path ((pre @ Encode [] t p) @ encode_all es @ rest) no_io fn
      (length (pre @ Encode [] t p) + length (encode_all es))
      (res\<lparr>v_Records := v_Records res + 1, v_Records := v_Records res + 1 + length es\<rparr>) s'"
    using Cons.IH [OF _ fd, of "res\<lparr>v_Records := v_Records res + 1\<rparr>"] Cons.prems by simp
  moreover have "wf_entry (t, p)" using Cons.prems x by simp
  ultimately show ?case
    using replay_loop_Encode [of t p path pre "encode_all es @ rest" fn res s] s1
    by (simp add: x encode_all_Cons add.assoc)
qed simp

text \<open>A log that ends on a record boundary, and a log that ends inside a record.\<close>

lemma replay_loop_clean:
  "replay_loop path data no_io fn (length data) res s = (res\<lparr>v_ValidBytes := length data\<rparr>, s, None)"
  by (subst replay_loop.simps) (simp add: read_record_def)

lemma replay_complete:
  assumes "list_all wf_entry es" and "feed fn 0 es s = Inr s'"
  shows "Replay path (Opened (encode_all es) no_io) fn s
    = (\<lparr>v_ValidBytes = length (encode_all es), v_Records = length es, v_Torn = None\<rparr>, s', None)"
  using replay_loop_encode_all [of es fn "[]" s s' path "[]" empty_result] assms
  by (simp add: Replay_def empty_result_def replay_loop_clean)

lemma read_record_torn:
  assumes "wf_entry (t, p)" and "0 < n" and "n < EncodedLen p"
  shows "read_record path (pre @ take n (Encode [] t p)) no_io (length pre)
    = TornAt \<lparr>t_Offset = length pre, t_Bytes = n\<rparr>"
proof (cases "n < HeaderSize")
  case True
  then show ?thesis using assms by (simp add: read_record_def)
next
  case False
  have hdr: "take HeaderSize (drop (length pre) (pre @ take n (Encode [] t p))) = frame_header t p"
    using False by (simp add: Encode_frame HeaderSize_def min_def)
  have rem: "length (pre @ take n (Encode [] t p)) - length pre = n"
    using assms(3) by simp
  have len: "length p \<le> MaxRecordSize" using assms by (simp add: wf_entry_def)
  note F = frame_header_fields [OF MaxRecordSize_u32 [OF len]]
  have "n - HeaderSize < length p" using False assms(3) by (simp add: EncodedLen_def)
  then show ?thesis
    using assms(2) len False unfolding read_record_def Let_def hdr rem
    by (simp add: F headerChecksum_def)
qed

lemma replay_torn:
  assumes "list_all wf_entry es" and "feed fn 0 es s = Inr s'"
    and "wf_entry (t, p)" and "0 < n" and "n < EncodedLen p"
  shows "Replay path (Opened (encode_all es @ take n (Encode [] t p)) no_io) fn s
    = (\<lparr>v_ValidBytes = length (encode_all es), v_Records = length es,
        v_Torn = Some \<lparr>t_Offset = length (encode_all es), t_Bytes = n\<rparr>\<rparr>, s', None)"
proof -
  let ?data = "encode_all es @ take n (Encode [] t p)"
  have "replay_loop path ?data no_io fn (length (encode_all es)) res s'
      = (res\<lparr>v_ValidBytes := length (encode_all es),
            v_Torn := Some \<lparr>t_Offset = length (encode_all es), t_Bytes = n\<rparr>\<rparr>, s', None)" for res
    by (subst replay_loop.simps) (simp add: read_record_torn [OF assms(3-5)])
  then show ?thesis
    using replay_loop_encode_all [of es fn "[]" s s' path "take n (Encode [] t p)" empty_result] assms
    by (simp add: Replay_def empty_result_def)
qed

text \<open>Every cut through a log leaves whole records and at most one torn one.\<close>

lemma encode_all_take:
  "n \<le> length (encode_all es) \<Longrightarrow>
   \<exists>es1 rest. es = es1 @ rest \<and>
     (n = length (encode_all es1) \<or>
      (\<exists>t p rest' m. rest = (t, p) # rest' \<and> 0 < m \<and> m < EncodedLen p \<and>
         n = length (encode_all es1) + m))"
proof (induction es arbitrary: n)
  case (Cons e es)
  obtain t p where e: "e = (t, p)" by (cases e)
  show ?case
  proof (cases "n < EncodedLen p")
    case True
    show ?thesis
      by (rule exI [of _ "[]"], rule exI [of _ "e # es"])
        (use True in \<open>cases "n = 0", auto simp: e\<close>)
  next
    case False
    then have "n - EncodedLen p \<le> length (encode_all es)"
      using Cons.prems by (simp add: e encode_all_Cons)
    from Cons.IH [OF this] obtain es1 rest where
      es: "es = es1 @ rest" and *: "n - EncodedLen p = length (encode_all es1) \<or>
      (\<exists>t p' rest' m. rest = (t, p') # rest' \<and> 0 < m \<and> m < EncodedLen p' \<and>
         n - EncodedLen p = length (encode_all es1) + m)" by blast
    define k where "k = n - EncodedLen p"
    have n: "n = EncodedLen p + k" using False by (simp add: k_def)
    show ?thesis
      by (rule exI [of _ "e # es1"], rule exI [of _ rest])
        (use n es * in \<open>auto simp: e encode_all_Cons k_def [symmetric]\<close>)
  qed
qed simp

section \<open>Damage\<close>

text \<open>One changed byte of a frame header, by the field it falls into.\<close>

lemma list_update_neq: "i < length xs \<Longrightarrow> xs ! i \<noteq> b \<Longrightarrow> xs[i := b] \<noteq> xs"
  by (metis nth_list_update_eq)

lemma le_word_update_neq:
  assumes "i < length xs" and "xs ! i \<noteq> b" and "length xs = 4"
  shows "le_word (xs[i := b]) \<noteq> (le_word xs :: u32)"
  using le_word_inj [of "xs[i := b]" xs, where 'a = 32] list_update_neq [OF assms(1,2)] assms(3)
  by auto

lemma damaged_fields:
  assumes "length p < 2 ^ 32" and "i < 5" and "frame_header t p ! i \<noteq> b"
  shows "headerChecksum ((frame_header t p)[i := b])
    \<noteq> le_word (take 4 (drop 5 ((frame_header t p)[i := b])))"
proof -
  note F = frame_header_fields [OF assms(1)]
  have "frame_fields t p ! i \<noteq> b"
    using assms(2,3) F(3) [of t] by (metis nth_take)
  then have "crc_Update 0 ((frame_fields t p)[i := b]) \<noteq> crc_Update 0 (frame_fields t p)"
    using assms(2) by (intro crc_Update_single_byte) simp_all
  then show ?thesis
    using assms(2) F(3,4) [of t]
    by (simp add: headerChecksum_def crc_Checksum_def take_update_swap)
qed

lemma damaged_header_crc:
  assumes "length p < 2 ^ 32" and "5 \<le> i" and "i < 9" and "frame_header t p ! i \<noteq> b"
  shows "headerChecksum ((frame_header t p)[i := b])
    \<noteq> le_word (take 4 (drop 5 ((frame_header t p)[i := b])))"
proof -
  note F = frame_header_fields [OF assms(1)]
  let ?c = "take 4 (drop 5 (frame_header t p))"
  have "le_word (?c[i - 5 := b]) \<noteq> (le_word ?c :: u32)"
    using assms(2-4) by (intro le_word_update_neq) simp_all
  moreover have "take 4 (drop 5 ((frame_header t p)[i := b])) = ?c[i - 5 := b]"
    using assms(2) by (simp add: drop_update_swap take_update_swap)
  ultimately show ?thesis
    using assms(2) F(3,4) [of t] by (simp add: headerChecksum_def)
qed

lemma damaged_record_crc:
  assumes "length p < 2 ^ 32" and "9 \<le> i" and "i < 13" and "frame_header t p ! i \<noteq> b"
  shows "le_word (drop 9 ((frame_header t p)[i := b])) \<noteq> crc_Update 0 (frame_fields t p @ p)"
proof -
  let ?c = "drop 9 (frame_header t p)"
  have "le_word (?c[i - 9 := b]) \<noteq> (le_word ?c :: u32)"
    using assms(2-4) by (intro le_word_update_neq) simp_all
  then show ?thesis
    using assms(2) frame_header_fields(5) [OF assms(1), of t] by (simp add: drop_update_swap)
qed

lemma damaged_payload:
  assumes "j < length p" and "p ! j \<noteq> b"
  shows "crc_Update 0 (frame_fields t p @ p[j := b]) \<noteq> crc_Update 0 (frame_fields t p @ p)"
proof -
  have "crc_Update 0 ((frame_fields t p @ p)[5 + j := b]) \<noteq> crc_Update 0 (frame_fields t p @ p)"
    using assms by (intro crc_Update_single_byte) (simp_all add: nth_append)
  then show ?thesis by (simp add: list_update_append)
qed

text \<open>A complete record with any one byte changed is refused at its own offset.\<close>

lemma read_record_bad_header:
  assumes "length hdr = 13" and "headerChecksum hdr \<noteq> le_word (take 4 (drop 5 hdr))"
  shows "\<exists>reason. read_record path (pre @ hdr @ rest) no_io (length pre)
    = Failed (CorruptionError path (length pre) reason)"
proof -
  have "take HeaderSize (drop (length pre) (pre @ hdr @ rest)) = hdr"
    using assms(1) by (simp add: HeaderSize_def)
  then show ?thesis
    using assms by (simp add: read_record_def HeaderSize_def)
qed

lemma read_record_bad_record:
  assumes "length hdr = 13" and "take 9 hdr = take 9 (frame_header t p)"
    and "length q = length p" and "length p \<le> MaxRecordSize"
    and "crc_Update 0 (frame_fields t p @ q) \<noteq> le_word (drop 9 hdr)"
  shows "\<exists>reason. read_record path (pre @ (hdr @ q) @ rest) no_io (length pre)
    = Failed (CorruptionError path (length pre) reason)"
proof -
  let ?data = "pre @ (hdr @ q) @ rest"
  note F = frame_header_fields [OF MaxRecordSize_u32 [OF assms(4)]]
  have hdr: "take HeaderSize (drop (length pre) ?data) = hdr"
    and pay: "drop (length pre + HeaderSize) ?data = q @ rest"
    and rem: "length ?data - length pre = HeaderSize + length p + length rest"
    using assms(1,3) by (simp_all add: HeaderSize_def)
  have t9: "take k hdr = take k (frame_header t p)" if "k \<le> 9" for k
    using arg_cong [OF assms(2), of "take k"] that by (simp add: min_def)
  have "take 4 (drop 5 hdr) = drop 5 (take 9 hdr)"
    "take 4 (drop 5 (frame_header t p)) = drop 5 (take 9 (frame_header t p))"
    by (simp_all add: drop_take)
  then have d5: "take 4 (drop 5 hdr) = take 4 (drop 5 (frame_header t p))"
    using assms(2) by simp
  show ?thesis
    using assms unfolding read_record_def Let_def hdr rem pay
    by (simp add: t9 d5 F headerChecksum_def recordChecksum_def crc_Update_append HeaderSize_def)
qed

lemma read_record_damaged:
  assumes wf: "wf_entry (t, p)" and i: "i < EncodedLen p" and b: "Encode [] t p ! i \<noteq> b"
  shows "\<exists>reason. read_record path (pre @ (Encode [] t p)[i := b] @ rest) no_io (length pre)
    = Failed (CorruptionError path (length pre) reason)"
proof -
  have len: "length p \<le> MaxRecordSize" using wf by (simp add: wf_entry_def)
  note u32 = MaxRecordSize_u32 [OF len]
  consider "i < 9" | "9 \<le> i" "i < 13" | "13 \<le> i" by linarith
  then show ?thesis
  proof cases
    case 1
    have "headerChecksum ((frame_header t p)[i := b])
        \<noteq> le_word (take 4 (drop 5 ((frame_header t p)[i := b])))"
      using 1 b damaged_fields [OF u32] damaged_header_crc [OF u32]
      by (cases "i < 5") (simp_all add: Encode_frame nth_append)
    from read_record_bad_header [OF _ this, of path pre "p @ rest"] 1 show ?thesis
      by (simp add: Encode_frame list_update_append)
  next
    case 2
    have "le_word (drop 9 ((frame_header t p)[i := b])) \<noteq> crc_Update 0 (frame_fields t p @ p)"
      using 2 b by (intro damaged_record_crc [OF u32]) (simp_all add: Encode_frame nth_append)
    from read_record_bad_record [of "(frame_header t p)[i := b]" t p p path pre rest] this 2 len
    show ?thesis by (simp add: Encode_frame list_update_append)
  next
    case 3
    have "crc_Update 0 (frame_fields t p @ p[i - 13 := b]) \<noteq> crc_Update 0 (frame_fields t p @ p)"
      using 3 b i
      by (intro damaged_payload) (simp_all add: Encode_frame nth_append EncodedLen_def HeaderSize_def)
    from read_record_bad_record [of "frame_header t p" t p "p[i - 13 := b]" path pre rest] this 3 len
      frame_header_fields(5) [OF u32, of t]
    show ?thesis by (simp add: Encode_frame list_update_append)
  qed
qed

lemma replay_damaged:
  assumes wf: "list_all wf_entry es" and es: "es = es1 @ (t, p) # es2"
    and fd: "feed fn 0 es1 s = Inr s'"
    and i: "i < EncodedLen p" "Encode [] t p ! i \<noteq> b"
  shows "\<exists>reason. Replay path
      (Opened ((encode_all es)[length (encode_all es1) + i := b]) no_io) fn s
    = (\<lparr>v_ValidBytes = 0, v_Records = length es1, v_Torn = None\<rparr>, s',
       Some (CorruptionError path (length (encode_all es1)) reason))"
proof -
  let ?pre = "encode_all es1" and ?rest = "encode_all es2"
  let ?data = "?pre @ (Encode [] t p)[i := b] @ ?rest"
  have data: "(encode_all es)[length ?pre + i := b] = ?data"
    using i(1) by (simp add: es encode_all_append encode_all_Cons list_update_append)
  obtain reason where r: "read_record path ?data no_io (length ?pre)
      = Failed (CorruptionError path (length ?pre) reason)"
    using read_record_damaged [OF _ i, of path ?pre ?rest] wf es by auto
  have "replay_loop path ?data no_io fn (length ?pre) res s'
      = (res, s', Some (CorruptionError path (length ?pre) reason))" for res
    by (subst replay_loop.simps) (simp add: r)
  then have "Replay path (Opened ?data no_io) fn s
      = (\<lparr>v_ValidBytes = 0, v_Records = length es1, v_Torn = None\<rparr>, s',
         Some (CorruptionError path (length ?pre) reason))"
    using replay_loop_encode_all [of es1 fn "[]" s s' path "(Encode [] t p)[i := b] @ ?rest"
        empty_result] wf es fd
    by (simp add: Replay_def empty_result_def)
  then show ?thesis unfolding data by blast
qed

text \<open>Every byte of a log belongs to one of its records.\<close>

lemma encode_all_position:
  "i < length (encode_all es) \<Longrightarrow>
   \<exists>es1 t p es2 j. es = es1 @ (t, p) # es2 \<and> j < EncodedLen p \<and>
     i = length (encode_all es1) + j \<and> encode_all es ! i = Encode [] t p ! j"
proof (induction es arbitrary: i)
  case (Cons e es)
  obtain t p where e: "e = (t, p)" by (cases e)
  show ?case
  proof (cases "i < EncodedLen p")
    case True
    have "e # es = [] @ (t, p) # es \<and> i < EncodedLen p \<and> i = length (encode_all []) + i \<and>
        encode_all (e # es) ! i = Encode [] t p ! i"
      using True by (simp add: e encode_all_Cons nth_append)
    then show ?thesis by blast
  next
    case False
    then have "i - EncodedLen p < length (encode_all es)"
      using Cons.prems by (simp add: e encode_all_Cons)
    from Cons.IH [OF this] obtain es1 t' p' es2 j where
      "es = es1 @ (t', p') # es2" "j < EncodedLen p'"
      "i - EncodedLen p = length (encode_all es1) + j"
      "encode_all es ! (i - EncodedLen p) = Encode [] t' p' ! j" by blast
    with False have "e # es = (e # es1) @ (t', p') # es2 \<and> j < EncodedLen p' \<and>
        i = length (encode_all (e # es1)) + j \<and> encode_all (e # es) ! i = Encode [] t' p' ! j"
      by (simp add: e encode_all_Cons nth_append)
    then show ?thesis by blast
  qed
qed simp

section \<open>Arbitrary bytes\<close>

text \<open>Whatever the file holds, a record that is surfaced is one the writer would have framed so.\<close>

lemma read_record_sound:
  assumes "read_record path data io off = Found r"
  shows "wf_entry (r_Type r, r_Payload r) \<and> r_Offset r = off \<and>
    take (EncodedLen (r_Payload r)) (drop off data) = Encode [] (r_Type r) (r_Payload r) \<and>
    off + EncodedLen (r_Payload r) \<le> length data"
proof -
  define hdr where "hdr = take HeaderSize (drop off data)"
  define len where "len = unat (le_word (take 4 hdr) :: u32)"
  define p where "p = take len (drop (off + HeaderSize) data)"
  have size: "HeaderSize \<le> length data - off" "len \<le> length data - off - HeaderSize"
    "len \<le> MaxRecordSize"
    and hc: "headerChecksum hdr = le_word (take 4 (drop 5 hdr))"
    and rc: "recordChecksum hdr p = le_word (take 4 (drop 9 hdr))"
    and ty: "Type_valid (hdr ! 4)"
    and r: "r = \<lparr>r_Type = hdr ! 4, r_Payload = p, r_Offset = off\<rparr>"
    using assms
    by (auto simp: read_record_def Let_def not_less hdr_def [symmetric] len_def [symmetric]
        p_def [symmetric] split: if_splits option.splits)
  have lh: "length hdr = 13" and lp: "length p = len"
    using size by (simp_all add: HeaderSize_def hdr_def p_def)
  have bytes: "le_bytes 4 (le_word bs :: u32) = bs" if "length bs = 4" for bs
    using le_bytes_le_word [of bs, where 'a = 32] that by simp
  have "le_bytes 4 (of_nat (length p) :: u32) = take 4 hdr"
    using bytes [of "take 4 hdr"] lh lp by (simp add: len_def)
  then have ff: "frame_fields (hdr ! 4) p = take 5 hdr"
    using take_Suc_conv_app_nth [of 4 hdr] lh by (simp add: frame_fields_def)
  have h: "le_bytes 4 (crc_Checksum (take 5 hdr)) = take 4 (drop 5 hdr)"
    using bytes [of "take 4 (drop 5 hdr)"] lh hc by (simp add: headerChecksum_def)
  have c: "le_bytes 4 (crc_Update 0 (take 5 hdr @ p)) = drop 9 hdr"
    using bytes [of "drop 9 hdr"] lh rc by (simp add: recordChecksum_def crc_Update_append)
  have "hdr = take 5 hdr @ take 4 (drop 5 hdr) @ drop 9 hdr"
    using append_take_drop_id [of 5 hdr] append_take_drop_id [of 4 "drop 5 hdr"] by simp
  then have "frame_header (hdr ! 4) p = hdr"
    using ff h c by (simp add: frame_header_def)
  moreover have "take (HeaderSize + len) (drop off data) = hdr @ p"
    by (simp add: take_add add.commute hdr_def p_def)
  moreover have "off + (HeaderSize + len) \<le> length data"
    using size by (simp add: HeaderSize_def)
  ultimately show ?thesis
    using size ty lp
    by (simp add: r wf_entry_def Encode_frame EncodedLen_def)
qed

lemma replay_loop_sound:
  assumes "off \<le> length data" and "replay_loop path data io fn off res s = (res', s', None)"
  shows "\<exists>es. list_all wf_entry es \<and> feed fn off es s = Inr s' \<and>
    v_Records res' = v_Records res + length es \<and> v_ValidBytes res' \<le> length data \<and>
    off \<le> v_ValidBytes res' \<and> take (v_ValidBytes res' - off) (drop off data) = encode_all es"
  using assms
proof (induction path data io fn off res s rule: replay_loop.induct)
  case (1 path data io fn off res s)
  show ?case
  proof (cases "read_record path data io off")
    case (Found r)
    note R = read_record_sound [OF Found]
    let ?n = "EncodedLen (r_Payload r)"
    obtain s1 where s1: "fn s r = Inr s1"
      using "1.prems"(2) Found by (subst (asm) replay_loop.simps) (auto split: sum.splits)
    have off': "off + (HeaderSize + length (r_Payload r)) = off + ?n" by (simp add: EncodedLen_def)
    have "replay_loop path data io fn (off + ?n) (res\<lparr>v_Records := v_Records res + 1\<rparr>) s1
        = (res', s', None)"
      using "1.prems"(2) Found s1 by (subst (asm) replay_loop.simps) (simp add: off')
    with "1.IH" [OF Found s1] R obtain es where es: "list_all wf_entry es"
      "feed fn (off + ?n) es s1 = Inr s'" "v_Records res' = v_Records res + 1 + length es"
      "v_ValidBytes res' \<le> length data" "off + ?n \<le> v_ValidBytes res'"
      "take (v_ValidBytes res' - (off + ?n)) (drop (off + ?n) data) = encode_all es"
      unfolding off' by auto
    have r: "r = \<lparr>r_Type = r_Type r, r_Payload = r_Payload r, r_Offset = off\<rparr>"
      using R by simp
    have "v_ValidBytes res' - off = ?n + (v_ValidBytes res' - (off + ?n))" using es(5) by simp
    then have "take (v_ValidBytes res' - off) (drop off data)
        = take ?n (drop off data) @ take (v_ValidBytes res' - (off + ?n)) (drop (off + ?n) data)"
      by (simp add: take_add add.commute)
    then have "take (v_ValidBytes res' - off) (drop off data)
        = encode_all ((r_Type r, r_Payload r) # es)"
      using R es(6) by (simp add: encode_all_Cons)
    moreover have "feed fn off ((r_Type r, r_Payload r) # es) s = Inr s'"
      using s1 es(2) r by simp
    ultimately show ?thesis
      using R es by (intro exI [of _ "(r_Type r, r_Payload r) # es"]) simp
  qed (use "1.prems" in \<open>(subst (asm) replay_loop.simps, auto intro!: exI [of _ "[]"])+\<close>)
qed

end
