(* ===== verification/Wal_Log.thy ===== *)
theory Wal_Log
  imports Wal_Replay "HOL-Library.Sublist"
begin

text \<open>
  \<open>internal/wal/log.go\<close>, the append-only file with group commit. The critical sections of the Go
  code are functions on \<open>wlog\<close>; the flusher goroutine is a small state machine, whose local
  variables during a write are the arguments of \<open>Writing\<close>. A call that may block is a function to
  \<open>option\<close>: \<open>None\<close> means that the caller stays on the condition variable. What the operating system
  answers is an argument.

  The file is its contents \<open>l_file\<close> and the number \<open>l_synced\<close> of leading bytes an fsync has made
  durable; a crash leaves at least those and at most what was written or is being written.
\<close>

section \<open>State\<close>

record wal_stats =
  s_Records :: u64
  s_Batches :: u64
  s_Bytes :: int
  s_LastBatch :: int
  s_MaxBatch :: int
  s_LastSync :: duration
  s_TotalSync :: duration
  s_SizeBytes :: int
  s_PendingBytes :: int

text \<open>
  The flusher: in its \<open>select\<close>, about to run \<open>flushOnce\<close>, inside the write of \<open>flushOnce\<close>, or
  returned. The flag says that this is the final drain.
\<close>

datatype flusher_pc =
    Idle
  | Starting bool
  | Writing "byte list" int u64 bool
  | Exited

record wlog =
  l_path :: string
  l_file :: "byte list"
  l_synced :: nat
  l_buf :: "byte list"
  l_pending :: int
  l_nextSeq :: u64
  l_flushed :: u64
  l_fatal :: "go_error option"
  l_fatalSeq :: u64
  l_closed :: bool
  l_size :: int
  l_signal :: bool
  l_done :: bool
  l_flusher :: flusher_pc
  l_stats :: wal_stats

definition zero_stats :: wal_stats where
  "zero_stats = \<lparr>s_Records = 0, s_Batches = 0, s_Bytes = 0, s_LastBatch = 0, s_MaxBatch = 0,
     s_LastSync = 0, s_TotalSync = 0, s_SizeBytes = 0, s_PendingBytes = 0\<rparr>"

section \<open>Opening\<close>

text \<open>What the calls of \<open>Open\<close> return: an error each, and the contents of the opened file.\<close>

record open_env =
  oe_MkdirAll :: "go_error option"
  oe_OpenFile :: "go_error + byte list"
  oe_Stat :: "go_error option"
  oe_Truncate :: "go_error option"
  oe_Sync :: "go_error option"
  oe_syncDir_open :: "go_error option"
  oe_syncDir_sync :: "go_error option"

definition syncDir :: "go_error option \<Rightarrow> go_error option \<Rightarrow> go_error option" where
  "syncDir open_err sync_err = (case open_err of Some e \<Rightarrow> Some e | None \<Rightarrow> sync_err)"

text \<open>\<open>ftruncate\<close>: cut, or extend with zero bytes.\<close>

definition truncate_to :: "nat \<Rightarrow> byte list \<Rightarrow> byte list" where
  "truncate_to n bs = take n bs @ replicate (n - length bs) 0"

definition fresh_log :: "string \<Rightarrow> byte list \<Rightarrow> nat \<Rightarrow> wlog" where
  "fresh_log path contents sz = \<lparr>l_path = path, l_file = contents, l_synced = length contents,
     l_buf = [], l_pending = 0, l_nextSeq = 1, l_flushed = 0, l_fatal = None, l_fatalSeq = 0,
     l_closed = False, l_size = i64 (int sz), l_signal = False, l_done = False, l_flusher = Idle,
     l_stats = zero_stats\<rparr>"

definition Open :: "string \<Rightarrow> nat \<Rightarrow> open_env \<Rightarrow> go_error + wlog" where
  "Open path sz env =
     (case oe_MkdirAll env of Some e \<Rightarrow> Inl e | None \<Rightarrow>
      case oe_OpenFile env of Inl e \<Rightarrow> Inl e | Inr contents \<Rightarrow>
      case oe_Stat env of Some e \<Rightarrow> Inl e | None \<Rightarrow>
      bindE (if length contents \<noteq> sz
             then case oe_Truncate env of Some e \<Rightarrow> Inl (Wrapped ''wal: truncating'' e) | None \<Rightarrow>
                  case oe_Sync env of Some e \<Rightarrow> Inl e | None \<Rightarrow> Inr (truncate_to sz contents)
             else Inr contents) (\<lambda>contents.
      case syncDir (oe_syncDir_open env) (oe_syncDir_sync env) of Some e \<Rightarrow> Inl e | None \<Rightarrow>
      Inr (fresh_log path contents sz)))"

section \<open>Operations\<close>

definition kick :: "wlog \<Rightarrow> wlog" where
  "kick l = l\<lparr>l_signal := True\<rparr>"

definition Append :: "rtype \<Rightarrow> byte list \<Rightarrow> wlog \<Rightarrow> wlog \<times> (go_error + u64)" where
  "Append t payload l =
     (case l_fatal l of Some e \<Rightarrow> (l, Inl e) | None \<Rightarrow>
      if l_closed l then (l, Inl ErrWalClosed)
      else (kick (l\<lparr>l_buf := Encode (l_buf l) t payload, l_pending := l_pending l + 1\<rparr>),
            Inr (l_nextSeq l)))"

text \<open>\<open>Wait\<close> stays in its loop (\<open>None\<close>) or returns an error or nil.\<close>

definition Wait :: "u64 \<Rightarrow> wlog \<Rightarrow> go_error option option" where
  "Wait batch l =
     (if l_flushed l < batch \<and> l_fatal l = None then None
      else if l_fatal l \<noteq> None \<and> l_fatalSeq l \<le> batch then Some (l_fatal l)
      else Some None)"

definition Sync :: "wlog \<Rightarrow> wlog \<times> go_error option option" where
  "Sync l =
     (case l_fatal l of Some e \<Rightarrow> (l, Some (Some e)) | None \<Rightarrow>
      if l_buf l = [] \<and> l_flushed l + 1 = l_nextSeq l then (l, Some None)
      else (if l_buf l \<noteq> [] then kick l else l, None))"

section \<open>The flusher\<close>

text \<open>What the write and the fsync of a batch do.\<close>

datatype write_outcome =
    Written
  | WriteErr nat go_error
  | SyncErr go_error

definition writeSync :: "byte list \<Rightarrow> write_outcome \<Rightarrow> wlog \<Rightarrow> wlog \<times> go_error option" where
  "writeSync data out l =
     (case out of
        WriteErr k e \<Rightarrow> (l\<lparr>l_file := l_file l @ take k data\<rparr>, Some (Wrapped ''wal: write'' e))
      | SyncErr e \<Rightarrow> (l\<lparr>l_file := l_file l @ data\<rparr>, Some (Wrapped ''wal: fsync'' e))
      | Written \<Rightarrow> (l\<lparr>l_file := l_file l @ data, l_synced := length (l_file l) + length data\<rparr>, None))"

text \<open>\<open>flushOnce\<close> up to the unlock before the write, and from the write on.\<close>

definition flush_begin :: "bool \<Rightarrow> wlog \<Rightarrow> wlog" where
  "flush_begin final l =
     (if l_buf l = [] \<or> l_fatal l \<noteq> None
      then l\<lparr>l_flusher := if final then Exited else Idle\<rparr>
      else l\<lparr>l_flusher := Writing (l_buf l) (l_pending l) (l_nextSeq l) final,
             l_buf := [], l_pending := 0, l_nextSeq := l_nextSeq l + 1\<rparr>)"

definition flushed_stats :: "byte list \<Rightarrow> int \<Rightarrow> duration \<Rightarrow> wal_stats \<Rightarrow> wal_stats" where
  "flushed_stats data records elapsed s =
     s\<lparr>s_Records := s_Records s + word_of_int records,
       s_Batches := s_Batches s + 1,
       s_Bytes := i64 (s_Bytes s + int (length data)),
       s_LastBatch := records,
       s_MaxBatch := (if records > s_MaxBatch s then records else s_MaxBatch s),
       s_LastSync := elapsed,
       s_TotalSync := i64 (s_TotalSync s + elapsed)\<rparr>"

definition flush_end ::
  "byte list \<Rightarrow> int \<Rightarrow> u64 \<Rightarrow> bool \<Rightarrow> write_outcome \<Rightarrow> duration \<Rightarrow> wlog \<Rightarrow> wlog" where
  "flush_end data records batch final out elapsed l =
     (let (l, err) = writeSync data out l;
          l = (case err of
                 Some e \<Rightarrow> l\<lparr>l_fatal := Some e, l_fatalSeq := batch\<rparr>
               | None \<Rightarrow> l\<lparr>l_size := i64 (l_size l + int (length data)),
                           l_stats := flushed_stats data records elapsed (l_stats l)\<rparr>)
      in l\<lparr>l_flushed := batch, l_flusher := if final then Exited else Idle\<rparr>)"

text \<open>One move of the goroutine \<open>flusher\<close>: take a signal, notice \<open>done\<close>, or run \<open>flushOnce\<close>.\<close>

inductive flusher_step :: "wlog \<Rightarrow> wlog \<Rightarrow> bool" where
  woken: "l_flusher l = Idle \<Longrightarrow> l_signal l \<Longrightarrow>
    flusher_step l (l\<lparr>l_signal := False, l_flusher := Starting False\<rparr>)"
| drained: "l_flusher l = Idle \<Longrightarrow> l_done l \<Longrightarrow> flusher_step l (l\<lparr>l_flusher := Starting True\<rparr>)"
| begun: "l_flusher l = Starting final \<Longrightarrow> flusher_step l (flush_begin final l)"
| written: "l_flusher l = Writing data records batch final \<Longrightarrow>
    flusher_step l (flush_end data records batch final out elapsed l)"

section \<open>Statistics, reopening and closing\<close>

definition log_Stats :: "wlog \<Rightarrow> wal_stats" where
  "log_Stats l = (l_stats l)\<lparr>s_SizeBytes := l_size l, s_PendingBytes := int (length (l_buf l))\<rparr>"

definition log_Size :: "wlog \<Rightarrow> int" where
  "log_Size l = l_size l"

text \<open>\<open>Reopen\<close>: the answers of \<open>f.Close\<close> and of \<open>os.OpenFile\<close>, which finds \<open>contents\<close>.\<close>

definition Reopen ::
  "int \<Rightarrow> go_error option \<Rightarrow> go_error + byte list \<Rightarrow> wlog \<Rightarrow> wlog \<times> go_error option option" where
  "Reopen sz close_err opn l =
     (case Sync l of
        (l, None) \<Rightarrow> (l, None)
      | (l, Some (Some e)) \<Rightarrow> (l, Some (Some e))
      | (l, Some None) \<Rightarrow>
          if l_closed l then (l, Some (Some ErrWalClosed))
          else (case close_err of Some e \<Rightarrow> (l, Some (Some e)) | None \<Rightarrow>
            case opn of
              Inl e \<Rightarrow> (let e' = Wrapped ''wal: reopen'' e
                        in (l\<lparr>l_fatal := Some e', l_fatalSeq := 0\<rparr>, Some (Some e')))
            | Inr contents \<Rightarrow>
                (l\<lparr>l_file := contents, l_synced := length contents, l_size := sz\<rparr>, Some None)))"

text \<open>
  \<open>Close\<close> up to \<open>close(l.done)\<close>, where a second call returns nil at once, and after \<open>wg.Wait\<close>,
  once the flusher has returned.
\<close>

definition Close_begin :: "wlog \<Rightarrow> wlog \<times> go_error option option" where
  "Close_begin l =
     (if l_closed l then (l, Some None) else (l\<lparr>l_closed := True, l_done := True\<rparr>, None))"

definition Close_end :: "go_error option \<Rightarrow> wlog \<Rightarrow> go_error option option" where
  "Close_end close_err l =
     (if l_flusher l \<noteq> Exited then None
      else if l_fatal l \<noteq> None then Some (l_fatal l) else Some close_err)"

section \<open>Histories\<close>

text \<open>
  \<open>log_reach base n es l\<close>: a log opened with the contents \<open>base\<close> has become \<open>l\<close>, has accepted the
  records \<open>es\<close>, each with the batch id it was given, and its flusher has moved \<open>n\<close> times. A
  successful \<open>Reopen\<close> starts again from the contents it finds.
\<close>

inductive log_reach :: "byte list \<Rightarrow> nat \<Rightarrow> (u64 \<times> entry) list \<Rightarrow> wlog \<Rightarrow> bool" where
  opened: "log_reach base 0 [] (fresh_log path base (length base))"
| appended: "log_reach base n es l \<Longrightarrow> Append t p l = (l', Inr b) \<Longrightarrow>
    log_reach base n (es @ [(b, t, p)]) l'"
| synced: "log_reach base n es l \<Longrightarrow> Sync l = (l', r) \<Longrightarrow> log_reach base n es l'"
| flusher: "log_reach base n es l \<Longrightarrow> flusher_step l l' \<Longrightarrow> log_reach base (Suc n) es l'"
| reopened: "log_reach base n es l \<Longrightarrow>
    Reopen (i64 (int (length contents))) None (Inr contents) l = (l', Some None) \<Longrightarrow>
    log_reach contents n [] l'"
| lost: "log_reach base n es l \<Longrightarrow> Reopen sz None (Inl e) l = (l', Some (Some e')) \<Longrightarrow>
    log_reach base n es l'"
| closed: "log_reach base n es l \<Longrightarrow> Close_begin l = (l', r) \<Longrightarrow> log_reach base n es l'"

text \<open>What a crash may leave of the file: a prefix of what was or is being written, fsynced part included.\<close>

definition being_written :: "wlog \<Rightarrow> byte list" where
  "being_written l = (case l_flusher l of Writing data _ _ _ \<Rightarrow> data | _ \<Rightarrow> [])"

definition crash_image :: "wlog \<Rightarrow> byte list \<Rightarrow> bool" where
  "crash_image l img \<longleftrightarrow>
     prefix (take (l_synced l) (l_file l)) img \<and> prefix img (l_file l @ being_written l)"

abbreviation enc :: "(u64 \<times> entry) list \<Rightarrow> byte list" where
  "enc es \<equiv> encode_all (map snd es)"

text \<open>
  The invariant, with the accepted records split into those on disk (\<open>ds\<close>), those of the batch
  being written or lost in a failed write (\<open>ws\<close>), and those in the buffer (\<open>bs\<close>).
\<close>

definition batch_ids :: "nat \<Rightarrow> (u64 \<times> entry) list \<Rightarrow> (u64 \<times> entry) list \<Rightarrow>
    (u64 \<times> entry) list \<Rightarrow> wlog \<Rightarrow> bool" where
  "batch_ids n ds ws bs l \<longleftrightarrow>
     unat (l_nextSeq l) \<le> n + 1 \<and>
     (\<forall>x \<in> set ds. 0 < unat (fst x) \<and> unat (fst x) \<le> unat (l_flushed l) \<and>
        (l_fatal l \<noteq> None \<longrightarrow> l_fatalSeq l \<noteq> 0 \<longrightarrow> unat (fst x) < unat (l_fatalSeq l))) \<and>
     (\<forall>x \<in> set ws. unat (fst x) + 1 = unat (l_nextSeq l)) \<and>
     (\<forall>x \<in> set bs. fst x = l_nextSeq l)"

fun is_writing :: "flusher_pc \<Rightarrow> bool" where
  "is_writing (Writing _ _ _ _) = True"
| "is_writing _ = False"

fun final_run :: "flusher_pc \<Rightarrow> bool" where
  "final_run (Writing _ _ _ f) = f"
| "final_run (Starting f) = f"
| "final_run Exited = True"
| "final_run Idle = False"

fun counts :: "flusher_pc \<Rightarrow> byte list \<Rightarrow> nat \<Rightarrow> nat \<Rightarrow> bool" where
  "counts (Writing data r b f) w next flushed =
     (data = w \<and> next = unat b + 1 \<and> unat b = flushed + 1)"
| "counts _ w next flushed = (next = flushed + 1)"

definition disk_ok :: "byte list \<Rightarrow> byte list \<Rightarrow> bool \<Rightarrow> byte list \<Rightarrow> nat \<Rightarrow> int \<Rightarrow> bool" where
  "disk_ok d w writing file synced sz \<longleftrightarrow>
     file = d \<and> synced = length file \<and> (writing \<or> w = []) \<and> sz = i64 (int (length file))"

definition disk_failed :: "byte list \<Rightarrow> byte list \<Rightarrow> u64 \<Rightarrow> u64 \<Rightarrow> byte list \<Rightarrow> nat \<Rightarrow> bool" where
  "disk_failed d w fatalSeq flushed file synced \<longleftrightarrow>
     (fatalSeq = 0 \<or> fatalSeq = flushed) \<and>
     prefix file (d @ w) \<and> length d \<le> synced \<and> synced \<le> length file"

definition on_disk :: "byte list \<Rightarrow> (u64 \<times> entry) list \<Rightarrow> (u64 \<times> entry) list \<Rightarrow> wlog \<Rightarrow> bool" where
  "on_disk base ds ws l \<longleftrightarrow>
     counts (l_flusher l) (enc ws) (unat (l_nextSeq l)) (unat (l_flushed l)) \<and>
     (is_writing (l_flusher l) \<longrightarrow> l_fatal l = None) \<and>
     (l_fatal l = None \<longrightarrow>
        disk_ok (base @ enc ds) (enc ws) (is_writing (l_flusher l)) (l_file l) (l_synced l) (l_size l)) \<and>
     (l_fatal l \<noteq> None \<longrightarrow>
        disk_failed (base @ enc ds) (enc ws) (l_fatalSeq l) (l_flushed l) (l_file l) (l_synced l))"

text \<open>No wake-up is lost, and the flusher returns only after its final drain.\<close>

definition no_lost_wakeup :: "wlog \<Rightarrow> bool" where
  "no_lost_wakeup l \<longleftrightarrow>
     (l_buf l \<noteq> [] \<longrightarrow> l_fatal l = None \<longrightarrow> l_signal l \<or> (\<exists>f. l_flusher l = Starting f)) \<and>
     (l_buf l \<noteq> [] \<longrightarrow> l_fatal l = None \<longrightarrow> final_run (l_flusher l) \<longrightarrow> l_flusher l = Starting True) \<and>
     (final_run (l_flusher l) \<longrightarrow> l_closed l) \<and>
     l_done l = l_closed l"

definition log_inv :: "byte list \<Rightarrow> nat \<Rightarrow> (u64 \<times> entry) list \<Rightarrow> (u64 \<times> entry) list \<Rightarrow>
    (u64 \<times> entry) list \<Rightarrow> wlog \<Rightarrow> bool" where
  "log_inv base n ds ws bs l \<longleftrightarrow>
     batch_ids n ds ws bs l \<and> on_disk base ds ws l \<and> no_lost_wakeup l \<and> l_buf l = enc bs"

section \<open>Every step keeps the invariant\<close>

lemmas log_inv_defs = log_inv_def batch_ids_def on_disk_def no_lost_wakeup_def

lemma inv_fresh: "log_inv base 0 [] [] [] (fresh_log path base (length base))"
  by (simp add: log_inv_defs fresh_log_def disk_ok_def)

lemma inv_Suc: "log_inv base n ds ws bs l \<Longrightarrow> log_inv base (Suc n) ds ws bs l"
  by (simp add: log_inv_def batch_ids_def)

lemma inv_kick:
  assumes "log_inv base n ds ws bs l"
  shows "log_inv base n ds ws bs (kick l)"
  using assms by (simp add: log_inv_defs kick_def)

lemma inv_Append:
  assumes "log_inv base n ds ws bs l" and "Append t p l = (l', Inr b)"
  shows "log_inv base n ds ws (bs @ [(b, t, p)]) l'"
proof -
  have a: "l_fatal l = None" "\<not> l_closed l" "b = l_nextSeq l"
    "l' = kick (l\<lparr>l_buf := Encode (l_buf l) t p, l_pending := l_pending l + 1\<rparr>)"
    using assms(2) by (auto simp: Append_def split: option.splits if_splits)
  have "Encode (enc bs) t p = enc (bs @ [(b, t, p)])" by (simp add: Encode_frame)
  with assms(1) show ?thesis
    by (auto simp: log_inv_defs a kick_def)
qed

lemma inv_Sync:
  "log_inv base n ds ws bs l \<Longrightarrow> Sync l = (l', r) \<Longrightarrow> log_inv base n ds ws bs l'"
  by (auto simp: Sync_def inv_kick split: option.splits if_splits)

lemma counts_not_writing: "\<not> is_writing pc \<Longrightarrow> counts pc w m k \<longleftrightarrow> m = k + 1"
  by (cases pc) auto

lemma writing_counts: "is_writing pc \<Longrightarrow> counts pc w m k \<Longrightarrow> m = k + 2"
  by (cases pc) auto

lemma unat_plus_one: "unat (w :: u64) < 2 ^ 64 - 1 \<Longrightarrow> unat (w + 1) = unat w + 1"
  by (simp add: unat_word_ariths)

lemma enc_Nil: "enc es = [] \<longleftrightarrow> es = []"
  by (cases es) (auto simp: encode_all_Cons Encode_frame frame_header_def frame_fields_def le_bytes_def)

lemma Sync_idle:
  assumes inv: "log_inv base n ds ws bs l" and sync: "Sync l = (l', Some None)" and n: "n < 2 ^ 64 - 2"
  shows "l' = l" "l_fatal l = None" "l_buf l = []" "\<not> is_writing (l_flusher l)" "ws = []" "bs = []"
proof -
  show *: "l' = l" "l_fatal l = None" "l_buf l = []"
    using sync by (auto simp: Sync_def split: option.splits if_splits)
  have eq: "l_flushed l + 1 = l_nextSeq l"
    using sync by (auto simp: Sync_def split: option.splits if_splits)
  show nw: "\<not> is_writing (l_flusher l)"
  proof
    assume "is_writing (l_flusher l)"
    with inv have c: "unat (l_nextSeq l) = unat (l_flushed l) + 2" "unat (l_nextSeq l) \<le> n + 1"
      by (auto simp: log_inv_defs dest: writing_counts)
    then have "unat (l_flushed l + 1) = unat (l_flushed l) + 1"
      using n by (intro unat_plus_one) simp
    with c eq show False by simp
  qed
  show "ws = []" using inv * nw enc_Nil [of ws] by (simp add: log_inv_defs disk_ok_def)
  show "bs = []" using inv * enc_Nil [of bs] by (simp add: log_inv_def)
qed

lemma inv_woken:
  assumes "log_inv base n ds ws bs l" and "l_flusher l = Idle"
  shows "log_inv base n ds ws bs (l\<lparr>l_signal := False, l_flusher := Starting False\<rparr>)"
  using assms by (auto simp: log_inv_defs)

lemma inv_drained:
  assumes "log_inv base n ds ws bs l" and "l_flusher l = Idle" and "l_done l"
  shows "log_inv base n ds ws bs (l\<lparr>l_flusher := Starting True\<rparr>)"
  using assms by (simp add: log_inv_defs)

lemma inv_begun_nothing:
  assumes "log_inv base n ds ws bs l" and "l_flusher l = Starting final"
    and "l_buf l = [] \<or> l_fatal l \<noteq> None"
  shows "log_inv base n ds ws bs (l\<lparr>l_flusher := if final then Exited else Idle\<rparr>)"
  using assms by (cases final) (auto simp: log_inv_defs)

lemma inv_begun:
  assumes inv: "log_inv base n ds ws bs l" and pc: "l_flusher l = Starting final"
    and ok: "l_buf l \<noteq> []" "l_fatal l = None" and n: "n < 2 ^ 64 - 2"
  shows "log_inv base (Suc n) ds bs []
    (l\<lparr>l_flusher := Writing (l_buf l) (l_pending l) (l_nextSeq l) final,
       l_buf := [], l_pending := 0, l_nextSeq := l_nextSeq l + 1\<rparr>)"
proof -
  have b: "unat (l_nextSeq l) \<le> n + 1" using inv by (simp add: log_inv_defs)
  then have "unat (l_nextSeq l + 1) = unat (l_nextSeq l) + 1"
    using n by (intro unat_plus_one) simp
  with inv pc ok b show ?thesis
    by (auto simp: log_inv_defs disk_ok_def)
qed

lemma inv_written_ok:
  assumes inv: "log_inv base n ds ws bs l" and pc: "l_flusher l = Writing data records batch final"
  shows "log_inv base n (ds @ ws) [] bs (flush_end data records batch final Written elapsed l)"
proof -
  from inv pc have c: "data = enc ws" "unat (l_nextSeq l) = unat batch + 1"
    "unat batch = unat (l_flushed l) + 1" "l_fatal l = None" by (simp_all add: log_inv_defs)
  with inv pc show ?thesis
    by (cases final)
      (auto simp: log_inv_defs disk_ok_def flush_end_def writeSync_def encode_all_append add.assoc)
qed

lemma inv_written_failed:
  assumes inv: "log_inv base n ds ws bs l" and pc: "l_flusher l = Writing data records batch final"
    and out: "out \<noteq> Written"
  shows "log_inv base n ds ws bs (flush_end data records batch final out elapsed l)"
proof -
  from inv pc have c: "data = enc ws" "unat (l_nextSeq l) = unat batch + 1"
    "unat batch = unat (l_flushed l) + 1" "l_fatal l = None" by (simp_all add: log_inv_defs)
  have "prefix (take k (enc ws)) (enc ws)" for k by (rule take_is_prefix)
  with inv pc c out show ?thesis
    by (cases final; cases out)
      (auto simp: log_inv_defs disk_ok_def disk_failed_def flush_end_def writeSync_def)
qed

lemma inv_flusher:
  assumes "log_inv base n ds ws bs l" and "flusher_step l l'" and "n < 2 ^ 64 - 2"
  shows "\<exists>ds' ws' bs'. ds' @ ws' @ bs' = ds @ ws @ bs \<and> log_inv base (Suc n) ds' ws' bs' l'"
  using assms(2)
proof cases
  case woken
  then show ?thesis using inv_Suc [OF inv_woken [OF assms(1)]] by blast
next
  case drained
  then show ?thesis using inv_Suc [OF inv_drained [OF assms(1)]] by blast
next
  case (begun final)
  show ?thesis
  proof (cases "l_buf l = [] \<or> l_fatal l \<noteq> None")
    case True
    then have "log_inv base (Suc n) ds ws bs l'"
      using inv_Suc [OF inv_begun_nothing [OF assms(1) begun(2) True]] begun(1)
      by (simp add: flush_begin_def)
    then show ?thesis by blast
  next
    case False
    then have "ws = []"
      using assms(1) begun(2) enc_Nil [of ws] by (auto simp: log_inv_defs disk_ok_def)
    moreover have "log_inv base (Suc n) ds bs [] l'"
      using inv_begun [OF assms(1) begun(2) _ _ assms(3)] False begun(1)
      by (simp add: flush_begin_def)
    ultimately show ?thesis by (intro exI [of _ ds] exI [of _ bs] exI [of _ "[]"]) simp
  qed
next
  case (written data records batch final out elapsed)
  show ?thesis
  proof (cases "out = Written")
    case True
    then show ?thesis
      using inv_Suc [OF inv_written_ok [OF assms(1) written(2)]] written(1)
      by (intro exI [of _ "ds @ ws"] exI [of _ "[]"] exI [of _ bs]) simp
  next
    case False
    then show ?thesis
      using inv_Suc [OF inv_written_failed [OF assms(1) written(2) False]] written(1) by blast
  qed
qed

lemma inv_Reopen:
  assumes "log_inv base n ds ws bs l" and "n < 2 ^ 64 - 2"
    and "Reopen (i64 (int (length contents))) None (Inr contents) l = (l', Some None)"
  shows "log_inv contents n [] [] [] l'"
proof -
  have sync: "Sync l = (l, Some None)" and l': "l' = l\<lparr>l_file := contents,
      l_synced := length contents, l_size := i64 (int (length contents))\<rparr>"
    using assms(3) by (auto simp: Reopen_def Sync_def split: prod.splits option.splits if_splits)
  note S = Sync_idle [OF assms(1) sync assms(2)]
  then show ?thesis
    using assms(1) by (auto simp: log_inv_defs l' disk_ok_def counts_not_writing)
qed

lemma inv_Reopen_lost:
  assumes "log_inv base n ds ws bs l" and "n < 2 ^ 64 - 2"
    and "Reopen sz None (Inl e) l = (l', Some (Some e'))"
  shows "log_inv base n ds ws bs l'"
proof (cases "Sync l = (l, Some None) \<and> \<not> l_closed l")
  case True
  then have l': "l' = l\<lparr>l_fatal := Some (Wrapped ''wal: reopen'' e), l_fatalSeq := 0\<rparr>"
    using assms(3) by (auto simp: Reopen_def Let_def)
  note S = Sync_idle [OF assms(1) conjunct1 [OF True] assms(2)]
  then show ?thesis
    using assms(1) by (simp add: log_inv_defs l' disk_ok_def disk_failed_def)
next
  case False
  then have "l' = l"
    using assms(3) by (auto simp: Reopen_def Sync_def split: option.splits if_splits)
  then show ?thesis using assms(1) by simp
qed

lemma inv_Close:
  "log_inv base n ds ws bs l \<Longrightarrow> Close_begin l = (l', r) \<Longrightarrow> log_inv base n ds ws bs l'"
  by (auto simp: Close_begin_def log_inv_defs split: if_splits)

lemma log_reach_inv:
  assumes "log_reach base n es l" and "n < 2 ^ 64 - 2"
  shows "\<exists>ds ws bs. es = ds @ ws @ bs \<and> log_inv base n ds ws bs l"
  using assms
proof (induction rule: log_reach.induct)
  case (opened base path)
  then show ?case using inv_fresh by blast
next
  case (appended base n es l t p l' b)
  then obtain ds ws bs where "es = ds @ ws @ bs" "log_inv base n ds ws bs l" by auto
  then show ?case
    using inv_Append [OF _ appended.hyps(2)]
    by (intro exI [of _ ds] exI [of _ ws] exI [of _ "bs @ [(b, t, p)]"]) simp
next
  case (synced base n es l l' r)
  then show ?case using inv_Sync [OF _ synced.hyps(2)] by fastforce
next
  case (flusher base n es l l')
  then obtain ds ws bs where "es = ds @ ws @ bs" "log_inv base n ds ws bs l" by auto
  moreover from inv_flusher [OF this(2) flusher.hyps(2)] flusher.prems
  obtain ds' ws' bs' where "ds' @ ws' @ bs' = ds @ ws @ bs" "log_inv base (Suc n) ds' ws' bs' l'"
    by auto
  ultimately show ?case by metis
next
  case (reopened base n es l contents l')
  then show ?case using inv_Reopen [OF _ _ reopened.hyps(2)] by fastforce
next
  case (lost base n es l sz e l' e')
  then show ?case using inv_Reopen_lost [OF _ _ lost.hyps(2)] by fastforce
next
  case (closed base n es l l' r)
  then show ?case using inv_Close [OF _ closed.hyps(2)] by fastforce
qed

section \<open>What a successful wait promises\<close>

lemma Wait_not_pending:
  assumes inv: "log_inv base n ds ws bs l" and w: "Wait b l = Some None"
  shows "(b, e) \<notin> set (ws @ bs)"
proof
  assume "(b, e) \<in> set (ws @ bs)"
  then have mem: "(b, e) \<notin> set bs \<longrightarrow> (b, e) \<in> set ws" by auto
  have "\<forall>x \<in> set bs. fst x = l_nextSeq l" "\<forall>x \<in> set ws. unat (fst x) + 1 = unat (l_nextSeq l)"
    using inv by (simp_all add: log_inv_def batch_ids_def)
  with mem have b: "if (b, e) \<in> set bs then unat b = unat (l_nextSeq l)
    else unat b + 1 = unat (l_nextSeq l) \<and> ws \<noteq> []"
    by force
  have c: "unat (l_nextSeq l) = unat (l_flushed l) + (if is_writing (l_flusher l) then 2 else 1)"
    using inv by (cases "l_flusher l") (simp_all add: log_inv_defs)
  have nb: "unat (l_flushed l) \<le> unat b" and
    notok: "is_writing (l_flusher l) \<or> (b, e) \<in> set bs \<longrightarrow> unat (l_flushed l) < unat b"
    and ws: "(b, e) \<notin> set bs \<longrightarrow> ws \<noteq> []"
    using b c by (auto split: if_splits)
  show False
  proof (cases "l_fatal l")
    case None
    with w have "unat b \<le> unat (l_flushed l)"
      by (auto simp: Wait_def word_less_nat_alt split: if_splits)
    with notok have "\<not> is_writing (l_flusher l)" "(b, e) \<notin> set bs" by auto
    with inv None ws enc_Nil [of ws] show False by (simp add: log_inv_defs disk_ok_def)
  next
    case (Some x)
    with inv have "unat (l_fatalSeq l) \<le> unat (l_flushed l)"
      by (auto simp: log_inv_defs disk_failed_def)
    with nb have "l_fatalSeq l \<le> b" by (simp add: word_le_nat_alt)
    with w Some show False by (simp add: Wait_def)
  qed
qed

lemma Wait_on_disk:
  assumes "log_inv base n ds ws bs l" and "Wait b l = Some None" and "(b, e) \<in> set (ds @ ws @ bs)"
  shows "(b, e) \<in> set ds"
  using Wait_not_pending [OF assms(1,2)] assms(3) by auto

lemma crash_image_bounds:
  assumes inv: "log_inv base n ds ws bs l" and img: "crash_image l img"
  shows "prefix (base @ enc ds) img" and "prefix img (base @ enc (ds @ ws))"
proof -
  have lo: "prefix (base @ enc ds) (take (l_synced l) (l_file l))"
  proof (cases "l_fatal l")
    case None
    then show ?thesis using inv by (simp add: log_inv_defs disk_ok_def)
  next
    case (Some x)
    with inv have f: "prefix (l_file l) ((base @ enc ds) @ enc ws)" "length (base @ enc ds) \<le> l_synced l"
      "l_synced l \<le> length (l_file l)"
      by (simp_all add: log_inv_defs disk_failed_def)
    have "prefix (base @ enc ds) (l_file l)"
      by (rule prefix_length_prefix [OF prefixI [OF refl] f(1)]) (use f(2,3) in simp)
    then show ?thesis
      by (rule prefix_length_prefix [OF _ take_is_prefix]) (use f(2,3) in simp)
  qed
  have hi: "prefix (l_file l @ being_written l) (base @ enc (ds @ ws))"
  proof (cases "is_writing (l_flusher l)")
    case True
    then obtain data r b f where "l_flusher l = Writing data r b f" by (cases "l_flusher l") auto
    then show ?thesis
      using inv by (simp add: log_inv_defs being_written_def disk_ok_def encode_all_append)
  next
    case False
    then have "being_written l = []" by (cases "l_flusher l") (simp_all add: being_written_def)
    then show ?thesis
      using inv by (cases "l_fatal l")
        (simp_all add: log_inv_defs disk_ok_def disk_failed_def encode_all_append)
  qed
  from img lo hi show "prefix (base @ enc ds) img" "prefix img (base @ enc (ds @ ws))"
    unfolding crash_image_def by (meson prefix_order.trans)+
qed

lemma waited_is_durable:
  assumes "log_reach base n es l" and "n < 2 ^ 64 - 2"
    and "Wait b l = Some None" and "(b, e) \<in> set es" and "crash_image l img"
  shows "\<exists>es1 es2. es = es1 @ es2 \<and> (b, e) \<in> set es1 \<and>
    prefix (base @ enc es1) img \<and> prefix img (base @ enc es)"
proof -
  from log_reach_inv [OF assms(1,2)] obtain ds ws bs where
    es: "es = ds @ ws @ bs" and inv: "log_inv base n ds ws bs l" by blast
  have "(b, e) \<in> set ds" using Wait_on_disk [OF inv assms(3)] assms(4) es by blast
  moreover have "prefix img (base @ enc es)"
    using crash_image_bounds(2) [OF inv assms(5)]
    by (auto simp: es encode_all_append intro: prefix_order.trans)
  ultimately show ?thesis using crash_image_bounds(1) [OF inv assms(5)] es by blast
qed

text \<open>A log cut anywhere replays to a prefix of its records, torn tail or not.\<close>

lemma replay_prefix:
  assumes wf: "list_all wf_entry es" and pre: "prefix img (encode_all es)"
    and ok: "\<And>es1. prefix es1 es \<Longrightarrow> \<exists>s'. feed fn 0 es1 s = Inr s'"
  shows "\<exists>es1 es2 s' res. es = es1 @ es2 \<and> feed fn 0 es1 s = Inr s' \<and>
    Replay path (Opened img no_io) fn s = (res, s', None) \<and>
    v_ValidBytes res = length (encode_all es1) \<and> v_Records res = length es1 \<and>
    length (encode_all es1) \<le> length img \<and>
    (es2 \<noteq> [] \<longrightarrow> length img < length (encode_all (es1 @ [hd es2])))"
proof -
  define n where "n = length img"
  from pre have n: "n \<le> length (encode_all es)" "img = take n (encode_all es)"
    by (auto simp: n_def prefix_def)
  from encode_all_take [OF n(1)] obtain es1 es2 where es: "es = es1 @ es2" and
    cut: "n = length (encode_all es1) \<or> (\<exists>t p rest' m. es2 = (t, p) # rest' \<and> 0 < m \<and>
      m < EncodedLen p \<and> n = length (encode_all es1) + m)" by blast
  from ok [of es1] es obtain s' where s': "feed fn 0 es1 s = Inr s'" by auto
  have wf1: "list_all wf_entry es1" using wf es by simp
  have EL: "0 < EncodedLen p" for p by (simp add: EncodedLen_def HeaderSize_def)
  from cut show ?thesis
  proof
    assume c: "n = length (encode_all es1)"
    then have "img = encode_all es1" by (simp add: n(2) es encode_all_append)
    moreover have "length (encode_all es1) < length (encode_all (es1 @ [hd es2]))" using EL by simp
    moreover note replay_complete [OF wf1 s', of path]
    ultimately have "es = es1 @ es2 \<and> feed fn 0 es1 s = Inr s' \<and>
        Replay path (Opened img no_io) fn s = (\<lparr>v_ValidBytes = length (encode_all es1),
          v_Records = length es1, v_Torn = None\<rparr>, s', None) \<and> length (encode_all es1) \<le> length img \<and>
        (es2 \<noteq> [] \<longrightarrow> length img < length (encode_all (es1 @ [hd es2])))"
      using es s' by simp
    then show ?thesis by (metis replay_result.select_convs(1,2))
  next
    assume "\<exists>t p rest' m. es2 = (t, p) # rest' \<and> 0 < m \<and> m < EncodedLen p \<and>
      n = length (encode_all es1) + m"
    then obtain t p rest' m where c: "es2 = (t, p) # rest'" "0 < m" "m < EncodedLen p"
      "n = length (encode_all es1) + m" by blast
    then have "img = encode_all es1 @ take m (Encode [] t p)"
      by (simp add: n(2) es encode_all_append encode_all_Cons)
    moreover have "wf_entry (t, p)" using wf es c by simp
    moreover note replay_torn [OF wf1 s' _ c(2,3), of t path]
    ultimately have "es = es1 @ es2 \<and> feed fn 0 es1 s = Inr s' \<and>
        Replay path (Opened img no_io) fn s = (\<lparr>v_ValidBytes = length (encode_all es1),
          v_Records = length es1, v_Torn = Some \<lparr>t_Offset = length (encode_all es1), t_Bytes = m\<rparr>\<rparr>,
          s', None) \<and> length (encode_all es1) \<le> length img \<and>
        (es2 \<noteq> [] \<longrightarrow> length img < length (encode_all (es1 @ [hd es2])))"
      using es s' c by simp
    then show ?thesis by (metis replay_result.select_convs(1,2))
  qed
qed

section \<open>Progress and failure\<close>

text \<open>A caller that waits for an accepted record never waits in vain: the flusher can move.\<close>

lemma blocked_flusher_moves:
  assumes "log_inv base n ds ws bs l" and "(b, e) \<in> set (ds @ ws @ bs)" and "Wait b l = None"
  shows "\<exists>l'. flusher_step l l'"
proof -
  have nf: "l_fatal l = None" "l_flushed l < b" using assms(3) by (auto simp: Wait_def split: if_splits)
  show ?thesis
  proof (cases "l_flusher l")
    case Idle
    have "ws = []" using assms(1) nf Idle enc_Nil [of ws] by (simp add: log_inv_defs disk_ok_def)
    moreover have "(b, e) \<notin> set ds"
      using assms(1) nf by (auto simp: log_inv_defs word_less_nat_alt)
    ultimately have "bs \<noteq> []" using assms(2) by auto
    then have "l_signal l" using assms(1) nf Idle enc_Nil [of bs] by (auto simp: log_inv_defs)
    then show ?thesis using Idle woken by blast
  next
    case Exited
    have "ws = []" using assms(1) nf Exited enc_Nil [of ws] by (simp add: log_inv_defs disk_ok_def)
    moreover have "(b, e) \<notin> set ds"
      using assms(1) nf by (auto simp: log_inv_defs word_less_nat_alt)
    ultimately have "bs \<noteq> []" using assms(2) by auto
    then show ?thesis using assms(1) nf Exited enc_Nil [of bs] by (auto simp: log_inv_defs)
  qed (blast intro: begun written)+
qed

end
