(* ===== verification/Go_Json.thy ===== *)
theory Go_Json
  imports Prelude
begin

text \<open>
  Package \<open>encoding/json\<close> of the Go library, as far as the queue's configuration record needs it:
  the decoder for any JSON text (white space, escapes, invalid UTF-8 replaced by U+FFFD, the
  nesting limit, numbers kept as literals) and the encoder's integers and strings. Strings are
  byte strings, as in Go.
\<close>

section \<open>Decoding\<close>

datatype json =
    JNull
  | JBool bool
  | JNum string
  | JStr string
  | JArr "json list"
  | JObj "(string \<times> json) list"

abbreviation quote :: char where "quote \<equiv> CHR 0x22"
abbreviation backslash :: char where "backslash \<equiv> CHR 0x5C"

abbreviation code :: "char \<Rightarrow> nat" where "code c \<equiv> of_char c"

definition is_ws :: "char \<Rightarrow> bool" where
  "is_ws c \<longleftrightarrow> c = CHR '' '' \<or> c = CHR 0x09 \<or> c = CHR 0x0A \<or> c = CHR 0x0D"

definition skip_ws :: "string \<Rightarrow> string" where
  "skip_ws s = dropWhile is_ws s"

text \<open>The rest of the text after the byte \<open>c\<close>, if it starts with that.\<close>

definition eat :: "char \<Rightarrow> string \<Rightarrow> string option" where
  "eat c s = (case s of [] \<Rightarrow> None | x # r \<Rightarrow> if x = c then Some r else None)"

lemma eat_simps [simp]: "eat c [] = None" "eat c (x # r) = (if x = c then Some r else None)"
  by (simp_all add: eat_def)

definition is_digit :: "char \<Rightarrow> bool" where
  "is_digit c \<longleftrightarrow> 48 \<le> code c \<and> code c \<le> 57"

definition hex_value :: "char \<Rightarrow> nat option" where
  "hex_value c =
     (if is_digit c then Some (code c - 48)
      else if 97 \<le> code c \<and> code c \<le> 102 then Some (code c - 87)
      else if 65 \<le> code c \<and> code c \<le> 70 then Some (code c - 55)
      else None)"

text \<open>Four hexadecimal digits after \<open>\u\<close>.\<close>

fun hex4 :: "string \<Rightarrow> nat option" where
  "hex4 (a # b # c # d # _) =
     (case (hex_value a, hex_value b, hex_value c, hex_value d) of
        (Some w, Some x, Some y, Some z) \<Rightarrow> Some (4096 * w + 256 * x + 16 * y + z)
      | _ \<Rightarrow> None)"
| "hex4 _ = None"

definition utf8_encode :: "nat \<Rightarrow> string" where
  "utf8_encode r = map char_of
     (if r < 0x80 then [r]
      else if r < 0x800 then [0xC0 + r div 64, 0x80 + r mod 64]
      else if (0xD800 \<le> r \<and> r \<le> 0xDFFF) \<or> r > 0x10FFFF then [0xEF, 0xBF, 0xBD]
      else if r < 0x10000 then [0xE0 + r div 4096, 0x80 + r div 64 mod 64, 0x80 + r mod 64]
      else [0xF0 + r div 262144, 0x80 + r div 4096 mod 64, 0x80 + r div 64 mod 64, 0x80 + r mod 64])"

definition between :: "nat \<Rightarrow> nat \<Rightarrow> char \<Rightarrow> bool" where
  "between lo hi c \<longleftrightarrow> lo \<le> code c \<and> code c \<le> hi"

abbreviation cont :: "char \<Rightarrow> bool" where "cont \<equiv> between 0x80 0xBF"

text \<open>The width of the UTF-8 sequence at the front, or 0 where there is none.\<close>

definition utf8_width :: "string \<Rightarrow> nat" where
  "utf8_width s =
     (case s of
        a # b # c # d # _ \<Rightarrow>
          (if between 0xC2 0xDF a \<and> cont b then 2
           else if cont c \<and> ((code a = 0xE0 \<and> between 0xA0 0xBF b) \<or> (between 0xE1 0xEC a \<and> cont b) \<or>
                 (code a = 0xED \<and> between 0x80 0x9F b) \<or> (between 0xEE 0xEF a \<and> cont b)) then 3
           else if cont c \<and> cont d \<and> ((code a = 0xF0 \<and> between 0x90 0xBF b) \<or>
                 (between 0xF1 0xF3 a \<and> cont b) \<or> (code a = 0xF4 \<and> between 0x80 0x8F b)) then 4
           else 0)
      | [a, b, c] \<Rightarrow>
          (if between 0xC2 0xDF a \<and> cont b then 2
           else if cont c \<and> ((code a = 0xE0 \<and> between 0xA0 0xBF b) \<or> (between 0xE1 0xEC a \<and> cont b) \<or>
                 (code a = 0xED \<and> between 0x80 0x9F b) \<or> (between 0xEE 0xEF a \<and> cont b)) then 3
           else 0)
      | [a, b] \<Rightarrow> (if between 0xC2 0xDF a \<and> cont b then 2 else 0)
      | _ \<Rightarrow> 0)"

definition simple_escape :: "char \<Rightarrow> char option" where
  "simple_escape c =
     (if c = quote \<or> c = backslash \<or> c = CHR ''/'' then Some c
      else if c = CHR ''b'' then Some (CHR 0x08)
      else if c = CHR ''f'' then Some (CHR 0x0C)
      else if c = CHR ''n'' then Some (CHR 0x0A)
      else if c = CHR ''r'' then Some (CHR 0x0D)
      else if c = CHR ''t'' then Some (CHR 0x09)
      else None)"

definition prepend :: "string \<Rightarrow> (string \<times> string) option \<Rightarrow> (string \<times> string) option" where
  "prepend p = map_option (\<lambda>(s, r). (p @ s, r))"

text \<open>The rest of a string literal after its opening quote, and what follows the closing one.\<close>

function parse_str :: "string \<Rightarrow> (string \<times> string) option" where
  "parse_str s =
     (case s of [] \<Rightarrow> None
      | c # cs \<Rightarrow>
          if c = quote then Some ([], cs)
          else if c = backslash then
            (case cs of [] \<Rightarrow> None
             | e # es \<Rightarrow>
                 if e = CHR ''u'' then
                   (case hex4 es of None \<Rightarrow> None
                    | Some r \<Rightarrow>
                        if 0xD800 \<le> r \<and> r \<le> 0xDBFF \<and> take 2 (drop 4 es) = [backslash, CHR ''u'']
                          \<and> (\<exists>r2 \<in> set_option (hex4 (drop 6 es)). 0xDC00 \<le> r2 \<and> r2 \<le> 0xDFFF)
                        then prepend (utf8_encode (0x10000 + (r - 0xD800) * 1024
                               + (the (hex4 (drop 6 es)) - 0xDC00))) (parse_str (drop 10 es))
                        else prepend (utf8_encode r) (parse_str (drop 4 es)))
                 else (case simple_escape e of None \<Rightarrow> None
                       | Some x \<Rightarrow> prepend [x] (parse_str es)))
          else if code c < 0x20 then None
          else if code c < 0x80 then prepend [c] (parse_str cs)
          else if utf8_width s = 0 then prepend (utf8_encode 0xFFFD) (parse_str cs)
          else prepend (take (utf8_width s) s) (parse_str (drop (utf8_width s) s)))"
  by pat_completeness auto
termination
  by (relation "measure length") auto

declare parse_str.simps [simp del]

definition span :: "(char \<Rightarrow> bool) \<Rightarrow> string \<Rightarrow> string \<times> string" where
  "span P s = (takeWhile P s, dropWhile P s)"

text \<open>A number literal: sign, integer part, fraction, exponent.\<close>

definition parse_digits1 :: "string \<Rightarrow> (string \<times> string) option" where
  "parse_digits1 s = (let (d, r) = span is_digit s in if d = [] then None else Some (d, r))"

definition parse_int_part :: "string \<Rightarrow> (string \<times> string) option" where
  "parse_int_part s =
     (case eat (CHR ''0'') s of Some r \<Rightarrow> Some (''0'', r) | None \<Rightarrow> parse_digits1 s)"

definition parse_frac :: "string \<Rightarrow> (string \<times> string) option" where
  "parse_frac s =
     (case eat (CHR ''.'') s of Some r \<Rightarrow> prepend ''.'' (parse_digits1 r) | None \<Rightarrow> Some ([], s))"

definition parse_exp :: "string \<Rightarrow> (string \<times> string) option" where
  "parse_exp s =
     (case s of [] \<Rightarrow> Some ([], s)
      | c # r \<Rightarrow>
          if c = CHR ''e'' \<or> c = CHR ''E'' then
            (case r of [] \<Rightarrow> None
             | x # r' \<Rightarrow> if x = CHR ''+'' \<or> x = CHR ''-'' then prepend [c, x] (parse_digits1 r')
                         else prepend [c] (parse_digits1 r))
          else Some ([], s))"

definition and_then ::
  "(string \<times> string) option \<Rightarrow> (string \<Rightarrow> (string \<times> string) option) \<Rightarrow> (string \<times> string) option" where
  "and_then p q = (case p of None \<Rightarrow> None | Some (s, r) \<Rightarrow> prepend s (q r))"

definition parse_num :: "string \<Rightarrow> (string \<times> string) option" where
  "parse_num s =
     (case eat (CHR ''-'') s of
        Some r \<Rightarrow> prepend ''-'' (and_then (and_then (parse_int_part r) parse_frac) parse_exp)
      | None \<Rightarrow> and_then (and_then (parse_int_part s) parse_frac) parse_exp)"

definition literal :: "string \<Rightarrow> json \<Rightarrow> string \<Rightarrow> (json \<times> string) option" where
  "literal w v s = (if take (length w) s = w then Some (v, drop (length w) s) else None)"

definition max_depth :: nat where "max_depth = 10000"

text \<open>Values. Every call consumes a byte, so the length of the text is fuel enough.\<close>

fun parse_value :: "nat \<Rightarrow> nat \<Rightarrow> string \<Rightarrow> (json \<times> string) option"
  and parse_members :: "nat \<Rightarrow> nat \<Rightarrow> string \<Rightarrow> ((string \<times> json) list \<times> string) option"
  and parse_elems :: "nat \<Rightarrow> nat \<Rightarrow> string \<Rightarrow> (json list \<times> string) option" where
  "parse_value 0 d s = None"
| "parse_value (Suc n) d s =
     (case skip_ws s of [] \<Rightarrow> None
      | c # cs \<Rightarrow>
          if c = CHR ''{'' then
            (if d \<ge> max_depth then None
             else case eat (CHR ''}'') (skip_ws cs) of
               Some r \<Rightarrow> Some (JObj [], r)
             | None \<Rightarrow> map_option (\<lambda>(ms, r). (JObj ms, r)) (parse_members n (Suc d) cs))
          else if c = CHR ''['' then
            (if d \<ge> max_depth then None
             else case eat (CHR '']'') (skip_ws cs) of
               Some r \<Rightarrow> Some (JArr [], r)
             | None \<Rightarrow> map_option (\<lambda>(vs, r). (JArr vs, r)) (parse_elems n (Suc d) cs))
          else if c = quote then map_option (\<lambda>(t, r). (JStr t, r)) (parse_str cs)
          else if c = CHR ''t'' then literal ''true'' (JBool True) (c # cs)
          else if c = CHR ''f'' then literal ''false'' (JBool False) (c # cs)
          else if c = CHR ''n'' then literal ''null'' JNull (c # cs)
          else map_option (\<lambda>(t, r). (JNum t, r)) (parse_num (c # cs)))"
| "parse_members 0 d s = None"
| "parse_members (Suc n) d s =
     (case eat quote (skip_ws s) of None \<Rightarrow> None
      | Some cs \<Rightarrow>
          (case parse_str cs of None \<Rightarrow> None
           | Some (k, r) \<Rightarrow>
               (case eat (CHR '':'') (skip_ws r) of None \<Rightarrow> None
                | Some r1 \<Rightarrow>
                    (case parse_value n d r1 of None \<Rightarrow> None
                     | Some (v, r2) \<Rightarrow>
                         (case eat (CHR '','') (skip_ws r2) of
                            Some r3 \<Rightarrow>
                              map_option (\<lambda>(ms, r). ((k, v) # ms, r)) (parse_members n d r3)
                          | None \<Rightarrow>
                              map_option (\<lambda>r3. ([(k, v)], r3)) (eat (CHR ''}'') (skip_ws r2)))))))"
| "parse_elems 0 d s = None"
| "parse_elems (Suc n) d s =
     (case parse_value n d s of None \<Rightarrow> None
      | Some (v, r) \<Rightarrow>
          (case eat (CHR '','') (skip_ws r) of
             Some r1 \<Rightarrow> map_option (\<lambda>(vs, r). (v # vs, r)) (parse_elems n d r1)
           | None \<Rightarrow> map_option (\<lambda>r1. ([v], r1)) (eat (CHR '']'') (skip_ws r))))"

definition parse_json :: "string \<Rightarrow> json option" where
  "parse_json s =
     (case parse_value (Suc (length s)) 0 s of
        Some (v, r) \<Rightarrow> if skip_ws r = [] then Some v else None
      | None \<Rightarrow> None)"

text \<open>\<open>strconv.ParseInt\<close> and \<open>strconv.ParseUint\<close> on a number literal, base 10, 64 bits.\<close>

definition digits_value :: "string \<Rightarrow> nat" where
  "digits_value s = foldl (\<lambda>a c. 10 * a + (code c - 48)) 0 s"

definition parse_uint_lit :: "string \<Rightarrow> nat option" where
  "parse_uint_lit s =
     (if s \<noteq> [] \<and> list_all is_digit s \<and> digits_value s < 2 ^ 64 then Some (digits_value s) else None)"

definition parse_int_lit :: "string \<Rightarrow> int option" where
  "parse_int_lit s =
     (case s of [] \<Rightarrow> None
      | c # cs \<Rightarrow>
          (let ds = (if c = CHR ''-'' then cs else s);
               v = (if c = CHR ''-'' then - int (digits_value ds) else int (digits_value ds))
           in if ds \<noteq> [] \<and> list_all is_digit ds \<and> in_i64 v then Some v else None))"

section \<open>Encoding\<close>

fun show_nat :: "nat \<Rightarrow> string" where
  "show_nat n = (if n < 10 then [char_of (48 + n)] else show_nat (n div 10) @ [char_of (48 + n mod 10)])"

declare show_nat.simps [simp del]

definition show_int :: "int \<Rightarrow> string" where
  "show_int i = (if i < 0 then CHR ''-'' # show_nat (nat (- i)) else show_nat (nat i))"

definition show_bool :: "bool \<Rightarrow> string" where
  "show_bool b = (if b then ''true'' else ''false'')"

definition hex_low :: "nat \<Rightarrow> char" where
  "hex_low n = ''0123456789abcdef'' ! n"

text \<open>The encoder's string escapes, HTML characters included; U+2028 and U+2029 as well.\<close>

function escape :: "string \<Rightarrow> string" where
  "escape s =
     (case s of [] \<Rightarrow> []
      | c # cs \<Rightarrow>
          if c = quote \<or> c = backslash then backslash # c # escape cs
          else if code c = 0x08 then backslash # CHR ''b'' # escape cs
          else if code c = 0x0C then backslash # CHR ''f'' # escape cs
          else if code c = 0x0A then backslash # CHR ''n'' # escape cs
          else if code c = 0x0D then backslash # CHR ''r'' # escape cs
          else if code c = 0x09 then backslash # CHR ''t'' # escape cs
          else if code c < 0x20 \<or> c = CHR ''<'' \<or> c = CHR ''>'' \<or> c = CHR ''&'' then
            backslash # ''u00'' @ [hex_low (code c div 16), hex_low (code c mod 16)] @ escape cs
          else if code c < 0x80 then c # escape cs
          else if utf8_width s = 0 then backslash # ''ufffd'' @ escape cs
          else if take 3 s = utf8_encode 0x2028 then backslash # ''u2028'' @ escape (drop 3 s)
          else if take 3 s = utf8_encode 0x2029 then backslash # ''u2029'' @ escape (drop 3 s)
          else take (utf8_width s) s @ escape (drop (utf8_width s) s))"
  by pat_completeness auto
termination
  by (relation "measure length") auto

declare escape.simps [simp del]

definition show_string :: "string \<Rightarrow> string" where
  "show_string s = quote # escape s @ [quote]"

section \<open>Strings and integers survive the round trip\<close>

text \<open>Characters that need no escape.\<close>

definition plain :: "char \<Rightarrow> bool" where
  "plain c \<longleftrightarrow> 0x20 \<le> code c \<and> code c < 0x80 \<and> c \<noteq> quote \<and> c \<noteq> backslash \<and>
     c \<noteq> CHR ''<'' \<and> c \<noteq> CHR ''>'' \<and> c \<noteq> CHR ''&''"

lemma escape_plain: "list_all plain s \<Longrightarrow> escape s = s"
proof (induction s)
  case (Cons c s)
  then show ?case by (subst escape.simps) (simp add: plain_def)
qed (simp add: escape.simps)

lemma parse_str_plain: "list_all plain s \<Longrightarrow> parse_str (s @ quote # r) = Some (s, r)"
proof (induction s)
  case (Cons c s)
  then show ?case by (subst parse_str.simps) (simp add: plain_def prepend_def)
qed (simp add: parse_str.simps)


lemma show_nat_snoc: "10 \<le> n \<Longrightarrow> show_nat n = show_nat (n div 10) @ [char_of (48 + n mod 10)]"
  by (subst show_nat.simps) simp

lemma show_nat_digit: "n < 10 \<Longrightarrow> show_nat n = [char_of (48 + n)]"
  by (subst show_nat.simps) simp

lemma digit_char: "d < 10 \<Longrightarrow> code (char_of (48 + d)) = 48 + d"
  by simp

lemma is_digit_char: "d < (10 :: nat) \<Longrightarrow> is_digit (char_of (48 + d))"
  by (simp add: is_digit_def)

lemma show_nat_digits: "list_all is_digit (show_nat n) \<and> show_nat n \<noteq> []"
proof (induction n rule: show_nat.induct)
  case (1 n)
  then show ?case
    by (cases "n < 10") (simp_all add: show_nat_digit show_nat_snoc is_digit_char)
qed

lemma digits_value_show_nat: "digits_value (show_nat n) = n"
proof (induction n rule: show_nat.induct)
  case (1 n)
  then show ?case
    by (cases "n < 10") (simp_all add: show_nat_digit show_nat_snoc digits_value_def)
qed

text \<open>The leading digit is zero for zero only, so that the literal is a JSON number.\<close>

lemma show_nat_lead: "0 < n \<Longrightarrow> \<exists>c cs. show_nat n = c # cs \<and> c \<noteq> CHR ''0''"
proof (induction n rule: show_nat.induct)
  case (1 n)
  show ?case
  proof (cases "n < 10")
    case True
    have "code (char_of (48 + n)) \<noteq> code (CHR ''0'')" using True 1 by simp
    then have "(char_of (48 + n) :: char) \<noteq> CHR ''0''" by metis
    then show ?thesis using True by (simp add: show_nat_digit)
  next
    case False
    then have "0 < n div 10" by (simp add: div_greater_zero_iff)
    with "1.IH" [OF False] obtain c cs where "show_nat (n div 10) = c # cs" "c \<noteq> CHR ''0''"
      by blast
    with False show ?thesis by (simp add: show_nat_snoc)
  qed
qed

lemma show_nat_0 [simp]: "show_nat 0 = ''0''"
proof -
  have "(char_of (48 :: nat) :: char) = CHR ''0''" by code_simp
  then show ?thesis by (simp add: show_nat_digit)
qed

definition ends_number :: "string \<Rightarrow> bool" where
  "ends_number r \<longleftrightarrow> r = [] \<or> hd r = CHR '','' \<or> hd r = CHR ''}''"

lemma ends_number_stop:
  assumes "ends_number r"
  shows "takeWhile is_digit r = []" "dropWhile is_digit r = r" "parse_frac r = Some ([], r)"
    "parse_exp r = Some ([], r)"
  using assms
  by (cases r; auto simp: ends_number_def is_digit_def parse_frac_def parse_exp_def)+

lemma digit_not_sign: "is_digit c \<Longrightarrow> c \<noteq> CHR ''-''"
  by (auto simp: is_digit_def)

lemma parse_digits_show:
  assumes "ends_number r"
  shows "parse_int_part (show_nat n @ r) = Some (show_nat n, r)"
proof (cases "n = 0")
  case True
  then show ?thesis by (simp add: parse_int_part_def)
next
  case False
  then obtain c cs where c: "show_nat n = c # cs" "c \<noteq> CHR ''0''" using show_nat_lead by blast
  have d: "list_all is_digit (c # cs)" using show_nat_digits [of n] c by simp
  have "takeWhile is_digit (show_nat n @ r) = show_nat n"
    "dropWhile is_digit (show_nat n @ r) = r"
    using d ends_number_stop [OF assms]
    by (simp_all add: c list_all_iff takeWhile_append dropWhile_append)
  then have "parse_digits1 (show_nat n @ r) = Some (show_nat n, r)"
    by (simp add: parse_digits1_def span_def c)
  then show ?thesis using c by (simp add: parse_int_part_def)
qed

lemma parse_num_show_nat:
  assumes "ends_number r"
  shows "and_then (and_then (parse_int_part (show_nat n @ r)) parse_frac) parse_exp
    = Some (show_nat n, r)"
  by (simp add: parse_digits_show [OF assms] and_then_def prepend_def ends_number_stop [OF assms])

lemma parse_num_show_int:
  assumes "ends_number r"
  shows "parse_num (show_int i @ r) = Some (show_int i, r)"
proof (cases "i < 0")
  case True
  then show ?thesis
    using parse_num_show_nat [OF assms] by (simp add: show_int_def parse_num_def prepend_def)
next
  case False
  obtain c cs where c: "show_nat (nat i) = c # cs" "is_digit c"
    using show_nat_digits [of "nat i"] by (cases "show_nat (nat i)") auto
  then have "c \<noteq> CHR ''-''" by (auto dest: digit_not_sign)
  then have "parse_num (show_nat (nat i) @ r) = Some (show_nat (nat i), r)"
    using parse_num_show_nat [OF assms, of "nat i"] c(1)
    by (simp add: parse_num_def)
  then show ?thesis using False by (simp add: show_int_def)
qed

lemma parse_int_lit_show: "in_i64 i \<Longrightarrow> parse_int_lit (show_int i) = Some i"
proof -
  assume i: "in_i64 i"
  obtain c cs where c: "show_nat (nat \<bar>i\<bar>) = c # cs" "is_digit c"
    using show_nat_digits [of "nat \<bar>i\<bar>"] by (cases "show_nat (nat \<bar>i\<bar>)") auto
  have d: "list_all is_digit (c # cs)" "digits_value (c # cs) = nat \<bar>i\<bar>"
    using show_nat_digits [of "nat \<bar>i\<bar>"] digits_value_show_nat [of "nat \<bar>i\<bar>"] c(1) by simp_all
  show ?thesis
  proof (cases "i < 0")
    case True
    then have "show_int i = CHR ''-'' # c # cs" using c(1) by (simp add: show_int_def)
    then show ?thesis using d i True by (simp add: parse_int_lit_def)
  next
    case False
    then have "show_int i = c # cs" using c(1) by (simp add: show_int_def)
    then show ?thesis using d i False digit_not_sign [OF c(2)] by (simp add: parse_int_lit_def)
  qed
qed

lemma parse_uint_lit_show: "n < 2 ^ 64 \<Longrightarrow> parse_uint_lit (show_nat n) = Some n"
  using show_nat_digits [of n] by (simp add: parse_uint_lit_def digits_value_show_nat)

end
