(* ===== verification/Codec.thy ===== *)
theory Codec
  imports Message Wal_Record Go_Json
begin

text \<open>
  \<open>internal/queue/codec.go\<close>: the binary payload of ENQUEUE and DEDUP records and the JSON payload
  of META records. A decoder works on the whole buffer and an offset, as the Go code does; times
  go through \<open>UnixNano\<close>, which keeps the low 64 bits.
\<close>

section \<open>Strings with a 16-bit length\<close>

definition messageFormatVersion :: byte where
  "messageFormatVersion = 2"

definition appendString16 :: "byte list \<Rightarrow> string \<Rightarrow> byte list" where
  "appendString16 dst s = dst @ le_bytes 2 (of_nat (length s) :: u16) @ bytes_of s"

definition readString16 :: "byte list \<Rightarrow> nat \<Rightarrow> go_error + string \<times> nat" where
  "readString16 b p =
     (if p + 2 > length b then Inl ErrShortPayload
      else let n = unat (le_word (take 2 (drop p b)) :: u16); p = p + 2
      in if p + n > length b then Inl ErrShortPayload
         else Inr (string_of (take n (drop p b)), p + n))"

text \<open>\<open>binary.LittleEndian.Uint64(b[p:])\<close> and \<open>Uint32\<close>.\<close>

definition get64 :: "byte list \<Rightarrow> nat \<Rightarrow> u64" where
  "get64 b p = le_word (take 8 (drop p b))"

definition get32 :: "byte list \<Rightarrow> nat \<Rightarrow> u32" where
  "get32 b p = le_word (take 4 (drop p b))"

text \<open>\<open>t.UnixNano()\<close> as a \<open>uint64\<close> and \<open>time.Unix(0, int64(w))\<close>.\<close>

definition UnixNano :: "gotime \<Rightarrow> u64" where
  "UnixNano t = word_of_int t"

definition time_Unix :: "u64 \<Rightarrow> gotime" where
  "time_Unix w = sint w"

section \<open>Messages\<close>

definition encodeMessage :: "message \<Rightarrow> byte list" where
  "encodeMessage m =
     (let buf = [messageFormatVersion];
          buf = buf @ le_bytes 8 (m_Seq m);
          buf = buf @ le_bytes 8 (word_of_int (m_Priority m) :: u64);
          buf = buf @ le_bytes 8 (UnixNano (m_VisibleAt m));
          buf = buf @ le_bytes 8 (UnixNano (m_CreatedAt m));
          buf = buf @ le_bytes 4 (word_of_int (m_Attempts m) :: u32);
          flags = (if m_state m = stateDead then 1 else 0);
          buf = buf @ [flags];
          buf = appendString16 buf (m_ID m);
          buf = appendString16 buf (m_DedupID m);
          buf = buf @ le_bytes 4 (of_nat (length (m_Payload m)) :: u32)
      in buf @ m_Payload m)"

text \<open>The priority check compares an \<open>int64\<close> with itself on a 64-bit platform.\<close>

definition decodeMessage :: "byte list \<Rightarrow> go_error + message" where
  "decodeMessage b =
     (if length b < 38 then Inl ErrShortPayload
      else if b ! 0 \<noteq> messageFormatVersion then Inl (ErrVersion (b ! 0))
      else let seq = get64 b 1;
               priority = sint (get64 b 9)
      in if i64 priority \<noteq> priority then Inl (ErrPriorityRange priority)
      else let visible = time_Unix (get64 b 17);
               created = time_Unix (get64 b 25);
               attempts = int (unat (get32 b 33));
               flags = b ! 37
      in bindE (readString16 b 38) (\<lambda>(mid, p).
         bindE (readString16 b p) (\<lambda>(did, p).
         if p + 4 > length b then Inl ErrShortPayload
         else let n = unat (get32 b p); p = p + 4
         in if p + n > length b then Inl ErrShortPayload
         else let payload = take n (drop p b)
         in if mid = [] then Inl ErrEmptyID
         else Inr \<lparr>m_ID = mid, m_DedupID = did, m_Seq = seq, m_Priority = priority,
                m_VisibleAt = visible, m_Payload = payload, m_Attempts = attempts,
                m_CreatedAt = created,
                m_state = (if bit flags 0 then stateDead else stateReady),
                m_index = 0, m_effPriority = priority, m_deadline = zero_time\<rparr>)))"

section \<open>Deduplication entries\<close>

record dedupEntry =
  e_DedupID :: string
  e_MessageID :: string
  e_ExpiresAt :: gotime

definition encodeDedup :: "dedupEntry \<Rightarrow> byte list" where
  "encodeDedup e =
     appendString16 (appendString16 [] (e_DedupID e)) (e_MessageID e) @
       le_bytes 8 (UnixNano (e_ExpiresAt e))"

definition decodeDedup :: "byte list \<Rightarrow> go_error + dedupEntry" where
  "decodeDedup b =
     bindE (readString16 b 0) (\<lambda>(did, p).
     bindE (readString16 b p) (\<lambda>(mid, p).
     if p + 8 > length b then Inl ErrShortPayload
     else Inr \<lparr>e_DedupID = did, e_MessageID = mid, e_ExpiresAt = time_Unix (get64 b p)\<rparr>))"

section \<open>Configurations\<close>

text \<open>\<open>json.Marshal\<close> of a \<open>Config\<close>: the fields in declaration order, \<open>next_seq\<close> left out when 0.\<close>

definition config_members :: "config \<Rightarrow> (string \<times> string) list" where
  "config_members c =
     [(''name'', show_string (c_Name c)),
      (''ordering'', show_string (c_Ordering c)),
      (''priority_enabled'', show_bool (c_PriorityEnabled c)),
      (''max_attempts'', show_int (c_MaxAttempts c)),
      (''default_visibility_timeout_ms'', show_int (c_DefaultVisibilityTimeoutMS c)),
      (''aging_interval_ms'', show_int (c_AgingIntervalMS c)),
      (''aging_max_boost'', show_int (c_AgingMaxBoost c)),
      (''dedup_window_ms'', show_int (c_DedupWindowMS c))] @
     (if c_NextSeq c = 0 then [] else [(''next_seq'', show_nat (unat (c_NextSeq c)))])"

fun show_members :: "(string \<times> string) list \<Rightarrow> string" where
  "show_members [] = ''}''"
| "show_members [(k, v)] = show_string k @ '':'' @ v @ ''}''"
| "show_members ((k, v) # ms) = show_string k @ '':'' @ v @ '','' @ show_members ms"

definition encodeConfig :: "config \<Rightarrow> byte list" where
  "encodeConfig c = bytes_of (CHR ''{'' # show_members (config_members c))"

text \<open>
  \<open>json.Unmarshal\<close> into a \<open>Config\<close>. A key selects its field up to letter case, with the two
  letters outside ASCII that fold into it; unknown keys are skipped, \<open>null\<close> leaves a field
  alone, a later key overwrites an earlier one, and a value of the wrong type makes the whole
  call fail.
\<close>

fun fold_key :: "string \<Rightarrow> string" where
  "fold_key (a # b # c # s) =
     (if code a = 0xC5 \<and> code b = 0xBF then CHR ''s'' # fold_key (c # s)
      else if code a = 0xE2 \<and> code b = 0x84 \<and> code c = 0xAA then CHR ''k'' # fold_key s
      else (if 65 \<le> code a \<and> code a \<le> 90 then char_of (code a + 32) else a) # fold_key (b # c # s))"
| "fold_key [a, b] =
     (if code a = 0xC5 \<and> code b = 0xBF then ''s''
      else (if 65 \<le> code a \<and> code a \<le> 90 then char_of (code a + 32) else a) # fold_key [b])"
| "fold_key [a] = [if 65 \<le> code a \<and> code a \<le> 90 then char_of (code a + 32) else a]"
| "fold_key [] = []"

definition json_string :: "json \<Rightarrow> string \<Rightarrow> string option" where
  "json_string v old = (case v of JNull \<Rightarrow> Some old | JStr s \<Rightarrow> Some s | _ \<Rightarrow> None)"

definition json_bool :: "json \<Rightarrow> bool \<Rightarrow> bool option" where
  "json_bool v old = (case v of JNull \<Rightarrow> Some old | JBool b \<Rightarrow> Some b | _ \<Rightarrow> None)"

definition json_int :: "json \<Rightarrow> int \<Rightarrow> int option" where
  "json_int v old = (case v of JNull \<Rightarrow> Some old | JNum s \<Rightarrow> parse_int_lit s | _ \<Rightarrow> None)"

definition json_uint :: "json \<Rightarrow> u64 \<Rightarrow> u64 option" where
  "json_uint v old =
     (case v of JNull \<Rightarrow> Some old | JNum s \<Rightarrow> map_option of_nat (parse_uint_lit s) | _ \<Rightarrow> None)"

definition set_member :: "string \<times> json \<Rightarrow> config \<Rightarrow> config option" where
  "set_member kv c =
     (let k = fold_key (fst kv); v = snd kv
      in if k = ''name'' then map_option (\<lambda>x. c\<lparr>c_Name := x\<rparr>) (json_string v (c_Name c))
      else if k = ''ordering'' then map_option (\<lambda>x. c\<lparr>c_Ordering := x\<rparr>) (json_string v (c_Ordering c))
      else if k = ''priority_enabled'' then
        map_option (\<lambda>x. c\<lparr>c_PriorityEnabled := x\<rparr>) (json_bool v (c_PriorityEnabled c))
      else if k = ''max_attempts'' then
        map_option (\<lambda>x. c\<lparr>c_MaxAttempts := x\<rparr>) (json_int v (c_MaxAttempts c))
      else if k = ''default_visibility_timeout_ms'' then
        map_option (\<lambda>x. c\<lparr>c_DefaultVisibilityTimeoutMS := x\<rparr>)
          (json_int v (c_DefaultVisibilityTimeoutMS c))
      else if k = ''aging_interval_ms'' then
        map_option (\<lambda>x. c\<lparr>c_AgingIntervalMS := x\<rparr>) (json_int v (c_AgingIntervalMS c))
      else if k = ''aging_max_boost'' then
        map_option (\<lambda>x. c\<lparr>c_AgingMaxBoost := x\<rparr>) (json_int v (c_AgingMaxBoost c))
      else if k = ''dedup_window_ms'' then
        map_option (\<lambda>x. c\<lparr>c_DedupWindowMS := x\<rparr>) (json_int v (c_DedupWindowMS c))
      else if k = ''next_seq'' then
        map_option (\<lambda>x. c\<lparr>c_NextSeq := x\<rparr>) (json_uint v (c_NextSeq c))
      else Some c)"

fun set_members :: "(string \<times> json) list \<Rightarrow> config \<Rightarrow> config option" where
  "set_members [] c = Some c"
| "set_members (kv # kvs) c =
     (case set_member kv c of None \<Rightarrow> None | Some c' \<Rightarrow> set_members kvs c')"

definition zero_config :: config where
  "zero_config = \<lparr>c_Name = '''', c_Ordering = '''', c_PriorityEnabled = False, c_MaxAttempts = 0,
     c_DefaultVisibilityTimeoutMS = 0, c_AgingIntervalMS = 0, c_AgingMaxBoost = 0,
     c_DedupWindowMS = 0, c_NextSeq = 0\<rparr>"

definition decodeConfig :: "byte list \<Rightarrow> go_error + config" where
  "decodeConfig b =
     (case parse_json (string_of b) of
        Some JNull \<Rightarrow> Inr zero_config
      | Some (JObj ms) \<Rightarrow>
          (case set_members ms zero_config of Some c \<Rightarrow> Inr c | None \<Rightarrow> Inl ErrJSON)
      | _ \<Rightarrow> Inl ErrJSON)"

section \<open>Round trips\<close>

lemma string_of_Nil [simp]: "string_of [] = []" and length_string_of [simp]: "length (string_of b) = length b"
  by (simp_all add: string_of_def)

lemma bytes_of_string_of [simp]: "bytes_of (string_of b) = b"
proof -
  have "unat (x :: byte) mod 256 = unat x" for x
    using unat_bound [of x] by simp
  then show ?thesis by (simp add: bytes_of_def string_of_def comp_def)
qed

lemma readString16_append:
  assumes "length s < 65536"
  shows "readString16 (appendString16 pre s @ rest) (length pre)
    = Inr (s, length (appendString16 pre s))"
proof -
  have "unat (of_nat (length s) :: u16) = length s" using assms by (simp add: unat_of_nat)
  then show ?thesis by (simp add: readString16_def appendString16_def Let_def)
qed

lemma length_appendString16 [simp]: "length (appendString16 dst s) = length dst + 2 + length s"
  by (simp add: appendString16_def)

lemma time_Unix_UnixNano: "in_i64 t \<Longrightarrow> time_Unix (UnixNano t) = t"
  using i64_id [of t] by (simp add: time_Unix_def UnixNano_def i64_def)

text \<open>What is on disk of a message, and the message a decoder builds from that.\<close>

definition storable :: "message \<Rightarrow> bool" where
  "storable m \<longleftrightarrow> m_ID m \<noteq> [] \<and> length (m_ID m) < 65536 \<and> length (m_DedupID m) < 65536 \<and>
     length (m_Payload m) < 2 ^ 32 \<and> in_i64 (m_Priority m) \<and> in_i64 (m_VisibleAt m) \<and>
     in_i64 (m_CreatedAt m) \<and> 0 \<le> m_Attempts m \<and> m_Attempts m < 2 ^ 32"

definition reloaded :: "message \<Rightarrow> message" where
  "reloaded m = m\<lparr>m_state := (if m_state m = stateDead then stateDead else stateReady),
     m_index := 0, m_effPriority := m_Priority m, m_deadline := zero_time\<rparr>"

text \<open>The fixed 38 bytes of a message record.\<close>

definition message_fixed :: "message \<Rightarrow> byte list" where
  "message_fixed m = messageFormatVersion # le_bytes 8 (m_Seq m) @
     le_bytes 8 (word_of_int (m_Priority m) :: u64) @ le_bytes 8 (UnixNano (m_VisibleAt m)) @
     le_bytes 8 (UnixNano (m_CreatedAt m)) @ le_bytes 4 (word_of_int (m_Attempts m) :: u32) @
     [if m_state m = stateDead then 1 else 0]"

lemma length_message_fixed [simp]: "length (message_fixed m) = 38"
  by (simp add: message_fixed_def)

lemma encodeMessage_parts:
  "encodeMessage m =
     appendString16 (appendString16 (message_fixed m) (m_ID m)) (m_DedupID m) @
       le_bytes 4 (of_nat (length (m_Payload m)) :: u32) @ m_Payload m"
  by (simp add: encodeMessage_def message_fixed_def Let_def)

lemma message_fixed_fields:
  "(message_fixed m @ r) ! 0 = messageFormatVersion"
  "get64 (message_fixed m @ r) 1 = m_Seq m"
  "get64 (message_fixed m @ r) 9 = word_of_int (m_Priority m)"
  "get64 (message_fixed m @ r) 17 = UnixNano (m_VisibleAt m)"
  "get64 (message_fixed m @ r) 25 = UnixNano (m_CreatedAt m)"
  "get32 (message_fixed m @ r) 33 = word_of_int (m_Attempts m)"
  "(message_fixed m @ r) ! 37 = (if m_state m = stateDead then 1 else 0)"
  by (simp_all add: message_fixed_def get64_def get32_def nth_append)

lemma i64_sint [simp]: "i64 (sint (w :: u64)) = sint w"
  by (simp add: i64_def)

lemma int_unat_u32: "0 \<le> x \<Longrightarrow> x < 2 ^ 32 \<Longrightarrow> int (unat (word_of_int x :: u32)) = x"
  by (simp add: unsigned_of_int take_bit_int_eq_self_iff)

lemma decodeMessage_encodeMessage:
  assumes "storable m"
  shows "decodeMessage (encodeMessage m) = Inr (reloaded m)"
proof -
  let ?h = "message_fixed m"
  let ?p1 = "appendString16 ?h (m_ID m)"
  let ?p2 = "appendString16 ?p1 (m_DedupID m)"
  let ?tail = "le_bytes 4 (of_nat (length (m_Payload m)) :: u32) @ m_Payload m"
  let ?b = "encodeMessage m"
  have b: "?b = ?p2 @ ?tail" by (rule encodeMessage_parts)
  have b1: "?b = ?p1 @ le_bytes 2 (of_nat (length (m_DedupID m)) :: u16) @ bytes_of (m_DedupID m) @ ?tail"
    by (simp add: b appendString16_def)
  have b0: "?b = ?h @ le_bytes 2 (of_nat (length (m_ID m)) :: u16) @ bytes_of (m_ID m) @
      le_bytes 2 (of_nat (length (m_DedupID m)) :: u16) @ bytes_of (m_DedupID m) @ ?tail"
    by (simp add: b1 appendString16_def)
  have r1: "readString16 ?b 38 = Inr (m_ID m, length ?p1)"
    using readString16_append [of "m_ID m" ?h] assms
    by (simp add: b1 storable_def del: length_appendString16)
  have r2: "readString16 ?b (length ?p1) = Inr (m_DedupID m, length ?p2)"
    using readString16_append [of "m_DedupID m" ?p1] assms
    by (simp add: b storable_def del: length_appendString16)
  have n: "unat (get32 ?b (length ?p2)) = length (m_Payload m)"
    using assms by (simp add: b get32_def storable_def unat_of_nat del: length_appendString16)
  have len: "length ?b = length ?p2 + 4 + length (m_Payload m)"
    by (simp add: b del: length_appendString16)
  have "38 \<le> length ?b" by (simp add: len)
  moreover have "take (length (m_Payload m)) (drop (length ?p2 + 4) ?b) = m_Payload m"
    by (simp add: b del: length_appendString16)
  moreover note F = message_fixed_fields [of m "le_bytes 2 (of_nat (length (m_ID m)) :: u16) @
      bytes_of (m_ID m) @ le_bytes 2 (of_nat (length (m_DedupID m)) :: u16) @
      bytes_of (m_DedupID m) @ ?tail", folded b0]
  moreover have "sint (word_of_int (m_Priority m) :: u64) = m_Priority m"
    using assms i64_id [of "m_Priority m"] by (simp add: storable_def i64_def)
  moreover have "uint (word_of_int (m_Attempts m) :: u32) = m_Attempts m"
    using assms int_unat_u32 [of "m_Attempts m"] by (simp add: storable_def)
  ultimately show ?thesis
    using assms
    by (simp add: decodeMessage_def Let_def r1 r2 n len storable_def time_Unix_UnixNano
        reloaded_def del: length_appendString16)
qed

lemma decodeDedup_encodeDedup:
  assumes "length (e_DedupID e) < 65536" and "length (e_MessageID e) < 65536"
    and "in_i64 (e_ExpiresAt e)"
  shows "decodeDedup (encodeDedup e) = Inr e"
proof -
  let ?p1 = "appendString16 [] (e_DedupID e)"
  let ?p2 = "appendString16 ?p1 (e_MessageID e)"
  let ?b = "encodeDedup e"
  have b: "?b = ?p2 @ le_bytes 8 (UnixNano (e_ExpiresAt e))" by (simp add: encodeDedup_def)
  then have b1: "?b = ?p1 @ le_bytes 2 (of_nat (length (e_MessageID e)) :: u16) @
      bytes_of (e_MessageID e) @ le_bytes 8 (UnixNano (e_ExpiresAt e))"
    by (simp add: appendString16_def)
  have "readString16 ?b 0 = Inr (e_DedupID e, length ?p1)"
    using readString16_append [OF assms(1), of "[]"] by (simp add: b1 del: length_appendString16)
  moreover have "readString16 ?b (length ?p1) = Inr (e_MessageID e, length ?p2)"
    using readString16_append [OF assms(2), of ?p1] by (simp add: b del: length_appendString16)
  moreover have "get64 ?b (length ?p2) = UnixNano (e_ExpiresAt e)"
    by (simp add: b get64_def del: length_appendString16)
  moreover have "length ?b = length ?p2 + 8" by (simp add: b del: length_appendString16)
  ultimately show ?thesis
    using assms(3) by (simp add: decodeDedup_def time_Unix_UnixNano del: length_appendString16)
qed

text \<open>Every message a decoder accepts can be stored again, and reads back as itself.\<close>

lemma readString16_bounds:
  "readString16 b p = Inr (s, p') \<Longrightarrow> length s < 65536"
  using unat_bound [of "le_word (take 2 (drop p b)) :: u16"]
  by (auto simp: readString16_def Let_def split: if_splits)

lemma in_i64_sint [simp]: "in_i64 (sint (w :: u64))"
  using in_i64_i64 [of "uint w"] by (simp add: i64_def)

lemma decodeMessage_storable:
  assumes "decodeMessage b = Inr m"
  shows "storable m" and "reloaded m = m"
proof -
  have a: "unat (get32 b q) < 2 ^ 32" for q
    using unat_bound [of "get32 b q"] by simp
  have u: "uint (get32 b q) < 4294967296" for q
  proof -
    have "int (unat (get32 b q)) < int (2 ^ 32)" using a [of q] by (simp only: of_nat_less_iff)
    then show ?thesis by simp
  qed
  from assms show "reloaded m = m"
    by (auto simp: decodeMessage_def Let_def bindE_eq_Inr reloaded_def split: if_splits)
  from assms show "storable m"
    using u a
    by (auto simp: decodeMessage_def Let_def bindE_eq_Inr storable_def time_Unix_def
        min_less_iff_disj dest!: readString16_bounds split: if_splits)
qed

text \<open>A configuration survives the JSON of its META record.\<close>

definition show_member :: "string \<times> string \<Rightarrow> string" where
  "show_member kv = show_string (fst kv) @ '':'' @ snd kv"

lemma show_members_Cons:
  "ms \<noteq> [] \<Longrightarrow> show_members (kv # ms) = show_member kv @ CHR '','' # show_members ms"
  "show_members [kv] = show_member kv @ ''}''"
  by (cases kv; cases ms; simp add: show_member_def)+

lemma skip_ws_stop [simp]: "\<not> is_ws c \<Longrightarrow> skip_ws (c # s) = c # s"
  by (simp add: skip_ws_def)

lemma not_ws [simp]: "\<not> is_ws quote" "\<not> is_ws (CHR '','')" "\<not> is_ws (CHR '':'')" "\<not> is_ws (CHR ''}'')"
  "\<not> is_ws (CHR ''{'')" "\<not> is_ws (CHR ''t'')" "\<not> is_ws (CHR ''f'')" "\<not> is_ws (CHR ''-'')"
  by (simp_all add: is_ws_def)

text \<open>\<open>tx\<close> is a text for the value \<open>v\<close>, whatever member follows it.\<close>

definition renders :: "string \<Rightarrow> json \<Rightarrow> bool" where
  "renders tx v \<longleftrightarrow> (\<forall>n d r. r \<noteq> [] \<longrightarrow> ends_number r \<longrightarrow> parse_value (Suc n) d (tx @ r) = Some (v, r))"

lemma parse_member:
  assumes "list_all plain k" and "renders tx v" and "r \<noteq> []" and "ends_number r" and "0 < n"
  shows "parse_members (Suc n) d (show_member (k, tx) @ r) =
     (case eat (CHR '','') r of
        Some r3 \<Rightarrow> map_option (\<lambda>(ms, r). ((k, v) # ms, r)) (parse_members n d r3)
      | None \<Rightarrow> map_option (\<lambda>r3. ([(k, v)], r3)) (eat (CHR ''}'') r))"
proof -
  obtain m where n: "n = Suc m" using assms(5) by (cases n) auto
  have "\<not> is_ws (hd r)" using assms(3,4) by (auto simp: ends_number_def)
  then have "skip_ws r = r" using assms(3) by (cases r) simp_all
  moreover have "parse_value n d (tx @ r) = Some (v, r)"
    using assms(2-4) by (simp add: n renders_def)
  moreover have "parse_str (k @ quote # CHR '':'' # tx @ r) = Some (k, CHR '':'' # tx @ r)"
    using assms(1) by (rule parse_str_plain)
  ultimately show ?thesis
    using assms(1)
    by (simp add: show_member_def show_string_def escape_plain cong: option.case_cong)
qed

lemma parse_members_show:
  assumes "list_all2 (\<lambda>(k, tx) (k', v). list_all plain k \<and> k' = k \<and> renders tx v) kvs ms"
    and "kvs \<noteq> []" and "length kvs < n"
  shows "parse_members n d (show_members kvs) = Some (ms, [])"
  using assms
proof (induction kvs arbitrary: ms n)
  case (Cons kv kvs)
  obtain k tx where kv: "kv = (k, tx)" by (cases kv)
  from Cons.prems(1) obtain v ms' where ms: "ms = (k, v) # ms'" "list_all plain k" "renders tx v"
    "list_all2 (\<lambda>(k, tx) (k', v). list_all plain k \<and> k' = k \<and> renders tx v) kvs ms'"
    by (auto simp: kv list_all2_Cons1)
  obtain n' where n: "n = Suc n'" "0 < n'" "length kvs < n'"
    using Cons.prems(3) by (cases n) auto
  show ?case
  proof (cases "kvs = []")
    case True
    then have "ms' = []" using ms(4) by simp
    then show ?thesis
      using parse_member [OF ms(2,3) _ _ n(2), of "''}''" d] True
      by (simp add: n(1) ms(1) kv show_members_Cons ends_number_def)
  next
    case False
    from Cons.IH [OF ms(4) False n(3)]
    show ?thesis
      using parse_member [OF ms(2,3) _ _ n(2), of "CHR '','' # show_members kvs" d] False
      by (simp add: n(1) ms(1) kv show_members_Cons ends_number_def)
  qed
qed simp

lemma renders_string: "list_all plain s \<Longrightarrow> renders (show_string s) (JStr s)"
  by (simp add: renders_def show_string_def escape_plain parse_str_plain)

lemma renders_bool: "renders (show_bool b) (JBool b)"
  by (simp add: renders_def show_bool_def literal_def)

lemma number_start:
  assumes "is_digit c \<or> c = CHR ''-''"
  shows "\<not> is_ws c" "c \<noteq> CHR ''{''" "c \<noteq> CHR ''[''" "c \<noteq> quote" "c \<noteq> CHR ''t''" "c \<noteq> CHR ''f''"
    "c \<noteq> CHR ''n''"
  using assms by (auto simp: is_digit_def is_ws_def)

lemma renders_int: "renders (show_int i) (JNum (show_int i))"
proof -
  obtain c cs where c: "show_int i = c # cs" "is_digit c \<or> c = CHR ''-''"
    using show_nat_digits [of "nat i"]
    by (cases "i < 0"; cases "show_nat (nat i)") (auto simp: show_int_def)
  note N = number_start [OF c(2)]
  show ?thesis
    unfolding renders_def
    using parse_num_show_int [of _ i] N by (simp add: c(1))
qed

lemma renders_nat: "renders (show_nat n) (JNum (show_nat n))"
  using renders_int [of "int n"] by (simp add: show_int_def)

definition config_values :: "config \<Rightarrow> (string \<times> json) list" where
  "config_values c =
     [(''name'', JStr (c_Name c)), (''ordering'', JStr (c_Ordering c)),
      (''priority_enabled'', JBool (c_PriorityEnabled c)),
      (''max_attempts'', JNum (show_int (c_MaxAttempts c))),
      (''default_visibility_timeout_ms'', JNum (show_int (c_DefaultVisibilityTimeoutMS c))),
      (''aging_interval_ms'', JNum (show_int (c_AgingIntervalMS c))),
      (''aging_max_boost'', JNum (show_int (c_AgingMaxBoost c))),
      (''dedup_window_ms'', JNum (show_int (c_DedupWindowMS c)))] @
     (if c_NextSeq c = 0 then [] else [(''next_seq'', JNum (show_nat (unat (c_NextSeq c))))])"

lemma alnum_plain: "alnum c \<Longrightarrow> plain c" and name_char_plain: "name_char c \<Longrightarrow> plain c"
  by (auto simp: alnum_def plain_def name_char_def Let_def)

lemma nameRE_plain: "nameRE s \<Longrightarrow> list_all plain s"
  by (cases s) (auto simp: list_all_iff dest: alnum_plain name_char_plain)

lemma config_members_render:
  assumes "list_all plain (c_Name c)" and "list_all plain (c_Ordering c)"
  shows "list_all2 (\<lambda>(k, tx) (k', v). list_all plain k \<and> k' = k \<and> renders tx v)
    (config_members c) (config_values c)"
  using assms
  by (simp add: config_members_def config_values_def renders_string renders_bool renders_int
      renders_nat plain_def)

definition config_ranges :: "config \<Rightarrow> bool" where
  "config_ranges c \<longleftrightarrow> in_i64 (c_MaxAttempts c) \<and> in_i64 (c_DefaultVisibilityTimeoutMS c) \<and>
     in_i64 (c_AgingIntervalMS c) \<and> in_i64 (c_AgingMaxBoost c) \<and> in_i64 (c_DedupWindowMS c)"

lemma fold_key_names:
  "fold_key ''name'' = ''name''" "fold_key ''ordering'' = ''ordering''"
  "fold_key ''priority_enabled'' = ''priority_enabled''" "fold_key ''max_attempts'' = ''max_attempts''"
  "fold_key ''default_visibility_timeout_ms'' = ''default_visibility_timeout_ms''"
  "fold_key ''aging_interval_ms'' = ''aging_interval_ms''"
  "fold_key ''aging_max_boost'' = ''aging_max_boost''"
  "fold_key ''dedup_window_ms'' = ''dedup_window_ms''" "fold_key ''next_seq'' = ''next_seq''"
  by simp_all

lemma set_members_values:
  assumes "config_ranges c"
  shows "set_members (config_values c) zero_config = Some c"
proof -
  have "unat (c_NextSeq c) < 2 ^ 64" using unat_bound [of "c_NextSeq c"] by simp
  with assms show ?thesis
    by (simp add: config_ranges_def config_values_def set_member_def fold_key_names json_string_def
        json_bool_def json_int_def json_uint_def parse_int_lit_show parse_uint_lit_show
        zero_config_def del: fold_key.simps)
qed

lemma decodeConfig_encodeConfig:
  assumes "list_all plain (c_Name c)" and "list_all plain (c_Ordering c)" and "config_ranges c"
  shows "decodeConfig (encodeConfig c) = Inr c"
proof -
  let ?t = "show_members (config_members c)"
  have len: "length (config_members c) < length ?t"
    by (simp add: config_members_def show_string_def)
  have ne: "config_members c \<noteq> []" by (simp add: config_members_def)
  have "parse_members (Suc (length ?t)) 1 ?t = Some (config_values c, [])"
    using len by (intro parse_members_show config_members_render assms ne) simp
  moreover have "eat (CHR ''}'') (skip_ws ?t) = None"
    by (simp add: config_members_def show_string_def)
  ultimately have "parse_json (CHR ''{'' # ?t) = Some (JObj (config_values c))"
    by (simp add: parse_json_def max_depth_def skip_ws_def [of "[]"] del: parse_members.simps)
  then show ?thesis
    by (simp add: decodeConfig_def encodeConfig_def set_members_values [OF assms(3)])
qed

end
