(* ===== verification/Queue_State.thy ===== *)
theory Queue_State
  imports Queue_Heaps Wal_Log Codec
begin

text \<open>
  \<open>internal/queue/queue.go\<close>, the state of a queue and its transitions: \<open>applyEnqueue\<close>, \<open>applyAck\<close>,
  \<open>applyAttempt\<close> with their helpers, and \<open>apply\<close> (here \<open>apply_record\<close>), through which replay reaches the same code.
  Messages live in the memory \<open>q_mem\<close> below the allocation mark \<open>q_brk\<close>; the heaps, the
  dead-letter list and \<open>byID\<close> hold pointers to them. A transition that reports an error has not
  changed anything, so its result is the error alone.
\<close>

section \<open>State\<close>

record counters =
  n_Enqueued :: u64
  n_Dequeued :: u64
  n_Acked :: u64
  n_Nacked :: u64
  n_Expired :: u64
  n_DeadLettered :: u64
  n_Duplicates :: u64
  n_Compactions :: u64

record queue =
  q_cfg :: config
  q_dir :: string
  q_path :: string
  q_log :: wlog
  q_mem :: mem
  q_brk :: ptr
  q_ready :: "ptr list"
  q_delayed :: "ptr list"
  q_inflight :: "ptr list"
  q_byID :: "(string, ptr) gomap"
  q_dlq :: "ptr list"
  q_dedup :: "(string, dedupEntry) gomap"
  q_nextSeq :: u64
  q_failed :: "go_error option"
  q_lastAge :: gotime
  q_lastPurge :: gotime
  q_counters :: counters
  q_closed :: bool
  q_compactThreshold :: int
  q_compactFloor :: int
  q_wake :: bool
  q_done :: bool

definition zero_counters :: counters where
  "zero_counters = \<lparr>n_Enqueued = 0, n_Dequeued = 0, n_Acked = 0, n_Nacked = 0, n_Expired = 0,
     n_DeadLettered = 0, n_Duplicates = 0, n_Compactions = 0\<rparr>"

definition zero_message :: message where
  "zero_message = \<lparr>m_ID = '''', m_DedupID = '''', m_Seq = 0, m_Priority = 0, m_VisibleAt = zero_time,
     m_Payload = [], m_Attempts = 0, m_CreatedAt = zero_time, m_state = stateReady, m_index = 0,
     m_effPriority = 0, m_deadline = zero_time\<rparr>"

definition dedupPurgeInterval :: duration where
  "dedupPurgeInterval = 30 * 1000000000"

definition defaultCompactThreshold :: int where
  "defaultCompactThreshold = 8388608"

text \<open>The nil log of a queue under construction; nothing is called on it before it is replaced.\<close>

definition nil_log :: wlog where
  "nil_log = (fresh_log '''' [] 0)\<lparr>l_closed := True, l_done := True, l_flusher := Exited\<rparr>"

definition newQueue :: "string \<Rightarrow> queue" where
  "newQueue root = \<lparr>q_cfg = zero_config, q_dir = root, q_path = '''', q_log = nil_log,
     q_mem = (\<lambda>_. zero_message), q_brk = 0, q_ready = [], q_delayed = [], q_inflight = [],
     q_byID = [], q_dlq = [], q_dedup = [], q_nextSeq = 1, q_failed = None,
     q_lastAge = zero_time, q_lastPurge = zero_time, q_counters = zero_counters, q_closed = False,
     q_compactThreshold = defaultCompactThreshold, q_compactFloor = 0, q_wake = False,
     q_done = False\<rparr>"

section \<open>Heap operations on a queue\<close>

definition msg :: "queue \<Rightarrow> ptr \<Rightarrow> message" where
  "msg q p = q_mem q p"

definition upd :: "ptr \<Rightarrow> (message \<Rightarrow> message) \<Rightarrow> queue \<Rightarrow> queue" where
  "upd p f q = q\<lparr>q_mem := (q_mem q)(p := f (q_mem q p))\<rparr>"

definition push_ready :: "ptr \<Rightarrow> queue \<Rightarrow> queue" where
  "push_ready p q =
     (let (mem, xs) = heap_Push (readyHeap (q_cfg q)) (q_mem q, q_ready q) p
      in q\<lparr>q_mem := mem, q_ready := xs\<rparr>)"

definition push_delayed :: "ptr \<Rightarrow> queue \<Rightarrow> queue" where
  "push_delayed p q =
     (let (mem, xs) = heap_Push delayedHeap (q_mem q, q_delayed q) p
      in q\<lparr>q_mem := mem, q_delayed := xs\<rparr>)"

definition push_inflight :: "ptr \<Rightarrow> queue \<Rightarrow> queue" where
  "push_inflight p q =
     (let (mem, xs) = heap_Push leaseHeap (q_mem q, q_inflight q) p
      in q\<lparr>q_mem := mem, q_inflight := xs\<rparr>)"

definition remove_ready :: "nat \<Rightarrow> queue \<Rightarrow> queue" where
  "remove_ready i q =
     (let ((mem, xs), p) = heap_Remove (readyHeap (q_cfg q)) (q_mem q, q_ready q) i
      in q\<lparr>q_mem := mem, q_ready := xs\<rparr>)"

definition remove_delayed :: "nat \<Rightarrow> queue \<Rightarrow> queue" where
  "remove_delayed i q =
     (let ((mem, xs), p) = heap_Remove delayedHeap (q_mem q, q_delayed q) i
      in q\<lparr>q_mem := mem, q_delayed := xs\<rparr>)"

definition remove_inflight :: "nat \<Rightarrow> queue \<Rightarrow> queue" where
  "remove_inflight i q =
     (let ((mem, xs), p) = heap_Remove leaseHeap (q_mem q, q_inflight q) i
      in q\<lparr>q_mem := mem, q_inflight := xs\<rparr>)"

definition pop_ready :: "queue \<Rightarrow> queue \<times> ptr" where
  "pop_ready q =
     (let ((mem, xs), p) = heap_Pop (readyHeap (q_cfg q)) (q_mem q, q_ready q)
      in (q\<lparr>q_mem := mem, q_ready := xs\<rparr>, p))"

definition pop_delayed :: "queue \<Rightarrow> queue \<times> ptr" where
  "pop_delayed q =
     (let ((mem, xs), p) = heap_Pop delayedHeap (q_mem q, q_delayed q)
      in (q\<lparr>q_mem := mem, q_delayed := xs\<rparr>, p))"

section \<open>Transitions\<close>

definition effectivePriority :: "config \<Rightarrow> message \<Rightarrow> gotime \<Rightarrow> int" where
  "effectivePriority cfg m now =
     (let iv = agingInterval cfg
      in if iv \<le> 0 \<or> \<not> c_PriorityEnabled cfg then m_Priority m
         else let boost = time_sub now (m_CreatedAt m) sdiv iv;
                  boost = (if boost > c_AgingMaxBoost cfg then c_AgingMaxBoost cfg else boost);
                  boost = (if boost < 0 then 0 else boost)
         in i64 (m_Priority m + boost))"

definition place :: "ptr \<Rightarrow> gotime \<Rightarrow> queue \<Rightarrow> queue" where
  "place p now q =
     (if m_VisibleAt (msg q p) > now
      then push_delayed p (upd p (\<lambda>m. m\<lparr>m_state := stateDelayed\<rparr>) q)
      else let q = upd p (\<lambda>m. m\<lparr>m_state := stateReady\<rparr>) q;
               q = upd p (\<lambda>m. m\<lparr>m_effPriority := effectivePriority (q_cfg q) m now\<rparr>) q
      in push_ready p q)"

text \<open>The message is allocated by the caller in Go; here it gets its pointer on entry.\<close>

definition applyEnqueue :: "message \<Rightarrow> gotime \<Rightarrow> queue \<Rightarrow> go_error + queue" where
  "applyEnqueue m now q =
     (if map_of (q_byID q) (m_ID m) \<noteq> None then Inl (ErrDuplicateID (m_ID m))
      else let p = q_brk q;
               q = q\<lparr>q_mem := (q_mem q)(p := m), q_brk := p + 1\<rparr>;
               q = (if m_Seq m \<ge> q_nextSeq q then q\<lparr>q_nextSeq := m_Seq m + 1\<rparr> else q);
               q = q\<lparr>q_byID := AList.update (m_ID m) p (q_byID q)\<rparr>;
               q = (if m_DedupID m \<noteq> ''''
                    then q\<lparr>q_dedup := AList.update (m_DedupID m)
                           \<lparr>e_DedupID = m_DedupID m, e_MessageID = m_ID m,
                            e_ExpiresAt = time_add (m_CreatedAt m) (dedupWindow (q_cfg q))\<rparr>
                           (q_dedup q)\<rparr>
                    else q)
      in if m_state m = stateDead
         then Inr ((upd p (\<lambda>m. m\<lparr>m_index := -1\<rparr>) q)\<lparr>q_dlq := q_dlq q @ [p]\<rparr>)
         else Inr (place p now q))"

definition detach_from :: "ptr \<Rightarrow> queue \<Rightarrow> queue" where
  "detach_from p q =
     (let m = msg q p in
      case m_state m of
        stateReady \<Rightarrow>
          if m_index m \<ge> 0 \<and> m_index m < int (length (q_ready q))
          then remove_ready (nat (m_index m)) q else q
      | stateDelayed \<Rightarrow>
          if m_index m \<ge> 0 \<and> m_index m < int (length (q_delayed q))
          then remove_delayed (nat (m_index m)) q else q
      | stateInFlight \<Rightarrow>
          if m_index m \<ge> 0 \<and> m_index m < int (length (q_inflight q))
          then remove_inflight (nat (m_index m)) q else q
      | stateDead \<Rightarrow> q\<lparr>q_dlq := remove1 p (q_dlq q)\<rparr>)"

definition detach :: "ptr \<Rightarrow> queue \<Rightarrow> queue" where
  "detach p q = upd p (\<lambda>m. m\<lparr>m_index := -1\<rparr>) (detach_from p q)"

definition applyAck :: "string \<Rightarrow> queue \<Rightarrow> go_error + queue" where
  "applyAck mid q =
     (case map_of (q_byID q) mid of
        None \<Rightarrow> Inl (ErrAckUnknown mid)
      | Some p \<Rightarrow>
          (let q = detach p q in Inr (q\<lparr>q_byID := AList.delete mid (q_byID q)\<rparr>)))"

definition applyAttempt :: "string \<Rightarrow> gotime \<Rightarrow> queue \<Rightarrow> go_error + queue \<times> bool" where
  "applyAttempt mid now q =
     (case map_of (q_byID q) mid of
        None \<Rightarrow> Inl (ErrAttemptUnknown mid)
      | Some p \<Rightarrow>
          (let q = detach p q;
               q = upd p (\<lambda>m. m\<lparr>m_Attempts := i64 (m_Attempts m + 1)\<rparr>) q
           in if m_Attempts (msg q p) \<ge> c_MaxAttempts (q_cfg q)
              then let q = upd p (\<lambda>m. m\<lparr>m_state := stateDead, m_index := -1\<rparr>) q
                   in Inr (q\<lparr>q_dlq := q_dlq q @ [p]\<rparr>, True)
              else let q = upd p (\<lambda>m. m\<lparr>m_VisibleAt := now\<rparr>) q
                   in Inr (place p now q, False)))"

definition apply_meta :: "byte list \<Rightarrow> queue \<Rightarrow> go_error + queue" where
  "apply_meta payload q =
     bindE (decodeConfig payload) (\<lambda>cfg.
     bindE (Validate cfg) (\<lambda>cfg.
     let q = q\<lparr>q_cfg := cfg\<rparr>
     in Inr (if c_NextSeq cfg > q_nextSeq q then q\<lparr>q_nextSeq := c_NextSeq cfg\<rparr> else q)))"

definition apply_record :: "gotime \<Rightarrow> wal_record \<Rightarrow> queue \<Rightarrow> go_error + queue" where
  "apply_record now rec q =
     (let t = r_Type rec
      in if t = TypeMeta then apply_meta (r_Payload rec) q
      else if t = TypeEnqueue then
        bindE (decodeMessage (r_Payload rec)) (\<lambda>m. applyEnqueue m now q)
      else if t = TypeAck then applyAck (string_of (r_Payload rec)) q
      else if t = TypeNack \<or> t = TypeLeaseExpire then
        bindE (applyAttempt (string_of (r_Payload rec)) now q) (\<lambda>(q, dead). Inr q)
      else if t = TypeDedup then
        bindE (decodeDedup (r_Payload rec)) (\<lambda>e.
          Inr (q\<lparr>q_dedup := AList.update (e_DedupID e) e (q_dedup q)\<rparr>))
      else Inl (ErrUnhandledType t))"

end
