(* ===== verification/Queue_Inv.thy ===== *)
theory Queue_Inv
  imports Queue_State
begin

text \<open>
  The well-formedness invariant of a queue's index and its preservation by the transitions of
  \<open>queue.go\<close>. \<open>placed S q\<close> says that exactly the pointers of \<open>S\<close> sit in the four structures, each in
  the one its \<open>state\<close> field names, that the three heaps are heaps with right \<open>index\<close> fields, and that
  dead messages carry index -1. \<open>queue_inv\<close> adds that \<open>byID\<close> names exactly those messages, each
  under its own id.
\<close>

section \<open>The four structures\<close>

fun holder :: "mstate \<Rightarrow> queue \<Rightarrow> ptr list" where
  "holder stateReady q = q_ready q"
| "holder stateDelayed q = q_delayed q"
| "holder stateInFlight q = q_inflight q"
| "holder stateDead q = q_dlq q"

fun set_holder :: "mstate \<Rightarrow> ptr list \<Rightarrow> queue \<Rightarrow> queue" where
  "set_holder stateReady xs q = q\<lparr>q_ready := xs\<rparr>"
| "set_holder stateDelayed xs q = q\<lparr>q_delayed := xs\<rparr>"
| "set_holder stateInFlight xs q = q\<lparr>q_inflight := xs\<rparr>"
| "set_holder stateDead xs q = q\<lparr>q_dlq := xs\<rparr>"

fun heap_lt :: "config \<Rightarrow> mstate \<Rightarrow> message \<Rightarrow> message \<Rightarrow> bool" where
  "heap_lt c stateReady = cfg_less c"
| "heap_lt c stateDelayed = delayed_less"
| "heap_lt c stateInFlight = lease_less"
| "heap_lt c stateDead = (\<lambda>_ _. False)"

lemma no_order: "message_order (\<lambda>_ _. False)"
  by (simp add: message_order_def)

interpretation held: message_order "heap_lt c st" for c st
  by (cases st)
    (simp_all add: ready.message_order_axioms delayed.message_order_axioms
      lease.message_order_axioms no_order)

definition placed :: "ptr set \<Rightarrow> queue \<Rightarrow> bool" where
  "placed S q \<longleftrightarrow>
     (\<forall>st p. p \<in> set (holder st q) \<longleftrightarrow> p \<in> S \<and> m_state (q_mem q p) = st) \<and>
     (\<forall>st. st \<noteq> stateDead \<longrightarrow> heap_ok (heap_lt (q_cfg q) st) (q_mem q) (holder st q)) \<and>
     distinct (q_dlq q) \<and> (\<forall>p \<in> set (q_dlq q). m_index (q_mem q p) = -1)"

definition ids_ok :: "queue \<Rightarrow> bool" where
  "ids_ok q \<longleftrightarrow> distinct (map fst (q_byID q)) \<and>
     (\<forall>(k, p) \<in> set (q_byID q). m_ID (q_mem q p) = k \<and> p < q_brk q)"

definition queue_inv :: "queue \<Rightarrow> bool" where
  "queue_inv q \<longleftrightarrow> ids_ok q \<and> placed (snd ` set (q_byID q)) q"

text \<open>What heap operations leave alone: everything but the structures and the \<open>index\<close> fields.\<close>

definition only_heaps :: "queue \<Rightarrow> queue \<Rightarrow> bool" where
  "only_heaps q q' \<longleftrightarrow>
     q' = q\<lparr>q_mem := q_mem q', q_ready := q_ready q', q_delayed := q_delayed q',
            q_inflight := q_inflight q', q_dlq := q_dlq q'\<rparr> \<and>
     (\<forall>r. strip (q_mem q' r) = strip (q_mem q r))"

lemma only_heaps_refl [simp]: "only_heaps q q"
  by (simp add: only_heaps_def)

lemma only_heaps_fields:
  assumes "only_heaps q q'"
  shows "q_cfg q' = q_cfg q" "q_dir q' = q_dir q" "q_path q' = q_path q" "q_log q' = q_log q"
    "q_brk q' = q_brk q" "q_byID q' = q_byID q" "q_dedup q' = q_dedup q" "q_nextSeq q' = q_nextSeq q"
    "q_failed q' = q_failed q" "q_lastAge q' = q_lastAge q" "q_lastPurge q' = q_lastPurge q"
    "q_counters q' = q_counters q" "q_closed q' = q_closed q"
    "q_compactThreshold q' = q_compactThreshold q" "q_compactFloor q' = q_compactFloor q"
    "strip (q_mem q' r) = strip (q_mem q r)"
proof -
  obtain mem xs ys zs ds where q': "q' = q\<lparr>q_mem := mem, q_ready := xs, q_delayed := ys,
      q_inflight := zs, q_dlq := ds\<rparr>"
    using assms by (auto simp: only_heaps_def)
  then show "q_cfg q' = q_cfg q" "q_dir q' = q_dir q" "q_path q' = q_path q" "q_log q' = q_log q"
    "q_brk q' = q_brk q" "q_byID q' = q_byID q" "q_dedup q' = q_dedup q" "q_nextSeq q' = q_nextSeq q"
    "q_failed q' = q_failed q" "q_lastAge q' = q_lastAge q" "q_lastPurge q' = q_lastPurge q"
    "q_counters q' = q_counters q" "q_closed q' = q_closed q"
    "q_compactThreshold q' = q_compactThreshold q" "q_compactFloor q' = q_compactFloor q"
    by simp_all
  show "strip (q_mem q' r) = strip (q_mem q r)" using assms by (simp add: only_heaps_def)
qed

lemmas only_heaps_msg = strip_eqD [OF only_heaps_fields(16)]

lemma set_holder_fields [simp]:
  "q_mem (set_holder st xs q) = q_mem q" "q_cfg (set_holder st xs q) = q_cfg q"
  "holder st' (set_holder st xs q) = (if st' = st then xs else holder st' q)"
  by (cases st; simp; fail | cases st; cases st'; simp)+

lemma holder_mem [simp]: "holder st (q\<lparr>q_mem := mem\<rparr>) = holder st q"
  by (cases st) simp_all

lemma set_holder_only_heaps:
  assumes "idx_only A (q_mem q) mem"
  shows "only_heaps q (set_holder st xs (q\<lparr>q_mem := mem\<rparr>))"
  using assms by (cases st) (simp_all add: only_heaps_def idx_only_def)

text \<open>The one frame argument behind every heap operation.\<close>

lemma placed_heap_change:
  assumes pl: "placed S q" and st: "st \<noteq> stateDead"
    and ok: "heap_ok (heap_lt (q_cfg q) st) mem xs"
    and idx: "idx_only A (q_mem q) mem"
    and A: "\<And>r. r \<in> A \<Longrightarrow> r \<in> S \<Longrightarrow> m_state (q_mem q r) = st"
    and xs: "\<And>r. r \<in> set xs \<longleftrightarrow> r \<in> S' \<and> m_state (q_mem q r) = st"
    and S': "\<And>r. m_state (q_mem q r) \<noteq> st \<Longrightarrow> r \<in> S' \<longleftrightarrow> r \<in> S"
  shows "placed S' (set_holder st xs (q\<lparr>q_mem := mem\<rparr>))"
proof -
  let ?q = "set_holder st xs (q\<lparr>q_mem := mem\<rparr>)"
  have state: "m_state (mem r) = m_state (q_mem q r)" for r
    by (rule idx_only_fields(9) [OF idx])
  have mem: "mem r = q_mem q r" if "r \<in> set (holder st' q)" "st' \<noteq> st" for st' r
  proof -
    have "r \<in> S" "m_state (q_mem q r) = st'" using pl that(1) by (auto simp: placed_def)
    then show ?thesis using A that(2) idx_onlyD(2) [OF idx] by blast
  qed
  have "r \<in> set (holder st' ?q) \<longleftrightarrow> r \<in> S' \<and> m_state (q_mem ?q r) = st'" for st' r
    using xs S' pl by (auto simp: state placed_def)
  moreover have "heap_ok (heap_lt (q_cfg q) st') mem (holder st' ?q)" if "st' \<noteq> stateDead" for st'
  proof (cases "st' = st")
    case False
    then have "heap_ok (heap_lt (q_cfg q) st') mem (holder st' q)
        = heap_ok (heap_lt (q_cfg q) st') (q_mem q) (holder st' q)"
      using mem by (intro heap_ok_cong) blast
    then show ?thesis using False pl that by (simp add: placed_def)
  qed (use ok in simp)
  moreover have "q_dlq ?q = q_dlq q" using st by (cases st) simp_all
  moreover have "m_index (mem r) = -1" if "r \<in> set (q_dlq q)" for r
    using mem [of r stateDead] that pl st by (simp add: placed_def)
  ultimately show ?thesis using pl by (simp add: placed_def)
qed

section \<open>Pushing, removing, popping\<close>

definition push_held :: "mstate \<Rightarrow> ptr \<Rightarrow> queue \<Rightarrow> queue" where
  "push_held st p q =
     (let (mem, xs) = heap_Push (msg_heap (heap_lt (q_cfg q) st)) (q_mem q, holder st q) p
      in set_holder st xs (q\<lparr>q_mem := mem\<rparr>))"

definition remove_held :: "mstate \<Rightarrow> nat \<Rightarrow> queue \<Rightarrow> queue" where
  "remove_held st i q =
     (let ((mem, xs), p) = heap_Remove (msg_heap (heap_lt (q_cfg q) st)) (q_mem q, holder st q) i
      in set_holder st xs (q\<lparr>q_mem := mem\<rparr>))"

definition pop_held :: "mstate \<Rightarrow> queue \<Rightarrow> queue \<times> ptr" where
  "pop_held st q =
     (let ((mem, xs), p) = heap_Pop (msg_heap (heap_lt (q_cfg q) st)) (q_mem q, holder st q)
      in (set_holder st xs (q\<lparr>q_mem := mem\<rparr>), p))"

lemma held_ops:
  "push_ready = push_held stateReady" "push_delayed = push_held stateDelayed"
  "push_inflight = push_held stateInFlight" "remove_ready = remove_held stateReady"
  "remove_delayed = remove_held stateDelayed" "remove_inflight = remove_held stateInFlight"
  "pop_ready = pop_held stateReady" "pop_delayed = pop_held stateDelayed"
  by (auto simp: fun_eq_iff push_held_def remove_held_def pop_held_def push_ready_def
      push_delayed_def push_inflight_def remove_ready_def remove_delayed_def remove_inflight_def
      pop_ready_def pop_delayed_def readyHeap_def delayedHeap_def leaseHeap_def
      split: prod.splits)

lemma placed_holder: "placed S q \<Longrightarrow> p \<in> set (holder st q) \<longleftrightarrow> p \<in> S \<and> m_state (q_mem q p) = st"
  by (simp add: placed_def)

lemma placed_heap:
  "placed S q \<Longrightarrow> st \<noteq> stateDead \<Longrightarrow> heap_ok (heap_lt (q_cfg q) st) (q_mem q) (holder st q)"
  by (simp add: placed_def)

lemma placed_distinct: "placed S q \<Longrightarrow> distinct (holder st q)"
  by (cases "st = stateDead") (auto simp: placed_def dest: heap_ok_distinct)

lemma set_add_mset: "mset ys = add_mset x (mset xs) \<Longrightarrow> set ys = insert x (set xs)"
  by (metis set_mset_add_mset_insert set_mset_mset)

lemma set_remove_mset: "mset xs = add_mset x (mset ys) \<Longrightarrow> distinct xs \<Longrightarrow> set ys = set xs - {x}"
  by (metis Diff_insert_absorb distinct.simps(2) list.set(2) mset.simps(2) mset_eq_imp_distinct_iff
      set_add_mset)

lemma push_held:
  assumes pl: "placed S q" and p: "p \<notin> S" and st: "m_state (q_mem q p) = st" "st \<noteq> stateDead"
  shows "placed (insert p S) (push_held st p q)" and "only_heaps q (push_held st p q)"
proof -
  obtain mem xs where r: "heap_Push (msg_heap (heap_lt (q_cfg q) st)) (q_mem q, holder st q) p = (mem, xs)"
    by (metis prod.exhaust)
  have new: "p \<notin> set (holder st q)" using pl p by (simp add: placed_holder)
  note P = held.Push_ok [OF placed_heap [OF pl st(2)] new r]
  have push: "push_held st p q = set_holder st xs (q\<lparr>q_mem := mem\<rparr>)"
    by (simp add: push_held_def r)
  show "only_heaps q (push_held st p q)"
    using P(3) by (simp add: push set_holder_only_heaps)
  have "set xs = insert p (set (holder st q))" using P(2) by (rule set_add_mset)
  then show "placed (insert p S) (push_held st p q)"
    unfolding push
    by (intro placed_heap_change [OF pl st(2) P(1,3)])
      (use pl st in \<open>auto simp: placed_holder\<close>)
qed

lemma taken_out:
  assumes pl: "placed S q" and st: "st \<noteq> stateDead" and p: "p \<in> set (holder st q)"
    and "heap_ok (heap_lt (q_cfg q) st) mem xs" and "mset (holder st q) = add_mset p (mset xs)"
    and "idx_only (set (holder st q)) (q_mem q) mem"
  shows "placed (S - {p}) (set_holder st xs (q\<lparr>q_mem := mem\<rparr>))"
    and "only_heaps q (set_holder st xs (q\<lparr>q_mem := mem\<rparr>))"
proof -
  have "set xs = set (holder st q) - {p}"
    using assms(5) placed_distinct [OF pl] by (rule set_remove_mset)
  then show "placed (S - {p}) (set_holder st xs (q\<lparr>q_mem := mem\<rparr>))"
    by (intro placed_heap_change [OF pl st assms(4,6)])
      (use pl st p in \<open>auto simp: placed_holder\<close>)
  show "only_heaps q (set_holder st xs (q\<lparr>q_mem := mem\<rparr>))"
    by (rule set_holder_only_heaps [OF assms(6)])
qed

lemma remove_held:
  assumes pl: "placed S q" and st: "st \<noteq> stateDead" and i: "i < length (holder st q)"
  shows "placed (S - {holder st q ! i}) (remove_held st i q)" and "only_heaps q (remove_held st i q)"
proof -
  obtain mem xs p where r: "heap_Remove (msg_heap (heap_lt (q_cfg q) st)) (q_mem q, holder st q) i
      = ((mem, xs), p)"
    by (metis prod.exhaust)
  note P = held.Remove_ok [OF placed_heap [OF pl st] i r]
  have "holder st q ! i \<in> set (holder st q)" using i by simp
  from taken_out [OF pl st this P(1) _ P(4)] P(2,3)
  show "placed (S - {holder st q ! i}) (remove_held st i q)" "only_heaps q (remove_held st i q)"
    by (simp_all add: remove_held_def r)
qed

lemma pop_held:
  assumes pl: "placed S q" and st: "st \<noteq> stateDead" and ne: "holder st q \<noteq> []"
    and pop: "pop_held st q = (q', p)"
  shows "placed (S - {p}) q'" and "only_heaps q q'" and "p = hd (holder st q)" and "p \<in> S"
    and "m_state (q_mem q p) = st" and "holder st q' = [] \<or> length (holder st q') < length (holder st q)"
    and "set (holder st q') = set (holder st q) - {p}"
    and "st' \<noteq> st \<Longrightarrow> holder st' q' = holder st' q"
proof -
  obtain mem xs p' where r: "heap_Pop (msg_heap (heap_lt (q_cfg q) st)) (q_mem q, holder st q)
      = ((mem, xs), p')"
    by (metis prod.exhaust)
  have q': "q' = set_holder st xs (q\<lparr>q_mem := mem\<rparr>)" and p': "p' = p"
    using pop by (simp_all add: pop_held_def r)
  note P = held.Pop_ok [OF placed_heap [OF pl st] ne r]
  show hd: "p = hd (holder st q)" using P(2) p' by simp
  then have mem: "p \<in> set (holder st q)" using ne by simp
  from taken_out [OF pl st mem P(1) _ P(4)] P(3) p'
  show "placed (S - {p}) q'" "only_heaps q q'" by (simp_all add: q')
  from mem show "p \<in> S" "m_state (q_mem q p) = st" using pl by (auto simp: placed_holder)
  have "size (mset (holder st q)) = Suc (size (mset xs))" using P(3) by simp
  then show "holder st q' = [] \<or> length (holder st q') < length (holder st q)"
    by (simp add: q')
  show "set (holder st q') = set (holder st q) - {p}"
    using set_remove_mset [OF P(3) placed_distinct [OF pl]] p' by (simp add: q')
  show "st' \<noteq> st \<Longrightarrow> holder st' q' = holder st' q" by (simp add: q')
qed

section \<open>Updating a message that is in no structure\<close>

lemma upd_simps [simp]:
  "q_mem (upd p f q) = (q_mem q)(p := f (q_mem q p))" "q_cfg (upd p f q) = q_cfg q"
  "q_byID (upd p f q) = q_byID q" "q_brk (upd p f q) = q_brk q" "q_dlq (upd p f q) = q_dlq q"
  "q_dedup (upd p f q) = q_dedup q" "q_nextSeq (upd p f q) = q_nextSeq q"
  "q_log (upd p f q) = q_log q" "q_failed (upd p f q) = q_failed q"
  "q_closed (upd p f q) = q_closed q" "q_counters (upd p f q) = q_counters q"
  "holder st (upd p f q) = holder st q"
  by (cases st; simp add: upd_def)+

lemma placed_cong:
  assumes "placed S q" and "\<And>r. r \<in> S \<Longrightarrow> q_mem q' r = q_mem q r"
    and "\<And>st. holder st q' = holder st q" and "q_cfg q' = q_cfg q"
  shows "placed S q'"
proof -
  have mem: "q_mem q' r = q_mem q r" if "r \<in> set (holder st q)" for st r
    using assms(1,2) that by (auto simp: placed_holder)
  have "heap_ok (heap_lt (q_cfg q) st) (q_mem q') (holder st q)
      = heap_ok (heap_lt (q_cfg q) st) (q_mem q) (holder st q)" for st
    by (intro heap_ok_cong mem)
  moreover have "q_dlq q' = q_dlq q" using assms(3) [of stateDead] by simp
  ultimately show ?thesis
    using assms(1) mem [of _ stateDead] assms(2-4) by (auto simp: placed_def)
qed

lemma upd_placed: "placed S q \<Longrightarrow> p \<notin> S \<Longrightarrow> placed S (upd p f q)"
  by (erule placed_cong) auto

lemma dlq_placed:
  assumes "placed S q" and "p \<notin> S" and "m_state (q_mem q p) = stateDead" and "m_index (q_mem q p) = -1"
  shows "placed (insert p S) (q\<lparr>q_dlq := q_dlq q @ [p]\<rparr>)"
proof -
  have h: "holder st (q\<lparr>q_dlq := xs\<rparr>) = (if st = stateDead then xs else holder st q)" for st xs
    by (cases st) simp_all
  have d: "r \<in> set (q_dlq q) \<longleftrightarrow> r \<in> S \<and> m_state (q_mem q r) = stateDead" for r
    using placed_holder [OF assms(1), of r stateDead] by simp
  then show ?thesis
    using assms by (auto simp: placed_def h)
qed

section \<open>detach and place\<close>

lemma placed_position:
  assumes "placed S q" and "p \<in> S" and "m_state (q_mem q p) = st" and "st \<noteq> stateDead"
  shows "0 \<le> m_index (q_mem q p)" and "m_index (q_mem q p) < int (length (holder st q))"
    and "holder st q ! nat (m_index (q_mem q p)) = p"
proof -
  have "p \<in> set (holder st q)" using assms by (simp add: placed_holder)
  then obtain k where k: "k < length (holder st q)" "holder st q ! k = p" by (metis in_set_conv_nth)
  then have "m_index (q_mem q p) = int k"
    using heap_ok_index [OF placed_heap [OF assms(1,4)] k(1)] by simp
  then show "0 \<le> m_index (q_mem q p)" "m_index (q_mem q p) < int (length (holder st q))"
    "holder st q ! nat (m_index (q_mem q p)) = p"
    using k by simp_all
qed

lemma detach_dead:
  assumes pl: "placed S q" and "m_state (q_mem q p) = stateDead"
  shows "placed (S - {p}) (q\<lparr>q_dlq := remove1 p (q_dlq q)\<rparr>)"
proof -
  have h: "holder st (q\<lparr>q_dlq := xs\<rparr>) = (if st = stateDead then xs else holder st q)" for st xs
    by (cases st) simp_all
  have d: "r \<in> set (q_dlq q) \<longleftrightarrow> r \<in> S \<and> m_state (q_mem q r) = stateDead" for r
    using placed_holder [OF pl, of r stateDead] by simp
  have "distinct (q_dlq q)" using pl by (simp add: placed_def)
  then show ?thesis
    using pl assms(2) d by (auto simp: placed_def h)
qed

lemma detach_from_held:
  assumes pl: "placed S q" and p: "p \<in> S"
  shows "placed (S - {p}) (detach_from p q) \<and> only_heaps q (detach_from p q)"
proof (cases "m_state (q_mem q p) = stateDead")
  case True
  then show ?thesis
    using detach_dead [OF pl True] by (simp add: detach_from_def msg_def only_heaps_def)
next
  case False
  let ?st = "m_state (q_mem q p)"
  note pos = placed_position [OF pl p refl False]
  have "detach_from p q = remove_held ?st (nat (m_index (q_mem q p))) q"
    using pos(1,2) False by (cases ?st) (simp_all add: detach_from_def msg_def held_ops)
  moreover have "nat (m_index (q_mem q p)) < length (holder ?st q)" using pos(1,2) by simp
  ultimately show ?thesis
    using remove_held [OF pl False, of "nat (m_index (q_mem q p))"] pos(3) by simp
qed

lemma only_heaps_trans: "only_heaps a b \<Longrightarrow> only_heaps b c \<Longrightarrow> only_heaps a c"
  unfolding only_heaps_def
  by (cases a, cases b, cases c) simp

lemma only_heaps_index: "only_heaps q (upd p (\<lambda>m. m\<lparr>m_index := i\<rparr>) q)"
  by (simp add: only_heaps_def upd_def strip_def)

lemma detach_spec:
  assumes "placed S q" and "p \<in> S"
  shows "placed (S - {p}) (detach p q)" and "only_heaps q (detach p q)"
    and "m_index (q_mem (detach p q) p) = -1"
proof -
  note D = detach_from_held [OF assms]
  then show "placed (S - {p}) (detach p q)" by (simp add: detach_def upd_placed)
  from D show "only_heaps q (detach p q)"
    unfolding detach_def by (blast intro: only_heaps_trans only_heaps_index)
  show "m_index (q_mem (detach p q) p) = -1" by (simp add: detach_def)
qed

text \<open>The message as \<open>place\<close> files it.\<close>

definition placed_msg :: "config \<Rightarrow> gotime \<Rightarrow> message \<Rightarrow> message" where
  "placed_msg c now m =
     (if m_VisibleAt m > now then m\<lparr>m_state := stateDelayed\<rparr>
      else m\<lparr>m_state := stateReady, m_effPriority := effectivePriority c m now\<rparr>)"

lemma effectivePriority_state [simp]:
  "effectivePriority c (m\<lparr>m_state := st\<rparr>) now = effectivePriority c m now"
  by (simp add: effectivePriority_def Let_def)

lemma place_held:
  "place p now q = push_held (m_state (placed_msg (q_cfg q) now (q_mem q p))) p
     (upd p (placed_msg (q_cfg q) now) q)"
  by (cases "m_VisibleAt (q_mem q p) > now")
    (simp_all add: place_def msg_def held_ops upd_def placed_msg_def Let_def)

lemma place_spec:
  assumes "placed S q" and "p \<notin> S"
  shows "placed (insert p S) (place p now q)"
    and "only_heaps (upd p (placed_msg (q_cfg q) now) q) (place p now q)"
proof -
  let ?q = "upd p (placed_msg (q_cfg q) now) q"
  let ?st = "m_state (placed_msg (q_cfg q) now (q_mem q p))"
  have "?st \<noteq> stateDead" by (simp add: placed_msg_def)
  moreover have "placed S ?q" using assms by (rule upd_placed)
  ultimately show "placed (insert p S) (place p now q)" "only_heaps ?q (place p now q)"
    using push_held [of S ?q p ?st] assms(2) by (simp_all add: place_held)
qed

section \<open>The transitions keep the invariant\<close>

lemma only_heaps_inv:
  assumes "only_heaps q q'" and "ids_ok q"
  shows "ids_ok q'"
  using assms only_heaps_fields [OF assms(1)] only_heaps_msg(1) [OF assms(1)]
  by (auto simp: ids_ok_def)

lemma ids_okD:
  assumes "ids_ok q" and "map_of (q_byID q) k = Some p"
  shows "m_ID (q_mem q p) = k" and "p < q_brk q" and "p \<in> snd ` set (q_byID q)"
proof -
  have "(k, p) \<in> set (q_byID q)" using assms(2) by (rule map_of_SomeD)
  then show "m_ID (q_mem q p) = k" "p < q_brk q" "p \<in> snd ` set (q_byID q)"
    using assms(1) by (force simp: ids_ok_def)+
qed

lemma ids_ok_delete:
  assumes "ids_ok q" and "map_of (q_byID q) k = Some p"
  shows "snd ` set (AList.delete k (q_byID q)) = snd ` set (q_byID q) - {p}"
    and "ids_ok (q\<lparr>q_byID := AList.delete k (q_byID q)\<rparr>)"
proof -
  have set: "set (AList.delete k (q_byID q)) = {x \<in> set (q_byID q). fst x \<noteq> k}"
    by (auto simp: AList.delete_eq)
  have "fst x = k \<longleftrightarrow> snd x = p" if "x \<in> set (q_byID q)" for x
  proof -
    have kp: "m_ID (q_mem q p) = k" using ids_okD [OF assms] by simp
    have x: "m_ID (q_mem q (snd x)) = fst x" using assms(1) that by (force simp: ids_ok_def)
    have "map_of (q_byID q) (fst x) = Some (snd x)"
      using assms(1) that by (intro map_of_is_SomeI) (simp_all add: ids_ok_def)
    then show ?thesis using kp x assms(2) by auto
  qed
  then show "snd ` set (AList.delete k (q_byID q)) = snd ` set (q_byID q) - {p}"
    unfolding set by force
  show "ids_ok (q\<lparr>q_byID := AList.delete k (q_byID q)\<rparr>)"
    using assms(1) by (auto simp: ids_ok_def set distinct_delete)
qed

lemma applyAck_spec:
  assumes inv: "queue_inv q" and p: "map_of (q_byID q) k = Some p"
  shows "\<exists>q'. applyAck k q = Inr q' \<and> queue_inv q' \<and>
    only_heaps (q\<lparr>q_byID := AList.delete k (q_byID q)\<rparr>) q'"
proof -
  let ?S = "snd ` set (q_byID q)" and ?d = "AList.delete k (q_byID q)"
  have ids: "ids_ok q" and pl: "placed ?S q" using inv by (simp_all add: queue_inv_def)
  have pS: "p \<in> ?S" using ids_okD [OF ids p] by simp
  note D = detach_spec [OF pl pS]
  let ?q' = "(detach p q)\<lparr>q_byID := ?d\<rparr>"
  have byID: "q_byID (detach p q) = q_byID q" using D(2) by (simp add: only_heaps_fields)
  have oh: "only_heaps (q\<lparr>q_byID := ?d\<rparr>) ?q'"
    using D(2) unfolding only_heaps_def by (cases q, cases "detach p q") simp
  have "placed (?S - {p}) ?q'"
    using D(1) by (rule placed_cong) (simp_all, case_tac st, simp_all)
  then have "queue_inv ?q'"
    using only_heaps_inv [OF oh ids_ok_delete(2) [OF ids p]] ids_ok_delete(1) [OF ids p]
    by (simp add: queue_inv_def)
  then show ?thesis using oh byID by (simp add: applyAck_def p Let_def)
qed

text \<open>The message after a failed delivery: dead, or back where \<open>place\<close> puts it.\<close>

definition attempts_up :: "message \<Rightarrow> message" where
  "attempts_up m = m\<lparr>m_Attempts := i64 (m_Attempts m + 1)\<rparr>"

definition attempted_msg :: "config \<Rightarrow> gotime \<Rightarrow> message \<Rightarrow> message" where
  "attempted_msg c now m =
     (if m_Attempts (attempts_up m) \<ge> c_MaxAttempts c then (attempts_up m)\<lparr>m_state := stateDead\<rparr>
      else placed_msg c now ((attempts_up m)\<lparr>m_VisibleAt := now\<rparr>))"

lemma only_heaps_upd:
  assumes "only_heaps q q'" and "strip (f' (q_mem q' p)) = strip (f (q_mem q p))"
  shows "only_heaps (upd p f q) (upd p f' q')"
  using assms unfolding only_heaps_def upd_def by (cases q, cases q') simp

lemma upd_upd: "upd p f (upd p g q) = upd p (\<lambda>m. f (g m)) q"
  by (simp add: upd_def)

lemma only_heaps_dlq: "only_heaps q q' \<Longrightarrow> only_heaps q (q'\<lparr>q_dlq := xs\<rparr>)"
  unfolding only_heaps_def by (cases q, cases q') simp

lemma strip_cong_upd:
  assumes "strip m' = strip m"
  shows "strip (m'\<lparr>m_state := st\<rparr>) = strip (m\<lparr>m_state := st\<rparr>)"
    "strip (m'\<lparr>m_index := i\<rparr>) = strip m" "strip (m'\<lparr>m_VisibleAt := t\<rparr>) = strip (m\<lparr>m_VisibleAt := t\<rparr>)"
    "strip (attempts_up m') = strip (attempts_up m)"
    "strip (m'\<lparr>m_effPriority := e\<rparr>) = strip (m\<lparr>m_effPriority := e\<rparr>)"
    "strip (m'\<lparr>m_deadline := d\<rparr>) = strip (m\<lparr>m_deadline := d\<rparr>)"
    "effectivePriority c m' now = effectivePriority c m now"
    "strip (placed_msg c now m') = strip (placed_msg c now m)"
    "strip (attempted_msg c now m') = strip (attempted_msg c now m)"
proof -
  show *: "strip (m'\<lparr>m_state := st\<rparr>) = strip (m\<lparr>m_state := st\<rparr>)"
    "strip (m'\<lparr>m_index := i\<rparr>) = strip m" "strip (m'\<lparr>m_VisibleAt := t\<rparr>) = strip (m\<lparr>m_VisibleAt := t\<rparr>)"
    "strip (attempts_up m') = strip (attempts_up m)"
    "strip (m'\<lparr>m_effPriority := e\<rparr>) = strip (m\<lparr>m_effPriority := e\<rparr>)"
    "strip (m'\<lparr>m_deadline := d\<rparr>) = strip (m\<lparr>m_deadline := d\<rparr>)"
    using assms by (cases m, cases m', simp add: strip_def attempts_up_def)+
  show "effectivePriority c m' now = effectivePriority c m now"
    "strip (placed_msg c now m') = strip (placed_msg c now m)"
    "strip (attempted_msg c now m') = strip (attempted_msg c now m)"
    using assms
    by (cases m, cases m', simp add: strip_def attempts_up_def effectivePriority_def placed_msg_def
        attempted_msg_def Let_def)+
qed

lemma attempts_up_fun: "(\<lambda>m. m\<lparr>m_Attempts := i64 (m_Attempts m + 1)\<rparr>) = attempts_up"
  by (simp add: attempts_up_def fun_eq_iff)

lemma applyAttempt_spec:
  assumes inv: "queue_inv q" and p: "map_of (q_byID q) k = Some p"
  shows "\<exists>q'. applyAttempt k now q
      = Inr (q', m_Attempts (attempts_up (q_mem q p)) \<ge> c_MaxAttempts (q_cfg q)) \<and>
    queue_inv q' \<and> only_heaps (upd p (attempted_msg (q_cfg q) now) q) q'"
proof -
  let ?S = "snd ` set (q_byID q)" and ?c = "q_cfg q"
  have ids: "ids_ok q" and pl: "placed ?S q" using inv by (simp_all add: queue_inv_def)
  have pS: "p \<in> ?S" using ids_okD [OF ids p] by simp
  note D = detach_spec [OF pl pS]
  note F = only_heaps_fields [OF D(2)]
  have att: "m_Attempts (attempts_up (q_mem (detach p q) p)) = m_Attempts (attempts_up (q_mem q p))"
    using only_heaps_msg(7) [OF D(2)] by (simp add: attempts_up_def)
  let ?q1 = "upd p attempts_up (detach p q)"
  have pl1: "placed (?S - {p}) (upd p f (upd p attempts_up (detach p q)))" for f
    using D(1) by (intro upd_placed) simp_all
  have inv': "queue_inv q'" if "placed (insert p (?S - {p})) q'"
    "only_heaps (upd p (attempted_msg ?c now) q) q'" for q'
  proof -
    have "ids_ok (upd p (attempted_msg ?c now) q)"
      using ids by (auto simp: ids_ok_def attempted_msg_def attempts_up_def placed_msg_def)
    then have "ids_ok q'" by (rule only_heaps_inv [OF that(2)])
    moreover have "q_byID q' = q_byID q" using only_heaps_fields(6) [OF that(2)] by simp
    ultimately show ?thesis using that(1) pS by (simp add: queue_inv_def insert_absorb)
  qed
  have strip: "strip (attempts_up (q_mem (detach p q) p)) = strip (attempts_up (q_mem q p))"
    using F(16) by (rule strip_cong_upd(4))
  show ?thesis
  proof (cases "m_Attempts (attempts_up (q_mem q p)) \<ge> c_MaxAttempts ?c")
    case True
    let ?q2 = "upd p (\<lambda>m. m\<lparr>m_state := stateDead, m_index := -1\<rparr>) ?q1"
    let ?q' = "?q2\<lparr>q_dlq := q_dlq (detach p q) @ [p]\<rparr>"
    have "only_heaps (upd p (attempted_msg ?c now) q) ?q2"
      unfolding upd_upd
      by (rule only_heaps_upd [OF D(2)])
        (use True strip_cong_upd(2) [OF strip_cong_upd(1) [OF strip]] in
          \<open>simp add: attempted_msg_def\<close>)
    then have oh: "only_heaps (upd p (attempted_msg ?c now) q) ?q'" by (rule only_heaps_dlq)
    have "placed (insert p (?S - {p})) ?q'"
      using dlq_placed [OF pl1 [of "\<lambda>m. m\<lparr>m_state := stateDead, m_index := -1\<rparr>"], of p] by simp
    from inv' [OF this oh] oh show ?thesis
      using True att by (simp add: applyAttempt_def p Let_def msg_def F attempts_up_fun)
  next
    case False
    let ?q2 = "upd p (\<lambda>m. m\<lparr>m_VisibleAt := now\<rparr>) ?q1"
    note P = place_spec [OF pl1 [of "\<lambda>m. m\<lparr>m_VisibleAt := now\<rparr>"], of p now]
    have "only_heaps (upd p (attempted_msg ?c now) q) (upd p (placed_msg ?c now) ?q2)"
      unfolding upd_upd
      by (rule only_heaps_upd [OF D(2)])
        (use False strip_cong_upd(8) [OF strip_cong_upd(3) [OF strip]] in
          \<open>simp add: attempted_msg_def\<close>)
    then have oh: "only_heaps (upd p (attempted_msg ?c now) q) (place p now ?q2)"
      using P(2) by (simp add: F only_heaps_trans)
    from inv' [OF _ oh] P(1) oh show ?thesis
      using False att by (simp add: applyAttempt_def p Let_def msg_def F attempts_up_fun)
  qed
qed

text \<open>The index entries of a new message, before it is filed.\<close>

definition dedup_of :: "config \<Rightarrow> message \<Rightarrow> dedupEntry" where
  "dedup_of c m = \<lparr>e_DedupID = m_DedupID m, e_MessageID = m_ID m,
     e_ExpiresAt = time_add (m_CreatedAt m) (dedupWindow c)\<rparr>"

definition registered :: "message \<Rightarrow> queue \<Rightarrow> queue" where
  "registered m q = q\<lparr>q_mem := (q_mem q)(q_brk q := m), q_brk := q_brk q + 1,
     q_nextSeq := (if m_Seq m \<ge> q_nextSeq q then m_Seq m + 1 else q_nextSeq q),
     q_byID := AList.update (m_ID m) (q_brk q) (q_byID q),
     q_dedup := (if m_DedupID m \<noteq> '''' then AList.update (m_DedupID m) (dedup_of (q_cfg q) m) (q_dedup q)
                 else q_dedup q)\<rparr>"

definition filed_msg :: "config \<Rightarrow> gotime \<Rightarrow> message \<Rightarrow> message" where
  "filed_msg c now m = (if m_state m = stateDead then m else placed_msg c now m)"

lemma applyEnqueue_registered:
  "map_of (q_byID q) (m_ID m) = None \<Longrightarrow>
   applyEnqueue m now q =
     (let p = q_brk q; q' = registered m q
      in if m_state m = stateDead
         then Inr ((upd p (\<lambda>m. m\<lparr>m_index := -1\<rparr>) q')\<lparr>q_dlq := q_dlq q' @ [p]\<rparr>)
         else Inr (place p now q'))"
  by (simp add: applyEnqueue_def registered_def dedup_of_def Let_def)

lemma registered_simps [simp]:
  "q_mem (registered m q) = (q_mem q)(q_brk q := m)" "q_brk (registered m q) = q_brk q + 1"
  "q_cfg (registered m q) = q_cfg q" "q_dlq (registered m q) = q_dlq q"
  "q_log (registered m q) = q_log q" "q_failed (registered m q) = q_failed q"
  "q_closed (registered m q) = q_closed q" "q_counters (registered m q) = q_counters q"
  "holder st (registered m q) = holder st q"
  by (cases st; simp add: registered_def)+

lemma update_new:
  assumes "map_of xs k = None"
  shows "AList.update k v xs = xs @ [(k, v)]"
  using assms by (induction xs) (auto split: if_splits)

lemma registered_ids:
  assumes "ids_ok q" and "map_of (q_byID q) (m_ID m) = None"
  shows "ids_ok (registered m q)" and "q_byID (registered m q) = q_byID q @ [(m_ID m, q_brk q)]"
proof -
  show byID: "q_byID (registered m q) = q_byID q @ [(m_ID m, q_brk q)]"
    using assms(2) by (simp add: registered_def update_new)
  have "m_ID m \<notin> fst ` set (q_byID q)" using assms(2) by (simp add: map_of_eq_None_iff)
  moreover have "p < q_brk q" "m_ID (q_mem q p) = k" if "(k, p) \<in> set (q_byID q)" for k p
    using assms(1) that by (auto simp: ids_ok_def)
  ultimately show "ids_ok (registered m q)"
    using assms(1) by (force simp: ids_ok_def byID)
qed

lemma applyEnqueue_spec:
  assumes inv: "queue_inv q" and fresh: "map_of (q_byID q) (m_ID m) = None"
  shows "\<exists>q'. applyEnqueue m now q = Inr q' \<and> queue_inv q' \<and>
    only_heaps (upd (q_brk q) (filed_msg (q_cfg q) now) (registered m q)) q'"
proof -
  let ?S = "snd ` set (q_byID q)" and ?p = "q_brk q" and ?r = "registered m q"
  have ids: "ids_ok q" and pl: "placed ?S q" using inv by (simp_all add: queue_inv_def)
  have p: "?p \<notin> ?S" using ids by (force simp: ids_ok_def)
  note R = registered_ids [OF ids fresh]
  have plr: "placed ?S ?r"
  proof (rule placed_cong [OF pl])
    fix r assume "r \<in> ?S"
    with p have "r \<noteq> ?p" by blast
    then show "q_mem ?r r = q_mem q r" by simp
  qed simp_all
  have S': "snd ` set (q_byID ?r) = insert ?p ?S" by (simp add: R)
  have filed: "m_ID (filed_msg c now m) = m_ID m" for c m
    by (simp add: filed_msg_def placed_msg_def)
  then have "ids_ok (upd ?p (filed_msg (q_cfg q) now) ?r)"
    using R(1) by (auto simp: ids_ok_def)
  then have inv': "queue_inv q'" if "placed (insert ?p ?S) q'"
    "only_heaps (upd ?p (filed_msg (q_cfg q) now) ?r) q'" for q'
    using that only_heaps_inv [OF that(2)] only_heaps_fields(6) [OF that(2)] S'
    by (simp add: queue_inv_def)
  show ?thesis
  proof (cases "m_state m = stateDead")
    case True
    let ?q1 = "upd ?p (\<lambda>m. m\<lparr>m_index := -1\<rparr>) ?r"
    have oh: "only_heaps (upd ?p (filed_msg (q_cfg q) now) ?r) (?q1\<lparr>q_dlq := q_dlq ?r @ [?p]\<rparr>)"
      by (intro only_heaps_dlq only_heaps_upd)
        (simp_all add: filed_msg_def True strip_cong_upd(2) [OF refl])
    moreover have "placed (insert ?p ?S) (?q1\<lparr>q_dlq := q_dlq ?q1 @ [?p]\<rparr>)"
      by (intro dlq_placed upd_placed plr p) (simp_all add: True)
    ultimately show ?thesis
      using inv' True by (simp add: applyEnqueue_registered [OF fresh] Let_def)
  next
    case False
    note P = place_spec [OF plr p, of now]
    have "upd ?p (filed_msg (q_cfg q) now) ?r = upd ?p (placed_msg (q_cfg q) now) ?r"
      using False by (simp add: upd_def filed_msg_def)
    then show ?thesis
      using inv' P False by (simp add: applyEnqueue_registered [OF fresh] Let_def)
  qed
qed

text \<open>The error branches: exactly when the id is taken, or unknown.\<close>

lemma apply_errors:
  "map_of (q_byID q) (m_ID m) \<noteq> None \<Longrightarrow> applyEnqueue m now q = Inl (ErrDuplicateID (m_ID m))"
  "map_of (q_byID q) k = None \<Longrightarrow> applyAck k q = Inl (ErrAckUnknown k)"
  "map_of (q_byID q) k = None \<Longrightarrow> applyAttempt k now q = Inl (ErrAttemptUnknown k)"
  by (auto simp: applyEnqueue_def applyAck_def applyAttempt_def)

lemma applyAck_inv: "queue_inv q \<Longrightarrow> applyAck k q = Inr q' \<Longrightarrow> queue_inv q'"
  using applyAck_spec [of q k] apply_errors(2) [of q k] by (cases "map_of (q_byID q) k") auto

lemma applyAttempt_inv: "queue_inv q \<Longrightarrow> applyAttempt k now q = Inr (q', d) \<Longrightarrow> queue_inv q'"
  using applyAttempt_spec [of q k _ now] apply_errors(3) [of q k now]
  by (cases "map_of (q_byID q) k") auto

lemma applyEnqueue_inv: "queue_inv q \<Longrightarrow> applyEnqueue m now q = Inr q' \<Longrightarrow> queue_inv q'"
  using applyEnqueue_spec [of q m now] apply_errors(1) [of q m now]
  by (cases "map_of (q_byID q) (m_ID m)") auto

lemma queue_inv_new: "queue_inv (newQueue root)"
proof -
  have "holder st (newQueue root) = []" for st by (cases st) (simp_all add: newQueue_def)
  moreover have "q_byID (newQueue root) = []" "q_dlq (newQueue root) = []"
    by (simp_all add: newQueue_def)
  ultimately show ?thesis by (simp add: queue_inv_def ids_ok_def placed_def)
qed

end
