(* ===== verification/Queue_Ops.thy ===== *)
theory Queue_Ops
  imports Queue_Inv
begin

text \<open>
  \<open>internal/queue/queue.go\<close>, the public operations and the background timer. An operation that
  waits for durability outside the mutex is two definitions: its critical section, which returns
  the batch to wait for, and what it does when \<open>Wait\<close> returns. The clock reading and the random
  bytes of an operation are arguments.
\<close>

section \<open>Length of a heap after a pop\<close>

lemma length_items_Swap [simp]: "length (snd (hSwap (msg_heap lt) h i j)) = length (snd h)"
  by (simp add: msg_heap_def items_Swap_def Let_def)

lemma length_down [simp]: "length (snd (fst (down (msg_heap lt) h i n))) = length (snd h)"
proof (induction "n - i" arbitrary: h i rule: less_induct)
  case less
  let ?H = "msg_heap lt" and ?j = "best_child (msg_heap lt) h i n"
  show ?case
  proof (cases "n \<le> 2 * i + 1 \<or> \<not> hLess ?H h ?j i")
    case True
    then show ?thesis by (simp add: down_stop)
  next
    case False
    then have "down ?H h i n = down ?H (hSwap ?H h i ?j) ?j n" by (intro down_step) auto
    moreover have "n - ?j < n - i" using False by (auto simp: best_child_def)
    ultimately show ?thesis using less [of ?j "hSwap ?H h i ?j"] by simp
  qed
qed

lemma length_heap_Pop: "length (snd (fst (heap_Pop (msg_heap lt) h))) = length (snd h) - 1"
proof -
  have "length (snd (fst (hPop (msg_heap lt) h'))) = length (snd h') - 1" for h'
    by (simp add: msg_heap_def items_Pop_def)
  then show ?thesis by (simp add: heap_Pop_def Let_def)
qed

lemma length_pop_held: "length (holder st (fst (pop_held st q))) = length (holder st q) - 1"
  using length_heap_Pop [of "heap_lt (q_cfg q) st" "(q_mem q, holder st q)"]
  by (auto simp: pop_held_def split: prod.split)

lemma push_held_other [simp]: "st' \<noteq> st \<Longrightarrow> holder st' (push_held st p q) = holder st' q"
  by (simp add: push_held_def split: prod.split)

lemma push_held_lists [simp]:
  "st \<noteq> stateReady \<Longrightarrow> q_ready (push_held st p q) = q_ready q"
  "st \<noteq> stateDelayed \<Longrightarrow> q_delayed (push_held st p q) = q_delayed q"
  "st \<noteq> stateInFlight \<Longrightarrow> q_inflight (push_held st p q) = q_inflight q"
  using push_held_other [of stateReady] push_held_other [of stateDelayed]
    push_held_other [of stateInFlight] by auto

lemma upd_lists [simp]:
  "q_ready (upd p f q) = q_ready q" "q_delayed (upd p f q) = q_delayed q"
  "q_inflight (upd p f q) = q_inflight q"
  by (simp_all add: upd_def)

section \<open>Helpers\<close>

definition checkLocked :: "queue \<Rightarrow> go_error option" where
  "checkLocked q = (if q_closed q then Some ErrClosed else q_failed q)"

definition signal :: "queue \<Rightarrow> queue" where
  "signal q = q\<lparr>q_wake := True\<rparr>"

text \<open>\<open>waitDurable\<close> is still waiting (\<open>None\<close>) or has returned.\<close>

definition waitDurable :: "u64 \<Rightarrow> queue \<Rightarrow> (queue \<times> go_error option) option" where
  "waitDurable batch q =
     (case Wait batch (q_log q) of
        None \<Rightarrow> None
      | Some None \<Rightarrow> Some (q, None)
      | Some (Some e) \<Rightarrow>
          Some (if q_failed q = None then q\<lparr>q_failed := Some e\<rparr> else q, Some e))"

text \<open>\<open>q.log.Append\<close> as the queue calls it: an error is kept in \<open>failed\<close>.\<close>

definition append_log :: "rtype \<Rightarrow> byte list \<Rightarrow> queue \<Rightarrow> queue \<times> (go_error + u64)" where
  "append_log t payload q =
     (case Append t payload (q_log q) of
        (l, Inl e) \<Rightarrow> (q\<lparr>q_log := l, q_failed := Some e\<rparr>, Inl e)
      | (l, Inr batch) \<Rightarrow> (q\<lparr>q_log := l\<rparr>, Inr batch))"

definition bump :: "(counters \<Rightarrow> counters) \<Rightarrow> queue \<Rightarrow> queue" where
  "bump f q = q\<lparr>q_counters := f (q_counters q)\<rparr>"

function promoteDue :: "gotime \<Rightarrow> queue \<Rightarrow> queue" where
  "promoteDue now q =
     (if q_delayed q \<noteq> [] \<and> \<not> m_VisibleAt (msg q (hd (q_delayed q))) > now
      then let (q, p) = pop_delayed q;
               q = upd p (\<lambda>m. m\<lparr>m_state := stateReady\<rparr>) q;
               q = upd p (\<lambda>m. m\<lparr>m_effPriority := effectivePriority (q_cfg q) m now\<rparr>) q
           in promoteDue now (push_ready p q)
      else q)"
  by pat_completeness auto

termination promoteDue
proof (relation "measure (\<lambda>(now, q). length (q_delayed q))")
  fix now :: gotime and q :: queue and x y q1 p q2 q3
  assume ne: "q_delayed q \<noteq> [] \<and> \<not> m_VisibleAt (msg q (hd (q_delayed q))) > now"
    and x: "x = pop_delayed q" and y: "(q1, p) = x"
    and q2: "q2 = upd p (\<lambda>m. m\<lparr>m_state := stateReady\<rparr>) q1"
    and q3: "q3 = upd p (\<lambda>m. m\<lparr>m_effPriority := effectivePriority (q_cfg q2) m now\<rparr>) q2"
  have "q_delayed (push_ready p q3) = q_delayed q1"
    by (simp add: held_ops q3 q2)
  moreover have "length (q_delayed q1) = length (q_delayed q) - 1"
    using length_pop_held [of stateDelayed q] x y by (metis fst_conv held_ops(8) holder.simps(2))
  ultimately show "((now, push_ready p q3), now, q) \<in> measure (\<lambda>(now, q). length (q_delayed q))"
    using ne by simp
qed simp

declare promoteDue.simps [simp del]

section \<open>Enqueue\<close>

record enqueueResult =
  er_ID :: string
  er_Seq :: u64
  er_VisibleAt :: gotime
  er_Duplicate :: bool

definition new_message :: "gotime \<Rightarrow> u64 \<Rightarrow> byte list \<Rightarrow> int \<Rightarrow> duration \<Rightarrow> string \<Rightarrow> queue \<Rightarrow> message" where
  "new_message now random payload priority delay dedupID q =
     zero_message\<lparr>m_ID := newID random, m_DedupID := dedupID, m_Seq := q_nextSeq q,
       m_Priority := priority, m_VisibleAt := time_add now delay, m_CreatedAt := now,
       m_Payload := payload\<rparr>"

text \<open>Append the record, then apply it.\<close>

definition enqueue_new ::
  "gotime \<Rightarrow> u64 \<Rightarrow> byte list \<Rightarrow> int \<Rightarrow> duration \<Rightarrow> string \<Rightarrow> queue \<Rightarrow>
   queue \<times> (go_error + enqueueResult \<times> u64 option)" where
  "enqueue_new now random payload priority delay dedupID q =
     (let m = new_message now random payload priority delay dedupID q
      in case append_log TypeEnqueue (encodeMessage m) q of
           (q, Inl e) \<Rightarrow> (q, Inl e)
         | (q, Inr batch) \<Rightarrow>
             (case applyEnqueue m now q of
                Inl e \<Rightarrow> (q, Inl e)
              | Inr q \<Rightarrow>
                  (bump (\<lambda>c. c\<lparr>n_Enqueued := n_Enqueued c + 1\<rparr>) q,
                   Inr (\<lparr>er_ID = m_ID m, er_Seq = m_Seq m, er_VisibleAt = m_VisibleAt m,
                         er_Duplicate = False\<rparr>, Some batch))))"

text \<open>The entry of this deduplication id, when its window is still open.\<close>

definition dedup_hit :: "gotime \<Rightarrow> string \<Rightarrow> queue \<Rightarrow> dedupEntry option" where
  "dedup_hit now dedupID q =
     (if dedupID = '''' then None
      else case map_of (q_dedup q) dedupID of
             None \<Rightarrow> None
           | Some e \<Rightarrow> if now < e_ExpiresAt e then Some e else None)"

text \<open>
  The critical section of \<open>Enqueue\<close>: an error, or the result with the batch to wait for (none for
  a duplicate).
\<close>

definition Enqueue ::
  "gotime \<Rightarrow> u64 \<Rightarrow> byte list \<Rightarrow> int \<Rightarrow> duration \<Rightarrow> string \<Rightarrow> queue \<Rightarrow>
   queue \<times> (go_error + enqueueResult \<times> u64 option)" where
  "Enqueue now random payload priority delay dedupID q =
     (case checkLocked q of Some e \<Rightarrow> (q, Inl e) | None \<Rightarrow>
      case dedup_hit now dedupID q of
        Some e \<Rightarrow>
          (bump (\<lambda>c. c\<lparr>n_Duplicates := n_Duplicates c + 1\<rparr>) q,
           Inr (\<lparr>er_ID = e_MessageID e, er_Seq = 0, er_VisibleAt = zero_time, er_Duplicate = True\<rparr>,
                None))
      | None \<Rightarrow> enqueue_new now random payload priority delay dedupID q)"

text \<open>After the critical section: wait for the batch, then wake the timer.\<close>

definition Enqueue_wait ::
  "enqueueResult \<times> u64 option \<Rightarrow> queue \<Rightarrow> (queue \<times> (go_error + enqueueResult)) option" where
  "Enqueue_wait rb q =
     (case rb of
        (res, None) \<Rightarrow> Some (q, Inr res)
      | (res, Some batch) \<Rightarrow>
          (case waitDurable batch q of
             None \<Rightarrow> None
           | Some (q, Some e) \<Rightarrow> Some (q, Inl e)
           | Some (q, None) \<Rightarrow> Some (signal q, Inr res)))"

section \<open>Dequeue\<close>

definition lease :: "gotime \<Rightarrow> duration \<Rightarrow> queue \<Rightarrow> queue \<times> message" where
  "lease now visibility q =
     (let (q, p) = pop_ready q;
          q = upd p (\<lambda>m. m\<lparr>m_state := stateInFlight\<rparr>) q;
          q = upd p (\<lambda>m. m\<lparr>m_deadline := time_add now visibility\<rparr>) q;
          q = push_inflight p q
      in (q, msg q p))"

lemma lease_shrinks: "q_ready q \<noteq> [] \<Longrightarrow> length (q_ready (fst (lease now v q))) < length (q_ready q)"
proof -
  assume ne: "q_ready q \<noteq> []"
  obtain q1 p where pop: "pop_ready q = (q1, p)" by (cases "pop_ready q")
  have "q_ready (fst (lease now v q)) = q_ready q1"
    using pop by (simp add: lease_def Let_def held_ops)
  moreover have "length (q_ready q1) = length (q_ready q) - 1"
    using length_pop_held [of stateReady q] pop by (metis fst_conv held_ops(7) holder.simps(1))
  ultimately show ?thesis using ne by simp
qed

text \<open>\<open>mx\<close> is the number of messages still wanted.\<close>

function dequeue_loop :: "gotime \<Rightarrow> duration \<Rightarrow> int \<Rightarrow> queue \<Rightarrow> queue \<times> message list" where
  "dequeue_loop now visibility mx q =
     (if 0 < mx \<and> q_ready q \<noteq> []
      then let (q, m) = lease now visibility q; (q, ms) = dequeue_loop now visibility (mx - 1) q
           in (q, m # ms)
      else (q, []))"
  by pat_completeness auto
termination
  by (relation "measure (\<lambda>(now, v, mx, q). length (q_ready q))")
    (auto dest: lease_shrinks, metis fst_conv lease_shrinks)

declare dequeue_loop.simps [simp del]

definition Dequeue ::
  "gotime \<Rightarrow> int \<Rightarrow> duration \<Rightarrow> queue \<Rightarrow> queue \<times> (go_error + message list)" where
  "Dequeue now mx visibility q =
     (let mx = (if mx \<le> 0 then 1 else mx) in
      case checkLocked q of Some e \<Rightarrow> (q, Inl e) | None \<Rightarrow>
      let q = promoteDue now q;
          visibility = (if visibility \<le> 0 then visibilityTimeout (q_cfg q) else visibility);
          (q, out) = dequeue_loop now visibility mx q;
          q = bump (\<lambda>c. c\<lparr>n_Dequeued := n_Dequeued c + of_nat (length out)\<rparr>) q
      in (if out \<noteq> [] then signal q else q, Inr out))"

section \<open>Ack and Nack\<close>

definition Ack :: "string \<Rightarrow> queue \<Rightarrow> queue \<times> (go_error + u64)" where
  "Ack mid q =
     (case checkLocked q of Some e \<Rightarrow> (q, Inl e) | None \<Rightarrow>
      case map_of (q_byID q) mid of
        None \<Rightarrow> (q, Inl ErrNotFound)
      | Some p \<Rightarrow>
          if m_state (msg q p) \<noteq> stateInFlight \<and> m_state (msg q p) \<noteq> stateDead
          then (q, Inl ErrNotInFlight)
          else case append_log TypeAck (bytes_of mid) q of
                 (q, Inl e) \<Rightarrow> (q, Inl e)
               | (q, Inr batch) \<Rightarrow>
                   (case applyAck mid q of
                      Inl e \<Rightarrow> (q, Inl e)
                    | Inr q \<Rightarrow> (bump (\<lambda>c. c\<lparr>n_Acked := n_Acked c + 1\<rparr>) q, Inr batch)))"

definition Ack_wait :: "u64 \<Rightarrow> queue \<Rightarrow> (queue \<times> go_error option) option" where
  "Ack_wait batch q = waitDurable batch q"

definition bump_dead :: "bool \<Rightarrow> queue \<Rightarrow> queue" where
  "bump_dead dead q =
     (if dead then bump (\<lambda>c. c\<lparr>n_DeadLettered := n_DeadLettered c + 1\<rparr>) q else q)"

definition Nack :: "gotime \<Rightarrow> string \<Rightarrow> queue \<Rightarrow> queue \<times> (go_error + u64)" where
  "Nack now mid q =
     (case checkLocked q of Some e \<Rightarrow> (q, Inl e) | None \<Rightarrow>
      case map_of (q_byID q) mid of
        None \<Rightarrow> (q, Inl ErrNotFound)
      | Some p \<Rightarrow>
          if m_state (msg q p) \<noteq> stateInFlight then (q, Inl ErrNotInFlight)
          else case append_log TypeNack (bytes_of mid) q of
                 (q, Inl e) \<Rightarrow> (q, Inl e)
               | (q, Inr batch) \<Rightarrow>
                   (case applyAttempt mid now q of
                      Inl e \<Rightarrow> (q, Inl e)
                    | Inr (q, dead) \<Rightarrow>
                        (bump_dead dead (bump (\<lambda>c. c\<lparr>n_Nacked := n_Nacked c + 1\<rparr>) q),
                         Inr batch)))"

definition Nack_wait :: "u64 \<Rightarrow> queue \<Rightarrow> (queue \<times> go_error option) option" where
  "Nack_wait batch q =
     (case waitDurable batch q of
        None \<Rightarrow> None
      | Some (q, Some e) \<Rightarrow> Some (q, Some e)
      | Some (q, None) \<Rightarrow> Some (signal q, None))"

section \<open>The background timer\<close>

text \<open>
  The loop over expired leases, with the highest batch id so far. Its fuel is a bound on the
  number of rounds; \<open>None\<close> means the bound was reached, which \<open>expire_loop_total\<close> rules out.
\<close>

fun expire_loop :: "nat \<Rightarrow> gotime \<Rightarrow> u64 \<Rightarrow> queue \<Rightarrow> (queue \<times> u64) option" where
  "expire_loop fuel now maxBatch q =
     (if q_inflight q = [] \<or> m_deadline (msg q (hd (q_inflight q))) > now then Some (q, maxBatch)
      else case fuel of 0 \<Rightarrow> None | Suc fuel \<Rightarrow>
        let m = msg q (hd (q_inflight q))
        in case append_log TypeLeaseExpire (bytes_of (m_ID m)) q of
             (q, Inl e) \<Rightarrow> Some (q, maxBatch)
           | (q, Inr batch) \<Rightarrow>
               let maxBatch = (if batch > maxBatch then batch else maxBatch)
               in case applyAttempt (m_ID m) now q of
                    Inl e \<Rightarrow> Some (q\<lparr>q_failed := Some e\<rparr>, maxBatch)
                  | Inr (q, dead) \<Rightarrow>
                      expire_loop fuel now maxBatch
                        (bump_dead dead (bump (\<lambda>c. c\<lparr>n_Expired := n_Expired c + 1\<rparr>) q)))"

declare expire_loop.simps [simp del]

text \<open>The loop of \<open>agePriorities\<close>: the new memory and whether a priority changed.\<close>

definition age_one :: "config \<Rightarrow> gotime \<Rightarrow> ptr \<Rightarrow> mem \<times> bool \<Rightarrow> mem \<times> bool" where
  "age_one c now p s =
     (let m = fst s p; eff = effectivePriority c m now
      in if eff \<noteq> m_effPriority m then ((fst s)(p := m\<lparr>m_effPriority := eff\<rparr>), True) else s)"

definition agePriorities :: "gotime \<Rightarrow> queue \<Rightarrow> queue" where
  "agePriorities now q =
     (let iv = agingInterval (q_cfg q)
      in if iv \<le> 0 \<or> q_ready q = [] \<or> time_sub now (q_lastAge q) < iv then q
         else let q = q\<lparr>q_lastAge := now\<rparr>;
                  (mem, changed) = fold (age_one (q_cfg q) now) (q_ready q) (q_mem q, False);
                  q = q\<lparr>q_mem := mem\<rparr>
         in if changed
            then let (mem, xs) = heap_Init (readyHeap (q_cfg q)) (q_mem q, q_ready q)
                 in q\<lparr>q_mem := mem, q_ready := xs\<rparr>
            else q)"

text \<open>The purge ranges over the map and deletes the keys whose entry has expired.\<close>

definition entry_expired :: "gotime \<Rightarrow> (string, dedupEntry) gomap \<Rightarrow> string \<Rightarrow> bool" where
  "entry_expired now d k = (case map_of d k of None \<Rightarrow> False | Some e \<Rightarrow> \<not> now < e_ExpiresAt e)"

definition purge_dedup :: "gotime \<Rightarrow> queue \<Rightarrow> queue" where
  "purge_dedup now q =
     (if time_sub now (q_lastPurge q) \<ge> dedupPurgeInterval
      then q\<lparr>q_dedup := filter (\<lambda>x. \<not> entry_expired now (q_dedup q) (fst x)) (q_dedup q),
             q_lastPurge := now\<rparr>
      else q)"

definition consider_deadline :: "gotime \<Rightarrow> gotime \<Rightarrow> gotime" where
  "consider_deadline t nxt =
     (if time_is_zero t then nxt
      else if time_is_zero nxt \<or> t < nxt then t else nxt)"

definition nextDeadlineLocked :: "queue \<Rightarrow> gotime" where
  "nextDeadlineLocked q =
     (let nxt = zero_time;
          nxt = (if q_delayed q \<noteq> [] then consider_deadline (m_VisibleAt (msg q (hd (q_delayed q)))) nxt else nxt);
          nxt = (if q_inflight q \<noteq> [] then consider_deadline (m_deadline (msg q (hd (q_inflight q)))) nxt else nxt);
          iv = agingInterval (q_cfg q);
          nxt = (if iv > 0 \<and> q_ready q \<noteq> [] then consider_deadline (time_add (q_lastAge q) iv) nxt else nxt)
      in if q_dedup q \<noteq> [] then consider_deadline (time_add (q_lastPurge q) dedupPurgeInterval) nxt else nxt)"

text \<open>
  The critical section of \<open>tick\<close>, with what follows it: the batch to wait for (0 for none), whether
  to compact, and the next deadline.
\<close>

definition tick :: "gotime \<Rightarrow> queue \<Rightarrow> (queue \<times> u64 \<times> bool \<times> gotime) option" where
  "tick now q =
     (if q_failed q \<noteq> None \<or> q_closed q then Some (q, 0, False, zero_time)
      else let q = promoteDue now q
      in case expire_loop (length (q_inflight q)) now 0 q of
           None \<Rightarrow> None
         | Some (q, maxBatch) \<Rightarrow>
             let q = agePriorities now q;
                 q = purge_dedup now q;
                 sz = log_Size (q_log q);
                 shouldCompact = (q_failed q = None \<and> \<not> q_closed q \<and>
                   sz \<ge> q_compactThreshold q \<and> sz \<ge> q_compactFloor q)
             in Some (q, maxBatch, shouldCompact, nextDeadlineLocked q))"

definition tick_wait :: "u64 \<Rightarrow> queue \<Rightarrow> queue option" where
  "tick_wait maxBatch q =
     (if maxBatch > 0 then map_option fst (waitDurable maxBatch q) else Some q)"

definition SetCompactThreshold :: "int \<Rightarrow> queue \<Rightarrow> queue" where
  "SetCompactThreshold n q = q\<lparr>q_compactThreshold := n\<rparr>"

definition start :: "gotime \<Rightarrow> gotime \<Rightarrow> queue \<Rightarrow> queue" where
  "start now1 now2 q = q\<lparr>q_lastAge := now1, q_lastPurge := now2\<rparr>"

text \<open>
  \<open>Close\<close>: under \<open>closeOnce\<close>, it closes the queue and stops the timer; once the timer goroutine has
  returned, it closes the log, whose own result it returns.
\<close>

definition Close_queue :: "queue \<Rightarrow> queue" where
  "Close_queue q = q\<lparr>q_closed := True, q_done := True\<rparr>"

definition Close_log :: "queue \<Rightarrow> queue \<times> go_error option option" where
  "Close_log q = (let (l, r) = Close_begin (q_log q) in (q\<lparr>q_log := l\<rparr>, r))"

definition Close_return :: "go_error option \<Rightarrow> queue \<Rightarrow> go_error option option" where
  "Close_return close_err q = Close_end close_err (q_log q)"

end
