(* ===== verification/Queue_Safety.thy ===== *)
theory Queue_Safety
  imports Queue_Ops
begin

text \<open>
  The public operations and the timer keep the invariant of the index, and what each of them does
  to the messages: promotion, leasing in comparator order, acknowledgement, failed deliveries,
  expiry, aging.
\<close>

section \<open>Changing fields outside the index\<close>

lemma queue_inv_cong:
  assumes "queue_inv q" and "q_mem q' = q_mem q" and "q_byID q' = q_byID q" and "q_brk q' = q_brk q"
    and "q_cfg q' = q_cfg q" and "\<And>st. holder st q' = holder st q"
  shows "queue_inv q'"
proof -
  have pl: "placed (snd ` set (q_byID q)) q" and ids: "ids_ok q"
    using assms(1) by (simp_all add: queue_inv_def)
  have "placed (snd ` set (q_byID q)) q'"
    by (rule placed_cong [OF pl]) (simp_all only: assms(2,5,6))
  moreover have "ids_ok q'" using ids unfolding ids_ok_def assms(2-4) .
  ultimately show ?thesis by (simp only: queue_inv_def assms(3))
qed

lemma holder_frame [simp]:
  "holder st (q\<lparr>q_log := l\<rparr>) = holder st q" "holder st (q\<lparr>q_failed := e\<rparr>) = holder st q"
  "holder st (q\<lparr>q_counters := c\<rparr>) = holder st q" "holder st (q\<lparr>q_wake := w\<rparr>) = holder st q"
  "holder st (q\<lparr>q_dedup := d\<rparr>) = holder st q" "holder st (q\<lparr>q_lastPurge := t\<rparr>) = holder st q"
  "holder st (q\<lparr>q_lastAge := t\<rparr>) = holder st q" "holder st (q\<lparr>q_closed := b\<rparr>) = holder st q"
  "holder st (q\<lparr>q_compactThreshold := n\<rparr>) = holder st q"
  "holder st (q\<lparr>q_compactFloor := n\<rparr>) = holder st q" "holder st (q\<lparr>q_done := b\<rparr>) = holder st q"
  "holder st (q\<lparr>q_nextSeq := s\<rparr>) = holder st q" "holder st (q\<lparr>q_path := s'\<rparr>) = holder st q"
  by (cases st; simp)+

lemma queue_inv_frame [simp]:
  "queue_inv (q\<lparr>q_log := l\<rparr>) = queue_inv q" "queue_inv (q\<lparr>q_failed := e\<rparr>) = queue_inv q"
  "queue_inv (q\<lparr>q_counters := c\<rparr>) = queue_inv q" "queue_inv (q\<lparr>q_wake := w\<rparr>) = queue_inv q"
  "queue_inv (q\<lparr>q_dedup := d\<rparr>) = queue_inv q" "queue_inv (q\<lparr>q_lastPurge := t\<rparr>) = queue_inv q"
  "queue_inv (q\<lparr>q_lastAge := t\<rparr>) = queue_inv q" "queue_inv (q\<lparr>q_closed := b\<rparr>) = queue_inv q"
  "queue_inv (q\<lparr>q_compactThreshold := n\<rparr>) = queue_inv q"
  "queue_inv (q\<lparr>q_compactFloor := n\<rparr>) = queue_inv q" "queue_inv (q\<lparr>q_done := b\<rparr>) = queue_inv q"
  "queue_inv (q\<lparr>q_nextSeq := s\<rparr>) = queue_inv q" "queue_inv (q\<lparr>q_path := s'\<rparr>) = queue_inv q"
  by (auto elim!: queue_inv_cong [rotated 0])

lemma bump_inv [simp]: "queue_inv (bump f q) = queue_inv q"
  "queue_inv (bump_dead d q) = queue_inv q" "queue_inv (signal q) = queue_inv q"
  by (simp_all add: bump_def bump_dead_def signal_def)

lemma append_log_simps:
  assumes "append_log t p q = (q', r)"
  shows "q' = q\<lparr>q_log := q_log q', q_failed := q_failed q'\<rparr>"
    and "r = Inr b \<Longrightarrow> q' = q\<lparr>q_log := q_log q'\<rparr>" and "r = Inl e \<Longrightarrow> q_failed q' = Some e"
    and "Append t p (q_log q) = (q_log q', r)"
  using assms by (auto simp: append_log_def split: prod.splits sum.splits)

lemma append_log_frame:
  assumes "append_log t p q = (q', r)"
  shows "q_mem q' = q_mem q" "q_byID q' = q_byID q" "q_ready q' = q_ready q"
    "q_delayed q' = q_delayed q" "q_inflight q' = q_inflight q" "q_dlq q' = q_dlq q"
    "q_cfg q' = q_cfg q" "q_closed q' = q_closed q" "q_dedup q' = q_dedup q"
    "q_nextSeq q' = q_nextSeq q" "q_brk q' = q_brk q" "q_counters q' = q_counters q"
  using assms by (auto simp: append_log_def split: prod.splits sum.splits)

lemma append_log_inv: "append_log t p q = (q', r) \<Longrightarrow> queue_inv q \<Longrightarrow> queue_inv q'"
  by (metis append_log_simps(1) queue_inv_frame(1,2))

section \<open>Promotion\<close>

definition map_msgs :: "(ptr \<Rightarrow> message \<Rightarrow> message) \<Rightarrow> queue \<Rightarrow> queue" where
  "map_msgs f q = q\<lparr>q_mem := (\<lambda>p. f p (q_mem q p))\<rparr>"

lemma map_msgs_simps [simp]:
  "q_mem (map_msgs f q) p = f p (q_mem q p)" "q_byID (map_msgs f q) = q_byID q"
  "q_cfg (map_msgs f q) = q_cfg q" "q_brk (map_msgs f q) = q_brk q"
  "q_dedup (map_msgs f q) = q_dedup q" "q_nextSeq (map_msgs f q) = q_nextSeq q"
  "q_log (map_msgs f q) = q_log q" "q_failed (map_msgs f q) = q_failed q"
  "q_closed (map_msgs f q) = q_closed q"
  by (simp_all add: map_msgs_def)

lemma only_heaps_map_msgs:
  assumes "only_heaps (upd p g q) q'"
    and "\<And>r. strip (f' r (q_mem q' r)) = strip (f r (q_mem q r))"
  shows "only_heaps (map_msgs f q) (map_msgs f' q')"
  using assms unfolding only_heaps_def map_msgs_def upd_def by (cases q, cases q') simp

definition promoted :: "gotime \<Rightarrow> queue \<Rightarrow> ptr \<Rightarrow> message \<Rightarrow> message" where
  "promoted now q p m = (if p \<in> set (q_delayed q) then placed_msg (q_cfg q) now m else m)"

text \<open>A message taken from one heap and put on another.\<close>

lemma move_spec:
  assumes inv: "queue_inv q" and st: "st \<noteq> stateDead" and ne: "holder st q \<noteq> []"
    and pop: "pop_held st q = (q1, p)"
    and f: "m_state (f (q_mem q1 p)) = st'" "st' \<noteq> stateDead" "st' \<noteq> st"
      "m_ID (f (q_mem q1 p)) = m_ID (q_mem q1 p)"
      "strip (f (q_mem q1 p)) = strip (f (q_mem q p))"
  shows "queue_inv (push_held st' p (upd p f q1))"
    and "only_heaps (upd p f q) (push_held st' p (upd p f q1))"
    and "set (holder st (push_held st' p (upd p f q1))) = set (holder st q) - {p}"
    and "p = hd (holder st q)"
proof -
  let ?S = "snd ` set (q_byID q)"
  have ids: "ids_ok q" and pl: "placed ?S q" using inv by (simp_all add: queue_inv_def)
  note P = pop_held [OF pl st ne pop]
  have plu: "placed (?S - {p}) (upd p f q1)" using P(1) by (intro upd_placed) simp_all
  have stp: "m_state (q_mem (upd p f q1) p) = st'" using f(1) by simp
  have notin: "p \<notin> ?S - {p}" by simp
  note H = push_held [OF plu notin stp f(2)]
  show oh: "only_heaps (upd p f q) (push_held st' p (upd p f q1))"
    by (rule only_heaps_trans [OF only_heaps_upd H(2)]) (use P(2) f(5) in simp_all)
  have "m_ID (f (q_mem q p)) = m_ID (q_mem q p)"
    using f(4) strip_eqD(1) [OF f(5)] only_heaps_msg(1) [OF P(2)] by simp
  then have "ids_ok (upd p f q)" using ids by (auto simp: ids_ok_def)
  then have "ids_ok (push_held st' p (upd p f q1))" by (rule only_heaps_inv [OF oh])
  moreover have "q_byID (push_held st' p (upd p f q1)) = q_byID q"
    using only_heaps_fields(6) [OF oh] by simp
  ultimately show "queue_inv (push_held st' p (upd p f q1))"
    using H(1) P(4) by (simp add: queue_inv_def insert_absorb)
  show "set (holder st (push_held st' p (upd p f q1))) = set (holder st q) - {p}"
    using P(7) f(3) by simp
  show "p = hd (holder st q)" by (rule P(3))
qed

lemma promote_step:
  assumes inv: "queue_inv q" and ne: "q_delayed q \<noteq> []" and pop: "pop_delayed q = (q1, p)"
    and due: "m_VisibleAt (q_mem q (hd (q_delayed q))) \<le> now"
  shows "queue_inv (push_ready p (upd p (placed_msg (q_cfg q) now) q1))"
    and "only_heaps (upd p (placed_msg (q_cfg q) now) q) (push_ready p (upd p (placed_msg (q_cfg q) now) q1))"
    and "set (q_delayed (push_ready p (upd p (placed_msg (q_cfg q) now) q1))) = set (q_delayed q) - {p}"
    and "upd p (\<lambda>m. m\<lparr>m_effPriority := effectivePriority (q_cfg q1) m now\<rparr>)
           (upd p (\<lambda>m. m\<lparr>m_state := stateReady\<rparr>) q1) = upd p (placed_msg (q_cfg q) now) q1"
proof -
  have pl: "placed (snd ` set (q_byID q)) q" using inv by (simp add: queue_inv_def)
  have ne': "holder stateDelayed q \<noteq> []" and pop': "pop_held stateDelayed q = (q1, p)"
    using ne pop by (simp_all add: held_ops)
  note P = pop_held [OF pl _ ne' pop', simplified]
  have cfg: "q_cfg q1 = q_cfg q" using only_heaps_fields(1) [OF P(2)] .
  have vis: "m_VisibleAt (q_mem q1 p) \<le> now" using due P(3) only_heaps_msg(5) [OF P(2)] by simp
  then have f: "placed_msg (q_cfg q) now (q_mem q1 p) = (q_mem q1 p)\<lparr>m_state := stateReady,
      m_effPriority := effectivePriority (q_cfg q) (q_mem q1 p) now\<rparr>"
    by (simp add: placed_msg_def)
  then show "upd p (\<lambda>m. m\<lparr>m_effPriority := effectivePriority (q_cfg q1) m now\<rparr>)
           (upd p (\<lambda>m. m\<lparr>m_state := stateReady\<rparr>) q1) = upd p (placed_msg (q_cfg q) now) q1"
    by (simp add: upd_def cfg)
  note M = move_spec [OF inv _ ne' pop', of "placed_msg (q_cfg q) now" stateReady]
  have strip: "strip (placed_msg (q_cfg q) now (q_mem q1 p)) = strip (placed_msg (q_cfg q) now (q_mem q p))"
    by (rule strip_cong_upd(8)) (rule only_heaps_fields(16) [OF P(2)])
  show "queue_inv (push_ready p (upd p (placed_msg (q_cfg q) now) q1))"
    and "only_heaps (upd p (placed_msg (q_cfg q) now) q) (push_ready p (upd p (placed_msg (q_cfg q) now) q1))"
    and "set (q_delayed (push_ready p (upd p (placed_msg (q_cfg q) now) q1))) = set (q_delayed q) - {p}"
    using M strip by (simp_all add: f held_ops)
qed

text \<open>When the head of the delayed heap is not due, nothing in it is.\<close>

lemma inv_heap:
  "queue_inv q \<Longrightarrow> st \<noteq> stateDead \<Longrightarrow> heap_ok (heap_lt (q_cfg q) st) (q_mem q) (holder st q)"
  by (auto simp: queue_inv_def intro: placed_heap)

lemma inv_holder:
  "queue_inv q \<Longrightarrow>
   p \<in> set (holder st q) \<longleftrightarrow> p \<in> snd ` set (q_byID q) \<and> m_state (q_mem q p) = st"
  unfolding queue_inv_def using placed_holder by blast

lemma same_state: "m_state m = st \<Longrightarrow> m\<lparr>m_state := st\<rparr> = m"
  by (cases m) simp

lemma none_due:
  assumes inv: "queue_inv q" and "q_delayed q = [] \<or> m_VisibleAt (q_mem q (hd (q_delayed q))) > now"
    and p: "p \<in> set (q_delayed q)"
  shows "m_VisibleAt (q_mem q p) > now"
proof -
  have "heap_ok delayed_less (q_mem q) (q_delayed q)"
    using inv_heap [OF inv, of stateDelayed] by simp
  from delayed.heap_ok_least [OF this p] assms(2) p show ?thesis
    by (auto simp: delayed_less_def split: if_splits)
qed

lemma delayed_state: "queue_inv q \<Longrightarrow> p \<in> set (q_delayed q) \<Longrightarrow> m_state (q_mem q p) = stateDelayed"
  using inv_holder [of q p stateDelayed] by simp

lemma only_heaps_mapI:
  "(\<And>p. strip (f p (q_mem q p)) = strip (q_mem q p)) \<Longrightarrow> only_heaps (map_msgs f q) q"
  by (simp add: only_heaps_def map_msgs_def)

lemma promoteDue_spec:
  assumes "queue_inv q"
  shows "queue_inv (promoteDue now q) \<and> only_heaps (map_msgs (promoted now q) q) (promoteDue now q) \<and>
    (\<forall>p \<in> set (q_delayed (promoteDue now q)). m_VisibleAt (q_mem (promoteDue now q) p) > now)"
  using assms
proof (induction now q rule: promoteDue.induct)
  case (1 now q)
  show ?case
  proof (cases "q_delayed q \<noteq> [] \<and> \<not> m_VisibleAt (msg q (hd (q_delayed q))) > now")
    case False
    then have stop: "promoteDue now q = q" by (subst promoteDue.simps) auto
    have nd: "m_VisibleAt (q_mem q p) > now" if "p \<in> set (q_delayed q)" for p
      by (rule none_due [OF "1.prems" _ that]) (use False in \<open>auto simp: msg_def\<close>)
    have "only_heaps (map_msgs (promoted now q) q) q"
      by (rule only_heaps_mapI)
        (use nd delayed_state [OF "1.prems"] in \<open>auto simp: promoted_def placed_msg_def same_state\<close>)
    then show ?thesis using stop nd "1.prems" by simp
  next
    case True
    obtain q1 p where pop: "pop_delayed q = (q1, p)" by (cases "pop_delayed q")
    let ?q3 = "push_ready p (upd p (placed_msg (q_cfg q) now) q1)"
    note S = promote_step [OF "1.prems" _ pop, of now]
    have S': "queue_inv ?q3" "only_heaps (upd p (placed_msg (q_cfg q) now) q) ?q3"
      "set (q_delayed ?q3) = set (q_delayed q) - {p}"
      using S True by (simp_all add: msg_def)
    have eq: "promoteDue now q = promoteDue now ?q3"
      using True S(4) by (subst promoteDue.simps) (simp add: pop msg_def Let_def)
    have IH: "queue_inv (promoteDue now ?q3) \<and>
        only_heaps (map_msgs (promoted now ?q3) ?q3) (promoteDue now ?q3) \<and>
        (\<forall>p \<in> set (q_delayed (promoteDue now ?q3)). m_VisibleAt (q_mem (promoteDue now ?q3) p) > now)"
      using "1.IH" [OF True] S(4) S'(1) True pop by (simp add: msg_def)
    have p: "p \<in> set (q_delayed q)"
      using "1.prems" True pop pop_held(3) [of _ q stateDelayed q1 p]
      by (auto simp: queue_inv_def held_ops)
    have cfg: "q_cfg ?q3 = q_cfg q" using only_heaps_fields(1) [OF S'(2)] by simp
    have "only_heaps (map_msgs (promoted now q) q) (map_msgs (promoted now ?q3) ?q3)"
    proof (rule only_heaps_map_msgs [OF S'(2)])
      fix r
      have r: "strip (q_mem ?q3 r) = strip (q_mem (upd p (placed_msg (q_cfg q) now) q) r)"
        by (rule only_heaps_fields(16) [OF S'(2)])
      show "strip (promoted now ?q3 r (q_mem ?q3 r)) = strip (promoted now q r (q_mem q r))"
        using r p S'(3) cfg strip_cong_upd(8) [OF r, of "q_cfg q" now]
        by (cases "r = p") (simp_all add: promoted_def)
    qed
    then show ?thesis using IH unfolding eq by (blast intro: only_heaps_trans)
  qed
qed

section \<open>Leasing\<close>

definition leased :: "gotime \<Rightarrow> duration \<Rightarrow> message \<Rightarrow> message" where
  "leased now v m = m\<lparr>m_state := stateInFlight, m_deadline := time_add now v\<rparr>"

lemma leased_fun: "(\<lambda>m. m\<lparr>m_state := stateInFlight, m_deadline := time_add now v\<rparr>) = leased now v"
  by (simp add: leased_def fun_eq_iff)

lemma strip_leased: "strip m' = strip m \<Longrightarrow> strip (leased now v m') = strip (leased now v m)"
  unfolding leased_def by (rule strip_cong_upd(6) [OF strip_cong_upd(1)])

lemma cfg_less_leased [simp]:
  "cfg_less c (leased now v a) b = cfg_less c a b" "cfg_less c a (leased now v b) = cfg_less c a b"
  by (simp_all add: cfg_less_def leased_def)

lemma cfg_less_strip:
  "strip a' = strip a \<Longrightarrow> strip b' = strip b \<Longrightarrow> cfg_less c a' b' = cfg_less c a b"
  by (metis cfg_less_order)

lemma lease_spec:
  assumes inv: "queue_inv q" and ne: "q_ready q \<noteq> []" and ls: "lease now v q = (q', m)"
  shows "queue_inv q'" and "only_heaps (upd (hd (q_ready q)) (leased now v) q) q'"
    and "set (q_ready q') = set (q_ready q) - {hd (q_ready q)}"
    and "strip m = strip (leased now v (q_mem q (hd (q_ready q))))"
    and "r \<in> set (q_ready q) \<Longrightarrow> \<not> cfg_less (q_cfg q) (q_mem q r) (q_mem q (hd (q_ready q)))"
proof -
  obtain q1 p where pop: "pop_held stateReady q = (q1, p)" by (cases "pop_held stateReady q")
  have pl: "placed (snd ` set (q_byID q)) q" using inv by (simp add: queue_inv_def)
  have ne': "holder stateReady q \<noteq> []" using ne by simp
  note P = pop_held [OF pl _ ne' pop, simplified]
  have strip: "strip (leased now v (q_mem q1 p)) = strip (leased now v (q_mem q p))"
    by (rule strip_leased [OF only_heaps_fields(16) [OF P(2)]])
  have q': "q' = push_held stateInFlight p (upd p (leased now v) q1)" and m: "m = q_mem q' p"
    using ls by (auto simp: lease_def Let_def held_ops pop upd_upd leased_fun msg_def)
  note M = move_spec [OF inv _ ne' pop, of "leased now v" stateInFlight, simplified]
  have M': "queue_inv q'" "only_heaps (upd p (leased now v) q) q'"
    "set (q_ready q') = set (q_ready q) - {p}"
    using M strip by (simp_all add: q' leased_def)
  have p: "p = hd (q_ready q)" using P(3) .
  show "queue_inv q'" by (rule M')
  show "only_heaps (upd (hd (q_ready q)) (leased now v) q) q'"
    and "set (q_ready q') = set (q_ready q) - {hd (q_ready q)}" using M' p by simp_all
  show "strip m = strip (leased now v (q_mem q (hd (q_ready q))))"
    using only_heaps_fields(16) [OF M'(2), of p] p by (simp add: m)
  assume "r \<in> set (q_ready q)"
  then show "\<not> cfg_less (q_cfg q) (q_mem q r) (q_mem q (hd (q_ready q)))"
    using ready.heap_ok_least [of "q_cfg q" "q_mem q" "q_ready q" r] inv_heap [OF inv, of stateReady]
    by simp
qed

definition leased_in :: "ptr set \<Rightarrow> gotime \<Rightarrow> duration \<Rightarrow> ptr \<Rightarrow> message \<Rightarrow> message" where
  "leased_in A now v p m = (if p \<in> A then leased now v m else m)"

lemma inv_distinct: "queue_inv q \<Longrightarrow> distinct (holder st q)"
  unfolding queue_inv_def using placed_distinct by blast

text \<open>
  \<open>q'\<close> is \<open>q\<close> with the messages \<open>ps\<close> leased: the first ones of the ready heap, in comparator order.
\<close>

definition dequeued :: "gotime \<Rightarrow> duration \<Rightarrow> queue \<Rightarrow> ptr list \<Rightarrow> queue \<Rightarrow> bool" where
  "dequeued now v q ps q' \<longleftrightarrow> queue_inv q' \<and> distinct ps \<and> set ps \<subseteq> set (q_ready q) \<and>
     set (q_ready q') = set (q_ready q) - set ps \<and>
     only_heaps (map_msgs (leased_in (set ps) now v) q) q' \<and>
     sorted_wrt (\<lambda>a b. \<not> cfg_less (q_cfg q) (q_mem q b) (q_mem q a)) ps \<and>
     (\<forall>p \<in> set ps. \<forall>r \<in> set (q_ready q'). \<not> cfg_less (q_cfg q) (q_mem q r) (q_mem q p))"

lemma dequeued_Nil: "queue_inv q \<Longrightarrow> dequeued now v q [] q"
  by (simp add: dequeued_def only_heaps_mapI leased_in_def)

lemma lease_length:
  assumes "queue_inv q" and "q_ready q \<noteq> []" and "lease now v q = (q1, m)"
  shows "length (q_ready q) = Suc (length (q_ready q1))"
proof -
  note L = lease_spec [OF assms]
  have "card (set (q_ready q)) = Suc (card (set (q_ready q1)))"
    using L(3) assms(2) card_Suc_Diff1 [of "set (q_ready q)" "hd (q_ready q)"] by simp
  then show ?thesis
    using inv_distinct [of _ stateReady] assms(1) L(1) by (simp add: distinct_card [symmetric])
qed

lemma dequeued_Cons:
  assumes inv: "queue_inv q" and ne: "q_ready q \<noteq> []" and ls: "lease now v q = (q1, m)"
    and d: "dequeued now v q1 ps q2"
  shows "dequeued now v q (hd (q_ready q) # ps) q2"
    and "p \<in> set ps \<Longrightarrow> strip (q_mem q1 p) = strip (q_mem q p)"
proof -
  let ?h = "hd (q_ready q)" and ?A = "set ps \<union> set (q_ready q2)"
  note L = lease_spec [OF inv ne ls] and D = d [unfolded dequeued_def]
  have cfg: "q_cfg q1 = q_cfg q" using only_heaps_fields(1) [OF L(2)] by simp
  have A: "r \<noteq> ?h" "r \<in> set (q_ready q)" if "r \<in> ?A" for r
    using that D L(3) by blast+
  have strip1: "strip (q_mem q1 r) = strip (q_mem q r)" if "r \<noteq> ?h" for r
    using only_heaps_fields(16) [OF L(2), of r] that by simp
  then show "p \<in> set ps \<Longrightarrow> strip (q_mem q1 p) = strip (q_mem q p)" using A by blast
  have less: "cfg_less (q_cfg q1) (q_mem q1 a) (q_mem q1 b) = cfg_less (q_cfg q) (q_mem q a) (q_mem q b)"
    if "a \<in> ?A" "b \<in> ?A" for a b
    using A(1) that unfolding cfg by (intro cfg_less_strip strip1)
  have "only_heaps (map_msgs (leased_in (set (?h # ps)) now v) q) (map_msgs (leased_in (set ps) now v) q1)"
  proof (rule only_heaps_map_msgs [OF L(2)])
    fix r
    show "strip (leased_in (set ps) now v r (q_mem q1 r))
        = strip (leased_in (set (?h # ps)) now v r (q_mem q r))"
      using A(1) [of r] strip1 [of r] strip_leased [OF strip1 [of r]] only_heaps_fields(16) [OF L(2), of r]
      by (auto simp: leased_in_def)
  qed
  then have oh: "only_heaps (map_msgs (leased_in (set (?h # ps)) now v) q) q2"
    using D by (blast intro: only_heaps_trans)
  have "sorted_wrt (\<lambda>a b. \<not> cfg_less (q_cfg q1) (q_mem q1 b) (q_mem q1 a)) ps" using D by blast
  then have "sorted_wrt (\<lambda>a b. \<not> cfg_less (q_cfg q) (q_mem q b) (q_mem q a)) ps"
    by (rule sorted_wrt_mono_rel [rotated]) (simp add: less)
  then have so: "sorted_wrt (\<lambda>a b. \<not> cfg_less (q_cfg q) (q_mem q b) (q_mem q a)) (?h # ps)"
    using L(5) A(2) by simp
  have "\<forall>p \<in> set (?h # ps). \<forall>r \<in> set (q_ready q2). \<not> cfg_less (q_cfg q) (q_mem q r) (q_mem q p)"
    using D less L(5) A(2) by simp
  moreover have "distinct (?h # ps)" using D A(1) by auto
  moreover have "set (?h # ps) \<subseteq> set (q_ready q)" using A(2) ne by auto
  moreover have "set (q_ready q2) = set (q_ready q) - set (?h # ps)" using D L(3) by auto
  ultimately show "dequeued now v q (?h # ps) q2"
    using D so oh unfolding dequeued_def by blast
qed

lemma dequeue_loop_spec:
  assumes "queue_inv q" and "dequeue_loop now v n q = (q', ms)"
  shows "\<exists>ps. dequeued now v q ps q' \<and> length ps = min (nat n) (length (q_ready q)) \<and>
    map strip ms = map (\<lambda>p. strip (leased now v (q_mem q p))) ps"
  using assms
proof (induction now v n q arbitrary: q' ms rule: dequeue_loop.induct)
  case (1 now v n q)
  show ?case
  proof (cases "0 < n \<and> q_ready q \<noteq> []")
    case False
    then have "q' = q" "ms = []" using "1.prems"(2) by (subst (asm) dequeue_loop.simps, force)+
    then show ?thesis
      using False "1.prems"(1) dequeued_Nil by (intro exI [of _ "[]"]) auto
  next
    case True
    obtain q1 m where ls: "lease now v q = (q1, m)" by (cases "lease now v q")
    obtain q2 ms' where dl: "dequeue_loop now v (n - 1) q1 = (q2, ms')"
      by (cases "dequeue_loop now v (n - 1) q1")
    have q': "q' = q2" "ms = m # ms'"
      using "1.prems"(2) True ls dl by (subst (asm) dequeue_loop.simps, simp)+
    have ne: "q_ready q \<noteq> []" using True by simp
    note L = lease_spec [OF "1.prems"(1) ne ls]
    from "1.IH" [OF True ls [symmetric] refl L(1) dl] obtain ps where
      ps: "dequeued now v q1 ps q2" "length ps = min (nat (n - 1)) (length (q_ready q1))"
      "map strip ms' = map (\<lambda>p. strip (leased now v (q_mem q1 p))) ps" by auto
    note C = dequeued_Cons [OF "1.prems"(1) ne ls ps(1)]
    have "map strip ms = map (\<lambda>p. strip (leased now v (q_mem q p))) (hd (q_ready q) # ps)"
      using L(4) ps(3) strip_leased [OF C(2)] by (simp add: q')
    then show ?thesis
      using C(1) ps(2) lease_length [OF "1.prems"(1) ne ls] True
      by (intro exI [of _ "hd (q_ready q) # ps"]) (auto simp: q')
  qed
qed

section \<open>Expiry\<close>

lemma inv_lookup:
  assumes "queue_inv q" and "p \<in> snd ` set (q_byID q)"
  shows "map_of (q_byID q) (m_ID (q_mem q p)) = Some p"
proof -
  from assms(2) obtain k where k: "(k, p) \<in> set (q_byID q)" by auto
  with assms(1) show ?thesis
    by (force simp: queue_inv_def ids_ok_def intro: map_of_is_SomeI)
qed

lemma attempted_state: "m_state (attempted_msg c now m) \<in> {stateReady, stateDead}"
  by (simp add: attempted_msg_def placed_msg_def)

lemma attempt_leaves_inflight:
  assumes inv: "queue_inv q" and p: "p \<in> set (q_inflight q)"
    and oh: "only_heaps (upd p (attempted_msg (q_cfg q) now) q) q'" and inv': "queue_inv q'"
  shows "set (q_inflight q') = set (q_inflight q) - {p}"
    and "length (q_inflight q) = Suc (length (q_inflight q'))"
proof -
  have byID: "q_byID q' = q_byID q" using only_heaps_fields(6) [OF oh] by simp
  have st: "m_state (q_mem q' r) = (if r = p then m_state (attempted_msg (q_cfg q) now (q_mem q p))
      else m_state (q_mem q r))" for r
    using only_heaps_msg(9) [OF oh, of r] by simp
  have set: "r \<in> set (q_inflight q') \<longleftrightarrow> r \<in> set (q_inflight q) - {p}" for r
    using inv_holder [OF inv, of r stateInFlight] inv_holder [OF inv', of r stateInFlight]
      attempted_state [of "q_cfg q" now "q_mem q p"]
    by (auto simp: byID st)
  then show *: "set (q_inflight q') = set (q_inflight q) - {p}" by blast
  then have "card (set (q_inflight q)) = Suc (card (set (q_inflight q')))"
    using p card_Suc_Diff1 [of "set (q_inflight q)" p] by simp
  then show "length (q_inflight q) = Suc (length (q_inflight q'))"
    using inv_distinct [OF inv, of stateInFlight] inv_distinct [OF inv', of stateInFlight]
    by (simp add: distinct_card [symmetric])
qed

lemma no_lease_due:
  assumes inv: "queue_inv q" and "q_inflight q = [] \<or> m_deadline (q_mem q (hd (q_inflight q))) > now"
    and p: "p \<in> set (q_inflight q)"
  shows "m_deadline (q_mem q p) > now"
proof -
  have "heap_ok lease_less (q_mem q) (q_inflight q)"
    using inv_heap [OF inv, of stateInFlight] by simp
  from lease.heap_ok_least [OF this p] assms(2) p show ?thesis
    by (auto simp: lease_less_def split: if_splits)
qed

text \<open>One round of the loop: the lease at the head is given up.\<close>

lemma expire_round:
  assumes inv: "queue_inv q" and ne: "q_inflight q \<noteq> []"
    and ap: "append_log t pl q = (q1, Inr b)"
  shows "\<exists>q2 d. applyAttempt (m_ID (q_mem q (hd (q_inflight q)))) now q1 = Inr (q2, d) \<and>
    queue_inv q2 \<and> length (q_inflight q) = Suc (length (q_inflight q2)) \<and>
    q_failed q2 = q_failed q \<and> q_closed q2 = q_closed q"
proof -
  let ?p = "hd (q_inflight q)"
  note mem = append_log_frame [OF ap]
  have failed: "q_failed q1 = q_failed q"
    using ap by (auto simp: append_log_def split: prod.splits sum.splits)
  have inv1: "queue_inv q1" using append_log_inv [OF ap inv] .
  have p: "?p \<in> set (q_inflight q)" using ne by simp
  have "?p \<in> snd ` set (q_byID q)" using inv_holder [OF inv, of ?p stateInFlight] p by simp
  from inv_lookup [OF inv this] have "map_of (q_byID q1) (m_ID (q_mem q ?p)) = Some ?p"
    by (simp add: mem)
  from applyAttempt_spec [OF inv1 this, of now] obtain q2 where
    q2: "applyAttempt (m_ID (q_mem q ?p)) now q1
      = Inr (q2, m_Attempts (attempts_up (q_mem q1 ?p)) \<ge> c_MaxAttempts (q_cfg q1))"
    "queue_inv q2" "only_heaps (upd ?p (attempted_msg (q_cfg q1) now) q1) q2" by blast
  have "?p \<in> set (q_inflight q1)" using p by (simp add: mem)
  from attempt_leaves_inflight(2) [OF inv1 this q2(3,2)] show ?thesis
    using q2 only_heaps_fields [OF q2(3)] by (simp add: mem failed)
qed

lemma bump_simps [simp]:
  "q_inflight (bump f q) = q_inflight q" "q_failed (bump f q) = q_failed q"
  "q_mem (bump f q) = q_mem q" "q_inflight (bump_dead d q) = q_inflight q"
  "q_failed (bump_dead d q) = q_failed q" "q_mem (bump_dead d q) = q_mem q"
  "q_closed (bump f q) = q_closed q" "q_closed (bump_dead d q) = q_closed q"
  by (simp_all add: bump_def bump_dead_def)

lemma expire_loop_total:
  assumes "queue_inv q" and "length (q_inflight q) \<le> fuel"
  shows "\<exists>q' b'. expire_loop fuel now b q = Some (q', b') \<and> queue_inv q' \<and>
    (q_failed q' = None \<longrightarrow> (\<forall>p \<in> set (q_inflight q'). m_deadline (q_mem q' p) > now))"
  using assms
proof (induction fuel arbitrary: b q)
  case 0
  then show ?case by (subst expire_loop.simps) simp
next
  case (Suc fuel)
  show ?case
  proof (cases "q_inflight q = [] \<or> m_deadline (q_mem q (hd (q_inflight q))) > now")
    case True
    then show ?thesis
      using Suc.prems no_lease_due [OF Suc.prems(1) True]
      by (subst expire_loop.simps) (auto simp: msg_def)
  next
    case False
    let ?m = "q_mem q (hd (q_inflight q))"
    obtain q1 r where ap: "append_log TypeLeaseExpire (bytes_of (m_ID ?m)) q = (q1, r)"
      by (cases "append_log TypeLeaseExpire (bytes_of (m_ID ?m)) q")
    show ?thesis
    proof (cases r)
      case (Inl e)
      then show ?thesis
        using False ap append_log_simps(3) [OF ap Inl] append_log_inv [OF ap Suc.prems(1)]
        by (subst expire_loop.simps) (simp add: msg_def Let_def)
    next
      case (Inr batch)
      from expire_round [OF Suc.prems(1) _ ap [unfolded Inr], of now] False obtain q2 d where
        q2: "applyAttempt (m_ID ?m) now q1 = Inr (q2, d)" "queue_inv q2"
        "length (q_inflight q) = Suc (length (q_inflight q2))" by auto
      let ?q3 = "bump_dead d (bump (\<lambda>c. c\<lparr>n_Expired := n_Expired c + 1\<rparr>) q2)"
      have "\<exists>q' b'. expire_loop fuel now (if batch > b then batch else b) ?q3 = Some (q', b') \<and>
        queue_inv q' \<and> (q_failed q' = None \<longrightarrow> (\<forall>p \<in> set (q_inflight q'). m_deadline (q_mem q' p) > now))"
        by (rule Suc.IH) (use q2 Suc.prems(2) in simp_all)
      then show ?thesis
        using False ap Inr q2(1) by (subst expire_loop.simps) (simp add: msg_def Let_def)
    qed
  qed
qed

section \<open>Aging\<close>

definition aged :: "config \<Rightarrow> gotime \<Rightarrow> message \<Rightarrow> message" where
  "aged c now m = m\<lparr>m_effPriority := effectivePriority c m now\<rparr>"

lemma aged_same: "effectivePriority c m now = m_effPriority m \<Longrightarrow> aged c now m = m"
  by (cases m) (simp add: aged_def)

lemma age_fold:
  assumes "distinct ps"
  shows "fst (fold (age_one c now) ps (mem, b)) = (\<lambda>p. if p \<in> set ps then aged c now (mem p) else mem p)"
    and "\<not> snd (fold (age_one c now) ps (mem, b)) \<Longrightarrow> fst (fold (age_one c now) ps (mem, b)) = mem \<and> \<not> b"
  using assms
proof (induction ps arbitrary: mem b)
  case (Cons p ps)
  { case 1
    then show ?case
      using Cons.IH(1) [where mem = "fst (age_one c now p (mem, b))" and b = "snd (age_one c now p (mem, b))"]
      by (auto simp: age_one_def Let_def aged_def fun_eq_iff aged_same [unfolded aged_def])
  next
    case 2
    then show ?case
      using Cons.IH(2) [where mem = "fst (age_one c now p (mem, b))" and b = "snd (age_one c now p (mem, b))"]
      by (auto simp: age_one_def Let_def split: if_splits)
  }
qed auto

lemma strip_aged: "strip m' = strip m \<Longrightarrow> strip (aged c now m') = strip (aged c now m)"
proof -
  assume s: "strip m' = strip m"
  have "effectivePriority c m' now = effectivePriority c m now" by (rule strip_cong_upd(7) [OF s])
  then show ?thesis unfolding aged_def by (simp only:) (rule strip_cong_upd(5) [OF s])
qed

definition aged_in :: "ptr set \<Rightarrow> config \<Rightarrow> gotime \<Rightarrow> ptr \<Rightarrow> message \<Rightarrow> message" where
  "aged_in A c now p m = (if p \<in> A then aged c now m else m)"

text \<open>Rebuilding the ready heap after its priorities have changed restores the invariant.\<close>

lemma reheap_inv:
  assumes inv: "queue_inv q" and f: "\<And>p. p \<in> set (q_ready q) \<or> f p (q_mem q p) = q_mem q p"
    and keep: "\<And>p. m_ID (f p (q_mem q p)) = m_ID (q_mem q p)"
      "\<And>p. m_state (f p (q_mem q p)) = m_state (q_mem q p)"
      "\<And>p. m_index (f p (q_mem q p)) = m_index (q_mem q p)"
    and init: "heap_Init (readyHeap (q_cfg q)) (q_mem (map_msgs f q), q_ready q) = (mem, xs)"
  shows "queue_inv (q\<lparr>q_mem := mem, q_ready := xs\<rparr>)"
    and "only_heaps (map_msgs f q) (q\<lparr>q_mem := mem, q_ready := xs\<rparr>)"
proof -
  let ?mem = "q_mem (map_msgs f q)" and ?S = "snd ` set (q_byID q)"
  have pl: "placed ?S q" and ids: "ids_ok q" using inv by (simp_all add: queue_inv_def)
  have "indexed (q_mem q) (q_ready q)"
    using inv_heap [OF inv, of stateReady] by (simp add: heap_ok_def)
  then have "indexed ?mem (q_ready q)"
    by (subst indexed_cong [of _ _ "q_mem q"]) (simp_all add: keep)
  note I = ready.Init_ok [OF this init [unfolded readyHeap_def]]
  show oh: "only_heaps (map_msgs f q) (q\<lparr>q_mem := mem, q_ready := xs\<rparr>)"
    using idx_onlyD(1) [OF I(3)] by (simp add: only_heaps_def map_msgs_def)
  have st: "m_state (mem r) = m_state (q_mem q r)" "m_ID (mem r) = m_ID (q_mem q r)" for r
    using idx_only_fields(9,1) [OF I(3), of r] by (simp_all add: keep)
  have same: "mem r = q_mem q r" if "r \<in> set (holder st' q)" "st' \<noteq> stateReady" for r st'
  proof -
    have "r \<notin> set (q_ready q)"
      using that inv_holder [OF inv, of r st'] inv_holder [OF inv, of r stateReady] by auto
    then show ?thesis using idx_onlyD(2) [OF I(3)] f [of r] by simp
  qed
  have xs: "set xs = set (q_ready q)" using I(2) by (metis set_mset_mset)
  have h: "holder st' (q\<lparr>q_mem := mem, q_ready := xs\<rparr>) = (if st' = stateReady then xs else holder st' q)"
    for st' by (cases st') simp_all
  have "heap_ok (heap_lt (q_cfg q) st') mem (holder st' q)" if "st' \<noteq> stateDead" "st' \<noteq> stateReady" for st'
  proof -
    have "heap_ok (heap_lt (q_cfg q) st') mem (holder st' q)
        = heap_ok (heap_lt (q_cfg q) st') (q_mem q) (holder st' q)"
      using same that by (intro heap_ok_cong) blast
    then show ?thesis using inv_heap [OF inv that(1)] by simp
  qed
  then have "placed ?S (q\<lparr>q_mem := mem, q_ready := xs\<rparr>)"
    using pl I(1) xs same [of _ stateDead] st placed_holder [OF pl, of _ stateReady]
    by (auto simp: placed_def h)
  then show "queue_inv (q\<lparr>q_mem := mem, q_ready := xs\<rparr>)"
    using ids st by (auto simp: queue_inv_def ids_ok_def)
qed

text \<open>
  When the aging interval has passed, every ready message gets the effective priority of this
  moment; otherwise nothing happens.
\<close>

definition aging_due :: "gotime \<Rightarrow> queue \<Rightarrow> bool" where
  "aging_due now q \<longleftrightarrow> agingInterval (q_cfg q) > 0 \<and> q_ready q \<noteq> [] \<and>
     time_sub now (q_lastAge q) \<ge> agingInterval (q_cfg q)"

lemma agePriorities_not_due: "\<not> aging_due now q \<Longrightarrow> agePriorities now q = q"
  by (auto simp: agePriorities_def aging_due_def Let_def)

lemma agePriorities_due:
  assumes inv: "queue_inv q" and due: "aging_due now q"
  shows "queue_inv (agePriorities now q)"
    and "only_heaps (map_msgs (aged_in (set (q_ready q)) (q_cfg q) now) (q\<lparr>q_lastAge := now\<rparr>))
      (agePriorities now q)"
proof -
  let ?f = "aged_in (set (q_ready q)) (q_cfg q) now" and ?q = "q\<lparr>q_lastAge := now\<rparr>"
  have d: "distinct (q_ready q)" using inv_distinct [OF inv, of stateReady] by simp
  obtain mem changed where fold: "fold (age_one (q_cfg q) now) (q_ready q) (q_mem q, False) = (mem, changed)"
    by (metis prod.exhaust)
  note A = age_fold [OF d, of "q_cfg q" now "q_mem q" False, unfolded fold, simplified]
  have mem: "mem = q_mem (map_msgs ?f ?q)"
    using A(1) by (simp add: map_msgs_def aged_in_def fun_eq_iff)
  have inv': "queue_inv ?q" using inv by simp
  have age: "agePriorities now q = (if changed
      then let (mem, xs) = heap_Init (readyHeap (q_cfg q)) (mem, q_ready q)
           in ?q\<lparr>q_mem := mem, q_ready := xs\<rparr>
      else ?q\<lparr>q_mem := mem\<rparr>)"
    using due by (auto simp: agePriorities_def aging_due_def Let_def fold)
  have "queue_inv (agePriorities now q) \<and> only_heaps (map_msgs ?f ?q) (agePriorities now q)"
  proof (cases changed)
    case True
    obtain mem' xs where init: "heap_Init (readyHeap (q_cfg q)) (mem, q_ready q) = (mem', xs)"
      by (metis prod.exhaust)
    have init': "heap_Init (readyHeap (q_cfg ?q)) (q_mem (map_msgs ?f ?q), q_ready ?q) = (mem', xs)"
      using init mem by simp
    have "queue_inv (?q\<lparr>q_mem := mem', q_ready := xs\<rparr>) \<and>
        only_heaps (map_msgs ?f ?q) (?q\<lparr>q_mem := mem', q_ready := xs\<rparr>)"
      by (intro conjI reheap_inv [OF inv' _ _ _ _ init']) (auto simp: aged_in_def aged_def)
    then show ?thesis using age True init by simp
  next
    case False
    then have "mem = q_mem q" using A(2) by simp
    moreover have "only_heaps (map_msgs ?f ?q) ?q"
    proof (rule only_heaps_mapI)
      fix p
      have "mem p = ?f p (q_mem q p)" by (simp add: mem)
      with calculation show "strip (?f p (q_mem ?q p)) = strip (q_mem ?q p)" by simp
    qed
    ultimately show ?thesis using age False inv' by simp
  qed
  then show "queue_inv (agePriorities now q)" "only_heaps (map_msgs ?f ?q) (agePriorities now q)"
    by simp_all
qed

lemma agePriorities_inv: "queue_inv q \<Longrightarrow> queue_inv (agePriorities now q)"
  using agePriorities_due(1) agePriorities_not_due by (cases "aging_due now q") metis+

end
