(* ===== verification/Queue_Spec.thy ===== *)
theory Queue_Spec
  imports Queue_Safety
begin

text \<open>
  What a queue promises, without heaps, pointers, clock or index fields: a map from ids to the
  durable part of their messages, the deduplication map, the sequence counter and the
  configuration. \<open>a_apply\<close> says what a log record does to that state. The transitions of
  \<open>queue.go\<close> refine it whatever the clock says, so that the state a running queue reaches and the
  state a replay of its log reaches are the same abstract state.
\<close>

section \<open>The abstract queue\<close>

record aqueue =
  a_cfg :: config
  a_msgs :: "string \<Rightarrow> message option"
  a_dedup :: "string \<Rightarrow> dedupEntry option"
  a_nextSeq :: u64

text \<open>
  The durable part of a message. Whether it is dead lasts; whether it is ready, delayed or leased,
  its place in a heap, its lease and its aged priority do not. The time it becomes visible is
  durable until the first failed delivery, which makes it visible at once.
\<close>

definition durable :: "message \<Rightarrow> message" where
  "durable m = m\<lparr>m_state := (if m_state m = stateDead then stateDead else stateReady),
     m_VisibleAt := (if m_Attempts m = 0 then m_VisibleAt m else 0),
     m_index := 0, m_effPriority := 0, m_deadline := 0\<rparr>"

definition absq :: "queue \<Rightarrow> aqueue" where
  "absq q = \<lparr>a_cfg = q_cfg q,
     a_msgs = (\<lambda>k. map_option (\<lambda>p. durable (q_mem q p)) (map_of (q_byID q) k)),
     a_dedup = map_of (q_dedup q), a_nextSeq = q_nextSeq q\<rparr>"

definition a_enqueue :: "message \<Rightarrow> aqueue \<Rightarrow> go_error + aqueue" where
  "a_enqueue m a =
     (if a_msgs a (m_ID m) \<noteq> None then Inl (ErrDuplicateID (m_ID m))
      else Inr (a\<lparr>a_msgs := (a_msgs a)(m_ID m \<mapsto> durable m),
             a_dedup := (if m_DedupID m \<noteq> '''' then (a_dedup a)(m_DedupID m \<mapsto> dedup_of (a_cfg a) m)
                         else a_dedup a),
             a_nextSeq := (if m_Seq m \<ge> a_nextSeq a then m_Seq m + 1 else a_nextSeq a)\<rparr>))"

definition a_ack :: "string \<Rightarrow> aqueue \<Rightarrow> go_error + aqueue" where
  "a_ack k a =
     (if a_msgs a k = None then Inl (ErrAckUnknown k)
      else Inr (a\<lparr>a_msgs := (a_msgs a)(k := None)\<rparr>))"

text \<open>One more failed delivery; at the limit the message dies.\<close>

definition a_failed :: "config \<Rightarrow> message \<Rightarrow> message" where
  "a_failed c m =
     (let n = i64 (m_Attempts m + 1)
      in m\<lparr>m_Attempts := n, m_VisibleAt := 0,
           m_state := (if n \<ge> c_MaxAttempts c then stateDead else stateReady)\<rparr>)"

definition a_attempt :: "string \<Rightarrow> aqueue \<Rightarrow> go_error + aqueue" where
  "a_attempt k a =
     (case a_msgs a k of
        None \<Rightarrow> Inl (ErrAttemptUnknown k)
      | Some m \<Rightarrow> Inr (a\<lparr>a_msgs := (a_msgs a)(k \<mapsto> a_failed (a_cfg a) m)\<rparr>))"

definition a_meta :: "byte list \<Rightarrow> aqueue \<Rightarrow> go_error + aqueue" where
  "a_meta payload a =
     bindE (decodeConfig payload) (\<lambda>cfg. bindE (Validate cfg) (\<lambda>cfg.
     Inr (a\<lparr>a_cfg := cfg, a_nextSeq := max (a_nextSeq a) (c_NextSeq cfg)\<rparr>)))"

definition a_apply :: "entry \<Rightarrow> aqueue \<Rightarrow> go_error + aqueue" where
  "a_apply e a =
     (let t = fst e; payload = snd e
      in if t = TypeMeta then a_meta payload a
      else if t = TypeEnqueue then bindE (decodeMessage payload) (\<lambda>m. a_enqueue m a)
      else if t = TypeAck then a_ack (string_of payload) a
      else if t = TypeNack \<or> t = TypeLeaseExpire then a_attempt (string_of payload) a
      else if t = TypeDedup then
        bindE (decodeDedup payload) (\<lambda>d. Inr (a\<lparr>a_dedup := (a_dedup a)(e_DedupID d \<mapsto> d)\<rparr>))
      else Inl (ErrUnhandledType t))"

fun a_run :: "entry list \<Rightarrow> aqueue \<Rightarrow> go_error + aqueue" where
  "a_run [] a = Inr a"
| "a_run (e # es) a = bindE (a_apply e a) (a_run es)"

lemma a_run_append: "a_run (xs @ ys) a = bindE (a_run xs a) (a_run ys)"
proof (induction xs arbitrary: a)
  case (Cons x xs)
  then show ?case by (cases "a_apply x a") simp_all
qed simp

section \<open>The durable part under the transitions\<close>

lemma durable_strip: "strip m' = strip m \<Longrightarrow> durable m' = durable m"
  by (cases m, cases m') (simp add: strip_def durable_def)

lemma durable_ID [simp]: "m_ID (durable m) = m_ID m"
  by (simp add: durable_def)

lemma durable_placed [simp]: "m_state m \<noteq> stateDead \<Longrightarrow> durable (placed_msg c now m) = durable m"
  by (simp add: durable_def placed_msg_def)

lemma durable_filed [simp]: "durable (filed_msg c now m) = durable m"
  by (simp add: filed_msg_def)

lemma durable_leased [simp]: "m_state m \<noteq> stateDead \<Longrightarrow> durable (leased now v m) = durable m"
  by (simp add: durable_def leased_def)

lemma durable_aged [simp]: "durable (aged c now m) = durable m"
  by (simp add: durable_def aged_def)

lemma durable_attempted:
  assumes "i64 (m_Attempts m + 1) \<noteq> 0"
  shows "durable (attempted_msg c now m) = a_failed c (durable m)"
  using assms by (simp add: durable_def attempted_msg_def attempts_up_def placed_msg_def a_failed_def Let_def)

text \<open>Heap operations do not show, and a change of one message shows under its id only.\<close>

lemma abs_only_heaps: "only_heaps q q' \<Longrightarrow> absq q' = absq q"
  by (simp add: absq_def only_heaps_fields durable_strip [OF only_heaps_fields(16)])

lemma abs_map_msgs:
  assumes "\<And>k p. map_of (q_byID q) k = Some p \<Longrightarrow> durable (f p (q_mem q p)) = durable (q_mem q p)"
  shows "absq (map_msgs f q) = absq q"
  using assms by (auto simp: absq_def fun_eq_iff map_option_case split: option.split)

lemma abs_upd:
  assumes "queue_inv q" and "map_of (q_byID q) k = Some p"
  shows "absq (upd p f q) = (absq q)\<lparr>a_msgs := (a_msgs (absq q))(k \<mapsto> durable (f (q_mem q p)))\<rparr>"
proof -
  have p: "map_of (q_byID q) k' = Some p \<longleftrightarrow> k' = k" for k'
    using assms ids_okD(1) [of q] by (auto simp: queue_inv_def)
  have "a_msgs (absq (upd p f q)) k' = ((a_msgs (absq q))(k \<mapsto> durable (f (q_mem q p)))) k'" for k'
    using assms(2) p [of k'] by (cases "map_of (q_byID q) k'") (auto simp: absq_def)
  then show ?thesis by (simp add: absq_def fun_eq_iff)
qed

lemma abs_registered:
  assumes inv: "queue_inv q" and fresh: "map_of (q_byID q) (m_ID m) = None"
    and f: "durable (f m) = durable m"
  shows "absq (upd (q_brk q) f (registered m q))
    = (absq q)\<lparr>a_msgs := (a_msgs (absq q))(m_ID m \<mapsto> durable m),
        a_dedup := (if m_DedupID m \<noteq> '''' then (a_dedup (absq q))(m_DedupID m \<mapsto> dedup_of (a_cfg (absq q)) m)
                    else a_dedup (absq q)),
        a_nextSeq := (if m_Seq m \<ge> a_nextSeq (absq q) then m_Seq m + 1 else a_nextSeq (absq q))\<rparr>"
proof -
  have lt: "p < q_brk q" if "map_of (q_byID q) k = Some p" for k p
    using inv ids_okD(2) that by (auto simp: queue_inv_def)
  then have "map_of (q_byID q) k \<noteq> Some (q_brk q)" for k by blast
  then show ?thesis
    using fresh f
    by (auto simp: absq_def registered_def fun_eq_iff map_option_case update_conv' split: option.split)
qed

section \<open>Refinement\<close>

lemma applyEnqueue_refines:
  assumes "queue_inv q"
  shows "map_sum id absq (applyEnqueue m now q) = a_enqueue m (absq q)"
proof (cases "map_of (q_byID q) (m_ID m)")
  case None
  from applyEnqueue_spec [OF assms None, of now] obtain q' where
    q': "applyEnqueue m now q = Inr q'"
    "only_heaps (upd (q_brk q) (filed_msg (q_cfg q) now) (registered m q)) q'" by blast
  have "absq q' = absq (upd (q_brk q) (filed_msg (q_cfg q) now) (registered m q))"
    by (rule abs_only_heaps [OF q'(2)])
  then show ?thesis
    using q'(1) None abs_registered [OF assms None, of "filed_msg (q_cfg q) now"]
    by (simp add: a_enqueue_def absq_def)
next
  case (Some p)
  then show ?thesis by (simp add: apply_errors a_enqueue_def absq_def)
qed

lemma abs_delete:
  "absq (q\<lparr>q_byID := AList.delete k (q_byID q)\<rparr>) = (absq q)\<lparr>a_msgs := (a_msgs (absq q))(k := None)\<rparr>"
  by (auto simp: absq_def fun_eq_iff delete_conv')

lemma applyAck_refines:
  assumes "queue_inv q"
  shows "map_sum id absq (applyAck k q) = a_ack k (absq q)"
proof (cases "map_of (q_byID q) k")
  case None
  then show ?thesis by (simp add: apply_errors a_ack_def absq_def)
next
  case (Some p)
  from applyAck_spec [OF assms Some] obtain q' where
    q': "applyAck k q = Inr q'" "only_heaps (q\<lparr>q_byID := AList.delete k (q_byID q)\<rparr>) q'" by blast
  have "absq q' = absq (q\<lparr>q_byID := AList.delete k (q_byID q)\<rparr>)" by (rule abs_only_heaps [OF q'(2)])
  then show ?thesis using q'(1) Some by (simp add: a_ack_def abs_delete) (simp add: absq_def)
qed

text \<open>The attempt counters are small: none has come near the end of its range.\<close>

definition attempts_below :: "int \<Rightarrow> queue \<Rightarrow> bool" where
  "attempts_below n q \<longleftrightarrow> (\<forall>p \<in> snd ` set (q_byID q). 0 \<le> m_Attempts (q_mem q p) \<and> m_Attempts (q_mem q p) < n)"

lemma attempts_belowD:
  "attempts_below n q \<Longrightarrow> map_of (q_byID q) k = Some p \<Longrightarrow> 0 \<le> m_Attempts (q_mem q p) \<and> m_Attempts (q_mem q p) < n"
  by (force simp: attempts_below_def dest: map_of_SomeD)

lemma next_attempt: "0 \<le> n \<Longrightarrow> n < max_i64 \<Longrightarrow> i64 (n + 1) = n + 1"
  by (simp add: in_i64_def min_i64_def max_i64_def)

lemma applyAttempt_refines:
  assumes "queue_inv q" and "attempts_below max_i64 q"
  shows "map_sum id (\<lambda>(q', d). absq q') (applyAttempt k now q) = a_attempt k (absq q)"
proof (cases "map_of (q_byID q) k")
  case None
  then show ?thesis by (simp add: apply_errors a_attempt_def absq_def)
next
  case (Some p)
  from applyAttempt_spec [OF assms(1) Some, of now] obtain q' d where
    q': "applyAttempt k now q = Inr (q', d)" "only_heaps (upd p (attempted_msg (q_cfg q) now) q) q'" by blast
  have "i64 (m_Attempts (q_mem q p) + 1) \<noteq> 0"
    using attempts_belowD [OF assms(2) Some] next_attempt by simp
  then have "durable (attempted_msg (q_cfg q) now (q_mem q p)) = a_failed (q_cfg q) (durable (q_mem q p))"
    by (rule durable_attempted)
  moreover have "absq q' = absq (upd p (attempted_msg (q_cfg q) now) q)" by (rule abs_only_heaps [OF q'(2)])
  ultimately show ?thesis
    using q'(1) Some abs_upd [OF assms(1) Some]
    by (simp add: a_attempt_def) (simp add: absq_def)
qed

text \<open>
  Replay reaches the transitions through \<open>apply\<close>. A META record is only met by a queue without
  messages: it heads the log.
\<close>

lemma apply_meta_refines:
  "map_sum id absq (apply_meta payload q) = a_meta payload (absq q)"
proof (cases "decodeConfig payload")
  case (Inr c)
  then show ?thesis
    by (cases "Validate c") (auto simp: apply_meta_def a_meta_def absq_def Let_def max_def)
qed (simp add: apply_meta_def a_meta_def)

lemma apply_meta_inv:
  assumes "queue_inv q" and "q_byID q = []" and "apply_meta payload q = Inr q'"
  shows "queue_inv q'" and "q_byID q' = []"
proof -
  obtain c where q': "q' = q\<lparr>q_cfg := c\<rparr> \<or> q' = q\<lparr>q_cfg := c, q_nextSeq := c_NextSeq c\<rparr>"
    using assms(3) by (auto simp: apply_meta_def bindE_eq_Inr Let_def split: if_splits)
  then show "q_byID q' = []" using assms(2) by auto
  have "p \<notin> set (holder st q)" for p st using inv_holder [OF assms(1), of p st] assms(2) by simp
  then have e: "holder st q = []" for st by (metis list.set_sel(1))
  have "holder st q' = []" for st using e [of st] q' by (cases st) auto
  moreover have "q_dlq q' = []" using calculation [of stateDead] by simp
  ultimately show "queue_inv q'"
    using \<open>q_byID q' = []\<close> by (simp add: queue_inv_def ids_ok_def placed_def)
qed

lemma apply_record_refines:
  assumes inv: "queue_inv q" and att: "attempts_below max_i64 q"
    and meta: "r_Type rec = TypeMeta \<Longrightarrow> q_byID q = []"
  shows "map_sum id absq (apply_record now rec q) = a_apply (r_Type rec, r_Payload rec) (absq q)"
    and "apply_record now rec q = Inr q' \<Longrightarrow> queue_inv q'"
proof -
  have att': "map_sum id absq (bindE (applyAttempt k now q) (\<lambda>(q, d). Inr q)) = a_attempt k (absq q)" for k
    using applyAttempt_refines [OF inv att, of k now] by (cases "applyAttempt k now q") auto
  have enq: "map_sum id absq (bindE (decodeMessage b) (\<lambda>m. applyEnqueue m now q))
      = bindE (decodeMessage b) (\<lambda>m. a_enqueue m (absq q))" for b
    using applyEnqueue_refines [OF inv] by (cases "decodeMessage b") auto
  have ded: "map_sum id absq (bindE (decodeDedup b) (\<lambda>e. Inr (q\<lparr>q_dedup := AList.update (e_DedupID e) e (q_dedup q)\<rparr>)))
      = bindE (decodeDedup b) (\<lambda>d. Inr ((absq q)\<lparr>a_dedup := (a_dedup (absq q))(e_DedupID d \<mapsto> d)\<rparr>))" for b
    by (cases "decodeDedup b") (auto simp: absq_def update_conv')
  show "map_sum id absq (apply_record now rec q) = a_apply (r_Type rec, r_Payload rec) (absq q)"
    by (simp add: apply_record_def a_apply_def Let_def att' enq ded apply_meta_refines
        applyAck_refines [OF inv])
  show "apply_record now rec q = Inr q' \<Longrightarrow> queue_inv q'"
    using inv meta
    by (auto simp: apply_record_def Let_def bindE_eq_Inr split: if_splits
        intro: applyEnqueue_inv applyAck_inv applyAttempt_inv apply_meta_inv)
qed

end
