(* ===== verification/Queue_Load.thy ===== *)
theory Queue_Load
  imports Queue_Spec
begin

text \<open>
  \<open>internal/queue/queue.go\<close>, the constructors: \<open>Create\<close>, which writes the META record of a new
  queue, and \<open>Load\<close>, which replays an existing log. The answers of the operating system are
  arguments, and so is the clock: \<open>clock off\<close> is what \<open>time.Now\<close> returns while the record at offset
  \<open>off\<close> is applied. The lemmas lift the refinement of \<open>Queue_Spec\<close> from records to whole logs.
\<close>

section \<open>Load\<close>

definition logFileName :: string where
  "logFileName = ''wal.log''"

text \<open>\<open>filepath.Join\<close> of a clean directory and a file name.\<close>

definition path_join :: "string \<Rightarrow> string \<Rightarrow> string" where
  "path_join a b = a @ ''/'' @ b"

text \<open>The callback of \<open>Load\<close>: its state is \<open>sawMeta\<close> and the queue.\<close>

definition load_step :: "(nat \<Rightarrow> gotime) \<Rightarrow> bool \<times> queue \<Rightarrow> wal_record \<Rightarrow> go_error + bool \<times> queue" where
  "load_step clock s rec =
     (let (sawMeta, q) = s
      in if r_Type rec = TypeMeta
         then bindE (apply_record (clock (r_Offset rec)) rec q) (\<lambda>q. Inr (True, q))
         else if \<not> sawMeta then Inl ErrFirstNotMeta
         else bindE (apply_record (clock (r_Offset rec)) rec q) (\<lambda>q. Inr (sawMeta, q)))"

definition Load ::
  "string \<Rightarrow> string \<Rightarrow> opened \<Rightarrow> open_env \<Rightarrow> (nat \<Rightarrow> gotime) \<Rightarrow> gotime \<Rightarrow> gotime \<Rightarrow> go_error + queue" where
  "Load root name f env clock now1 now2 =
     (let dir = path_join root name;
          path = path_join dir logFileName;
          q = (newQueue dir)\<lparr>q_path := path\<rparr>;
          (res, (sawMeta, q), err) = Replay path f (load_step clock) (False, q)
      in case err of Some e \<Rightarrow> Inl e | None \<Rightarrow>
         if \<not> sawMeta
         then if v_Records res = 0 then Inl (ErrIncompleteQueue path) else Inl (ErrNoMeta name)
         else bindE (Open path (v_ValidBytes res) env) (\<lambda>l.
                Inr (start now1 now2 (q\<lparr>q_log := l\<rparr>))))"

section \<open>Create\<close>

text \<open>
  \<open>Create\<close> up to the wait for its META record: \<open>stat_ok\<close> says whether \<open>os.Stat\<close> found a log, \<open>f\<close>
  what is in it. The name is taken when that log holds a committed record, not when it exists.
\<close>

definition Create_begin ::
  "string \<Rightarrow> config \<Rightarrow> bool \<Rightarrow> opened \<Rightarrow> open_env \<Rightarrow> go_error + queue \<times> u64" where
  "Create_begin root cfg stat_ok f env =
     bindE (Validate cfg) (\<lambda>cfg.
     let dir = path_join root (c_Name cfg); path = path_join dir logFileName
     in bindE (if stat_ok
               then case Replay path f (\<lambda>s _. Inr s) () of
                      (res, _, Some e) \<Rightarrow> Inl (Wrapped ''queue already has a log that cannot be read'' e)
                    | (res, _, None) \<Rightarrow>
                        if v_Records res > 0 then Inl (ErrQueueExists (c_Name cfg)) else Inr ()
               else Inr ()) (\<lambda>_.
        bindE (Open path 0 env) (\<lambda>l.
        let q = (newQueue dir)\<lparr>q_cfg := cfg, q_path := path, q_log := l\<rparr>
        in case Append TypeMeta (encodeConfig cfg) l of
             (l, Inl e) \<Rightarrow> Inl e
           | (l, Inr batch) \<Rightarrow> Inr (q\<lparr>q_log := l\<rparr>, batch))))"

definition Create_wait :: "gotime \<Rightarrow> gotime \<Rightarrow> u64 \<Rightarrow> queue \<Rightarrow> (go_error + queue) option" where
  "Create_wait now1 now2 batch q =
     (case Wait batch (q_log q) of
        None \<Rightarrow> None
      | Some (Some e) \<Rightarrow> Some (Inl e)
      | Some None \<Rightarrow> Some (Inr (start now1 now2 q)))"

section \<open>Replaying a whole log\<close>

text \<open>A log as the program writes it: one META record at its head, no other.\<close>

fun headed :: "entry list \<Rightarrow> bool" where
  "headed [] = False"
| "headed (e # es) = (fst e = TypeMeta \<and> list_all (\<lambda>e. fst e \<noteq> TypeMeta) es)"

definition a_init :: aqueue where
  "a_init = \<lparr>a_cfg = zero_config, a_msgs = (\<lambda>_. None), a_dedup = (\<lambda>_. None), a_nextSeq = 1\<rparr>"

lemma absq_new: "absq ((newQueue dir)\<lparr>q_path := path\<rparr>) = a_init"
  by (simp add: absq_def newQueue_def a_init_def fun_eq_iff)

text \<open>Attempt counters stay below \<open>n\<close>, and ids are as short as a record can hold.\<close>

definition a_below :: "int \<Rightarrow> aqueue \<Rightarrow> bool" where
  "a_below n a \<longleftrightarrow> (\<forall>k m. a_msgs a k = Some m \<longrightarrow>
     0 \<le> m_Attempts m \<and> m_Attempts m < n \<and> length k < 65536)"

lemma durable_Attempts [simp]: "m_Attempts (durable m) = m_Attempts m"
  by (simp add: durable_def)

lemma below_absq:
  assumes "queue_inv q" and "a_below n (absq q)"
  shows "attempts_below n q"
  unfolding attempts_below_def
proof
  fix p assume "p \<in> snd ` set (q_byID q)"
  from inv_lookup [OF assms(1) this] assms(2)
  show "0 \<le> m_Attempts (q_mem q p) \<and> m_Attempts (q_mem q p) < n"
    by (force simp: a_below_def absq_def)
qed

lemma a_below_mono: "a_below m a \<Longrightarrow> m \<le> n \<Longrightarrow> a_below n a"
  by (force simp: a_below_def)

text \<open>A record adds at most one failed delivery to a message, and brings in at most \<open>2 ^ 32 - 1\<close>.\<close>

lemma a_apply_below:
  assumes "a_below n a" and "a_apply e a = Inr a'" and "2 ^ 32 \<le> n" and "n \<le> max_i64"
  shows "a_below (n + 1) a'"
proof -
  have new: "0 \<le> m_Attempts m \<and> m_Attempts m < n \<and> length (m_ID m) < 65536" if "decodeMessage b = Inr m" for b m
    using decodeMessage_storable(1) [OF that] assms(3) by (simp add: storable_def)
  have up: "0 \<le> m_Attempts (a_failed c m) \<and> m_Attempts (a_failed c m) < n + 1"
    if "0 \<le> m_Attempts m \<and> m_Attempts m < n" for c m
    using that assms(4) next_attempt [of "m_Attempts m"] by (simp add: a_failed_def Let_def)
  have more: "0 \<le> m_Attempts m \<and> m_Attempts m < n + 1 \<and> length k < 65536" if "a_msgs a k = Some m" for k m
    using assms(1) that by (force simp: a_below_def)
  consider "a_msgs a' = a_msgs a"
    | k where "a_msgs a' = (a_msgs a)(k := None)"
    | b m where "decodeMessage b = Inr m" "a_msgs a' = (a_msgs a)(m_ID m \<mapsto> durable m)"
    | k m where "a_msgs a k = Some m" "a_msgs a' = (a_msgs a)(k \<mapsto> a_failed (a_cfg a) m)"
    using assms(2)
    by (auto simp: a_apply_def a_meta_def a_enqueue_def a_ack_def a_attempt_def bindE_eq_Inr Let_def
        split: if_splits option.splits)
  then show ?thesis
  proof cases
    case 3
    then show ?thesis using new [OF 3(1)] more by (auto simp: a_below_def split: if_splits)
  next
    case 4
    then show ?thesis using up more assms(1) by (auto simp: a_below_def split: if_splits)
  qed (use more in \<open>auto simp: a_below_def split: if_splits\<close>)
qed

lemma a_run_below:
  assumes "a_below n a" and "a_run es a = Inr a'" and "2 ^ 32 \<le> n" and "n + int (length es) \<le> max_i64"
  shows "a_below (n + int (length es)) a'"
  using assms
proof (induction es arbitrary: n a)
  case (Cons e es)
  then obtain a1 where a1: "a_apply e a = Inr a1" "a_run es a1 = Inr a'" by (auto simp: bindE_eq_Inr)
  have "a_below (n + 1) a1"
    by (rule a_apply_below [OF Cons.prems(1) a1(1) Cons.prems(3)]) (use Cons.prems(4) in simp)
  from Cons.IH [OF this a1(2)] Cons.prems(3,4) show ?case by (simp add: add.assoc)
qed simp

lemma feed_refines:
  assumes "queue_inv q" and "a_below n (absq q)" and "list_all (\<lambda>e. fst e \<noteq> TypeMeta) es"
    and "2 ^ 32 \<le> n" and "n + int (length es) \<le> max_i64"
  shows "case feed (load_step clock) off es (True, q) of
      Inl e \<Rightarrow> a_run es (absq q) = Inl e
    | Inr (saw, q') \<Rightarrow> saw \<and> queue_inv q' \<and> a_run es (absq q) = Inr (absq q')"
  using assms
proof (induction es arbitrary: off q n)
  case (Cons e es)
  obtain t p where e: "e = (t, p)" by (cases e)
  let ?rec = "\<lparr>r_Type = t, r_Payload = p, r_Offset = off\<rparr>"
  have att: "attempts_below max_i64 q"
    using below_absq [OF Cons.prems(1) a_below_mono [OF Cons.prems(2)]] Cons.prems(5) by simp
  have t: "t \<noteq> TypeMeta" using Cons.prems(3) by (simp add: e)
  then have meta: "r_Type ?rec = TypeMeta \<Longrightarrow> q_byID q = []" by simp
  note R = apply_record_refines [OF Cons.prems(1) att meta, of ?rec "clock off"]
  show ?case
  proof (cases "apply_record (clock off) ?rec q")
    case (Inl x)
    then have "a_apply (t, p) (absq q) = Inl x" using R(1) [symmetric] by simp
    then show ?thesis using Inl t by (simp add: e load_step_def)
  next
    case (Inr q')
    have a: "a_apply (t, p) (absq q) = Inr (absq q')" using R(1) Inr by simp
    have "a_below (n + 1) (absq q')"
      by (rule a_apply_below [OF Cons.prems(2) a Cons.prems(4)]) (use Cons.prems(5) in simp)
    moreover have "queue_inv q'" using R(2) Inr by blast
    ultimately show ?thesis
      using Cons.IH [of q' "n + 1" "off + EncodedLen p"] Cons.prems(3-5) Inr a t
      by (auto simp: e load_step_def split: sum.splits)
  qed
qed simp

lemma queue_inv_path: "queue_inv ((newQueue dir)\<lparr>q_path := path\<rparr>)"
  using queue_inv_new by simp

lemma feed_headed:
  assumes "headed es" and "2 ^ 32 + 1 + int (length es) \<le> max_i64"
  shows "case feed (load_step clock) 0 es (False, (newQueue dir)\<lparr>q_path := path\<rparr>) of
      Inl e \<Rightarrow> a_run es a_init = Inl e
    | Inr (saw, q') \<Rightarrow> saw \<and> queue_inv q' \<and> a_run es a_init = Inr (absq q')"
proof -
  let ?q = "(newQueue dir)\<lparr>q_path := path\<rparr>"
  obtain p rest where es: "es = (TypeMeta, p) # rest" "list_all (\<lambda>e. fst e \<noteq> TypeMeta) rest"
    using assms(1) by (cases es) auto
  let ?rec = "\<lparr>r_Type = TypeMeta, r_Payload = p, r_Offset = 0\<rparr>"
  have byID: "q_byID ?q = []" by (simp add: newQueue_def)
  then have att: "attempts_below max_i64 ?q" by (simp add: attempts_below_def)
  note R = apply_record_refines [OF queue_inv_path att, of ?rec "clock 0", unfolded absq_new]
  show ?thesis
  proof (cases "apply_record (clock 0) ?rec ?q")
    case (Inl x)
    then have "a_apply (TypeMeta, p) a_init = Inl x" using R(1) [symmetric] byID by simp
    then show ?thesis using Inl by (simp add: es load_step_def)
  next
    case (Inr q')
    have a: "a_apply (TypeMeta, p) a_init = Inr (absq q')" using R(1) Inr byID by simp
    have "a_below (2 ^ 32) a_init" by (simp add: a_below_def a_init_def)
    then have "a_below (2 ^ 32 + 1) (absq q')"
      by (rule a_apply_below [OF _ a]) (simp_all add: max_i64_def)
    moreover have "queue_inv q'" using R(2) Inr byID by blast
    ultimately show ?thesis
      using feed_refines [of q' "2 ^ 32 + 1" rest clock "EncodedLen p"] es(2) assms(2) Inr a
      by (auto simp: es load_step_def split: sum.splits)
  qed
qed

section \<open>Loading what a crash left\<close>

definition env_ok :: "byte list \<Rightarrow> open_env \<Rightarrow> bool" where
  "env_ok img env \<longleftrightarrow> oe_MkdirAll env = None \<and> oe_OpenFile env = Inr img \<and> oe_Stat env = None \<and>
     oe_Truncate env = None \<and> oe_Sync env = None \<and> oe_syncDir_open env = None \<and>
     oe_syncDir_sync env = None"

lemma Open_ok:
  assumes "env_ok img env" and "n \<le> length img"
  shows "Open path n env = Inr (fresh_log path (take n img) n)"
proof -
  have "truncate_to n img = take n img" using assms(2) by (simp add: truncate_to_def)
  moreover have "length img = n \<Longrightarrow> img = take n img" by simp
  ultimately show ?thesis using assms(1) by (auto simp: Open_def env_ok_def syncDir_def)
qed

lemma start_simps [simp]:
  "queue_inv (start t1 t2 q) = queue_inv q" "absq (start t1 t2 q) = absq q"
  "q_log (start t1 t2 q) = q_log q"
  by (simp_all add: start_def absq_def)

lemma absq_log [simp]: "absq (q\<lparr>q_log := l\<rparr>) = absq q"
  by (simp add: absq_def)

lemma feed_prefix:
  assumes hd: "headed es" and run: "a_run es a_init = Inr a" and len: "2 ^ 32 + 1 + int (length es) \<le> max_i64"
    and pre: "prefix es1 es"
  shows "\<exists>s'. feed (load_step clock) 0 es1 (False, (newQueue dir)\<lparr>q_path := path\<rparr>) = Inr s'"
proof (cases "es1 = []")
  case False
  have hd1: "headed es1" using hd pre False by (cases es1; cases es) (auto simp: prefix_def)
  obtain a1 where "a_run es1 a_init = Inr a1" using run pre by (auto simp: prefix_def a_run_append bindE_eq_Inr)
  moreover have "2 ^ 32 + 1 + int (length es1) \<le> max_i64" using len pre by (auto simp: prefix_def)
  ultimately show ?thesis
    using feed_headed [OF hd1, where clock = clock and dir = dir and path = path]
    by (cases "feed (load_step clock) 0 es1 (False, (newQueue dir)\<lparr>q_path := path\<rparr>)") auto
qed auto

text \<open>
  A log cut anywhere after its META record loads; the queue is the abstract state of the records
  that are whole, and the file is cut back to them.
\<close>

lemma Load_prefix:
  assumes wf: "list_all wf_entry es" and hd: "headed es" and run: "a_run es a_init = Inr a"
    and len: "2 ^ 32 + 1 + int (length es) \<le> max_i64"
    and img: "prefix img (encode_all es)" "EncodedLen (snd (hd es)) \<le> length img"
    and env: "env_ok img env"
  shows "\<exists>es1 es2 q. es = es1 @ es2 \<and> es1 \<noteq> [] \<and> length (encode_all es1) \<le> length img \<and>
    (es2 \<noteq> [] \<longrightarrow> length img < length (encode_all (es1 @ [hd es2]))) \<and>
    Load root name (Opened img no_io) env clock t1 t2 = Inr q \<and> queue_inv q \<and>
    a_run es1 a_init = Inr (absq q) \<and>
    q_log q = fresh_log (path_join (path_join root name) logFileName) (encode_all es1) (length (encode_all es1))"
proof -
  let ?dir = "path_join root name"
  let ?path = "path_join ?dir logFileName"
  let ?q0 = "(newQueue ?dir)\<lparr>q_path := ?path\<rparr>"
  have head1: "headed es1" if "prefix es1 es" "es1 \<noteq> []" for es1
    using hd that by (cases es1; cases es) (auto simp: prefix_def)
  note ok = feed_prefix [OF hd run len, where clock = clock and dir = ?dir and path = ?path]
  from replay_prefix [OF wf img(1) ok, of ?path] obtain es1 es2 s' res where
    es: "es = es1 @ es2" and fd: "feed (load_step clock) 0 es1 (False, ?q0) = Inr s'"
    and rp: "Replay ?path (Opened img no_io) (load_step clock) (False, ?q0) = (res, s', None)"
    and vb: "v_ValidBytes res = length (encode_all es1)"
    and le: "length (encode_all es1) \<le> length img"
    and cut: "es2 \<noteq> [] \<longrightarrow> length img < length (encode_all (es1 @ [hd es2]))" by blast
  have ne: "es1 \<noteq> []"
  proof
    assume "es1 = []"
    moreover have "es \<noteq> []" using hd by auto
    ultimately show False using es cut img(2) by (simp add: encode_all_Cons)
  qed
  have pre: "prefix es1 es" using es by simp
  have "2 ^ 32 + 1 + int (length es1) \<le> max_i64" using len es by simp
  with feed_headed [OF head1 [OF pre ne], where clock = clock and dir = ?dir and path = ?path] fd obtain q where
    q: "s' = (True, q)" "queue_inv q" "a_run es1 a_init = Inr (absq q)"
    by (cases s') auto
  have "take (length (encode_all es1)) img = encode_all es1"
    using img(1) le by (auto simp: es encode_all_append prefix_def)
      (metis append_eq_append_conv_if append_take_drop_id)
  then have "Open ?path (v_ValidBytes res) env
      = Inr (fresh_log ?path (encode_all es1) (length (encode_all es1)))"
    using Open_ok [OF env le, of ?path] vb by simp
  then have "Load root name (Opened img no_io) env clock t1 t2
      = Inr (start t1 t2 (q\<lparr>q_log := fresh_log ?path (encode_all es1) (length (encode_all es1))\<rparr>))"
    using rp q(1) by (simp add: Load_def Let_def)
  then show ?thesis
    using es ne le cut q(2,3)
    by (intro exI [of _ es1] exI [of _ es2] exI) auto
qed

end
