(* ===== verification/Queue_Sim.thy ===== *)
theory Queue_Sim
  imports Queue_Load
begin

text \<open>
  When two abstract queues agree. The running queue drops expired deduplication entries without a
  record, a replay brings them back and a snapshot leaves them out, so that agreement is equality up
  to such entries and up to the sequence counter kept in the configuration. What the records need of
  an agreement between the deduplication maps is the locale \<open>dedup_agreement\<close>; every such agreement is
  kept by every record.
\<close>

section \<open>Configurations\<close>

text \<open>
  A snapshot records the sequence counter in its META record, so that the configuration of a queue
  loaded from one may differ in that field, which nothing reads after loading.
\<close>

definition same_cfg :: "config \<Rightarrow> config \<Rightarrow> bool" where
  "same_cfg c d \<longleftrightarrow> c\<lparr>c_NextSeq := 0\<rparr> = d\<lparr>c_NextSeq := 0\<rparr>"

lemma same_cfg_refl [simp]: "same_cfg c c" and same_cfg_seq [simp]: "same_cfg c (c\<lparr>c_NextSeq := n\<rparr>)"
  by (simp_all add: same_cfg_def)

lemma same_cfg_trans: "same_cfg c d \<Longrightarrow> same_cfg d e \<Longrightarrow> same_cfg c e"
  by (simp add: same_cfg_def)

lemma same_cfg_uses:
  assumes "same_cfg c d"
  shows "dedup_of c m = dedup_of d m" and "a_failed c m = a_failed d m" and "valid_config c = valid_config d"
    and "config_ranges c = config_ranges d"
proof -
  have "c\<lparr>c_NextSeq := 0\<rparr> = d\<lparr>c_NextSeq := 0\<rparr>" using assms by (simp add: same_cfg_def)
  then have f: "c_Name c = c_Name d" "c_Ordering c = c_Ordering d" "c_PriorityEnabled c = c_PriorityEnabled d"
    "c_MaxAttempts c = c_MaxAttempts d" "c_DefaultVisibilityTimeoutMS c = c_DefaultVisibilityTimeoutMS d"
    "c_AgingIntervalMS c = c_AgingIntervalMS d" "c_AgingMaxBoost c = c_AgingMaxBoost d"
    "c_DedupWindowMS c = c_DedupWindowMS d"
    by (cases c; cases d; simp)+
  then show "dedup_of c m = dedup_of d m" "a_failed c m = a_failed d m" "valid_config c = valid_config d"
    "config_ranges c = config_ranges d"
    by (simp_all add: dedup_of_def dedupWindow_def a_failed_def valid_config_def config_ranges_def)
qed

section \<open>Agreement of abstract queues\<close>

definition a_rel :: "((string \<Rightarrow> dedupEntry option) \<Rightarrow> (string \<Rightarrow> dedupEntry option) \<Rightarrow> bool) \<Rightarrow>
    aqueue \<Rightarrow> aqueue \<Rightarrow> bool" where
  "a_rel R a b \<longleftrightarrow> same_cfg (a_cfg a) (a_cfg b) \<and> a_msgs a = a_msgs b \<and> a_nextSeq a = a_nextSeq b \<and>
     R (a_dedup a) (a_dedup b)"

locale dedup_agreement =
  fixes R :: "(string \<Rightarrow> dedupEntry option) \<Rightarrow> (string \<Rightarrow> dedupEntry option) \<Rightarrow> bool"
  assumes agree_refl: "R d d"
    and agree_trans: "R d1 d2 \<Longrightarrow> R d2 d3 \<Longrightarrow> R d1 d3"
    and agree_put: "R d d' \<Longrightarrow> R (d(k \<mapsto> e)) (d'(k \<mapsto> e))"
begin

lemma rel_refl [simp]: "a_rel R a a"
  by (simp add: a_rel_def agree_refl)

lemma rel_trans: "a_rel R a b \<Longrightarrow> a_rel R b c \<Longrightarrow> a_rel R a c"
  by (auto simp: a_rel_def intro: agree_trans same_cfg_trans)

lemma ops_rel:
  assumes "a_rel R a b"
  shows "a_enqueue m a = Inr a' \<Longrightarrow> \<exists>b'. a_enqueue m b = Inr b' \<and> a_rel R a' b'"
    and "a_ack k a = Inr a' \<Longrightarrow> \<exists>b'. a_ack k b = Inr b' \<and> a_rel R a' b'"
    and "a_attempt k a = Inr a' \<Longrightarrow> \<exists>b'. a_attempt k b = Inr b' \<and> a_rel R a' b'"
    and "a_meta p a = Inr a' \<Longrightarrow> \<exists>b'. a_meta p b = Inr b' \<and> a_rel R a' b'"
proof -
  have s: "same_cfg (a_cfg a) (a_cfg b)" "a_msgs b = a_msgs a" "a_nextSeq b = a_nextSeq a"
    "R (a_dedup a) (a_dedup b)" using assms by (simp_all add: a_rel_def)
  note U = same_cfg_uses [OF s(1)]
  show "a_enqueue m a = Inr a' \<Longrightarrow> \<exists>b'. a_enqueue m b = Inr b' \<and> a_rel R a' b'"
    using s by (auto simp: a_enqueue_def a_rel_def agree_put U split: if_splits)
  show "a_ack k a = Inr a' \<Longrightarrow> \<exists>b'. a_ack k b = Inr b' \<and> a_rel R a' b'"
    using s by (auto simp: a_ack_def a_rel_def split: if_splits)
  show "a_attempt k a = Inr a' \<Longrightarrow> \<exists>b'. a_attempt k b = Inr b' \<and> a_rel R a' b'"
    using s by (auto simp: a_attempt_def a_rel_def U split: option.splits)
  show "a_meta p a = Inr a' \<Longrightarrow> \<exists>b'. a_meta p b = Inr b' \<and> a_rel R a' b'"
    using s by (auto simp: a_meta_def a_rel_def bindE_eq_Inr)
qed

lemma apply_rel:
  assumes sim: "a_rel R a b" and e: "a_apply e a = Inr a'"
  shows "\<exists>b'. a_apply e b = Inr b' \<and> a_rel R a' b'"
proof -
  note S = ops_rel [OF sim]
  consider "fst e = TypeMeta" | "fst e = TypeEnqueue" | "fst e = TypeAck"
    | "fst e = TypeNack \<or> fst e = TypeLeaseExpire" | "fst e = TypeDedup"
    using e by (auto simp: a_apply_def Let_def split: if_splits)
  then show ?thesis
  proof cases
    case 2
    then obtain m where "decodeMessage (snd e) = Inr m" "a_enqueue m a = Inr a'"
      using e by (auto simp: a_apply_def rtype_defs bindE_eq_Inr)
    then show ?thesis using S(1) 2 by (simp add: a_apply_def rtype_defs)
  next
    case 5
    then obtain d where d: "decodeDedup (snd e) = Inr d" "a' = a\<lparr>a_dedup := (a_dedup a)(e_DedupID d \<mapsto> d)\<rparr>"
      using e by (auto simp: a_apply_def rtype_defs bindE_eq_Inr)
    then show ?thesis
      using 5 sim by (simp add: a_apply_def rtype_defs a_rel_def agree_put)
  qed (use e S in \<open>auto simp: a_apply_def rtype_defs\<close>)
qed

lemma run_rel: "a_rel R a b \<Longrightarrow> a_run es a = Inr a' \<Longrightarrow> \<exists>b'. a_run es b = Inr b' \<and> a_rel R a' b'"
proof (induction es arbitrary: a b)
  case (Cons e es)
  then obtain a1 where a1: "a_apply e a = Inr a1" "a_run es a1 = Inr a'" by (auto simp: bindE_eq_Inr)
  from apply_rel [OF Cons.prems(1) a1(1)] obtain b1 where "a_apply e b = Inr b1" "a_rel R a1 b1" by blast
  with Cons.IH [OF this(2) a1(2)] show ?case by auto
qed simp

end

section \<open>Expired entries\<close>

text \<open>
  Two agreements: the maps differ only in entries expired at \<open>T\<close>, or the first lacks some of the
  second's entries that are expired at \<open>T\<close>.
\<close>

definition expired_opt :: "gotime \<Rightarrow> dedupEntry option \<Rightarrow> bool" where
  "expired_opt T x = (case x of None \<Rightarrow> True | Some e \<Rightarrow> e_ExpiresAt e \<le> T)"

definition dedup_sim :: "gotime \<Rightarrow> (string \<Rightarrow> dedupEntry option) \<Rightarrow> (string \<Rightarrow> dedupEntry option) \<Rightarrow> bool" where
  "dedup_sim T d d' \<longleftrightarrow> (\<forall>k. d k = d' k \<or> expired_opt T (d k) \<and> expired_opt T (d' k))"

definition dedup_purged :: "gotime \<Rightarrow> (string \<Rightarrow> dedupEntry option) \<Rightarrow> (string \<Rightarrow> dedupEntry option) \<Rightarrow> bool" where
  "dedup_purged T d d' \<longleftrightarrow> (\<forall>k. d k = d' k \<or> d k = None \<and> expired_opt T (d' k))"

interpretation sim: dedup_agreement "dedup_sim T" for T
proof
  show "dedup_sim T d1 d2 \<Longrightarrow> dedup_sim T d2 d3 \<Longrightarrow> dedup_sim T d1 d3" for d1 d2 d3
    unfolding dedup_sim_def by metis
qed (simp_all add: dedup_sim_def)

interpretation purged: dedup_agreement "dedup_purged T" for T
proof
  show "dedup_purged T d1 d2 \<Longrightarrow> dedup_purged T d2 d3 \<Longrightarrow> dedup_purged T d1 d3" for d1 d2 d3
    unfolding dedup_purged_def expired_opt_def by (metis option.case(1))
qed (simp_all add: dedup_purged_def)

abbreviation a_sim :: "gotime \<Rightarrow> aqueue \<Rightarrow> aqueue \<Rightarrow> bool" where
  "a_sim T \<equiv> a_rel (dedup_sim T)"

abbreviation a_purged :: "gotime \<Rightarrow> aqueue \<Rightarrow> aqueue \<Rightarrow> bool" where
  "a_purged T \<equiv> a_rel (dedup_purged T)"

lemma expired_opt_simps [simp]: "expired_opt T None" "expired_opt T (Some e) = (e_ExpiresAt e \<le> T)"
  by (simp_all add: expired_opt_def)

lemma purged_sim: "a_purged T a b \<Longrightarrow> a_sim T a b"
  unfolding a_rel_def dedup_purged_def dedup_sim_def by (metis expired_opt_simps(1))

end
