(* ===== verification/Queue_Create.thy ===== *)
theory Queue_Create
  imports Queue_Load
begin

text \<open>
  The queue \<open>Create\<close> makes: its META record fits a record, and the specification derives the state of
  the new queue from it.
\<close>

lemma length_show_nat: "n < 10 ^ k \<Longrightarrow> 0 < k \<Longrightarrow> length (show_nat n) \<le> k"
proof (induction k arbitrary: n)
  case (Suc k)
  show ?case
  proof (cases "n < 10")
    case False
    then have "n div 10 < 10 ^ k" "0 < k" using Suc.prems by (cases k; simp)+
    from Suc.IH [OF this] show ?thesis using False by (simp add: show_nat_snoc)
  qed (simp add: show_nat_digit)
qed simp

lemma length_show_int:
  assumes "in_i64 i"
  shows "length (show_int i) \<le> 21"
proof -
  have "nat \<bar>i\<bar> < 10 ^ 20" using assms by (auto simp: in_i64_def min_i64_def max_i64_def nat_less_iff)
  from length_show_nat [OF this] show ?thesis by (auto simp: show_int_def)
qed

lemma length_show_plain: "list_all plain s \<Longrightarrow> length (show_string s) = length s + 2"
  by (simp add: show_string_def escape_plain)

lemma encodeConfig_fits:
  assumes "nameRE (c_Name c)" and "c_Ordering c = FIFO \<or> c_Ordering c = LIFO" and "config_ranges c"
  shows "length (encodeConfig c) \<le> MaxRecordSize"
proof -
  have "length (c_Name c) \<le> 64" using assms(1) by (cases "c_Name c") auto
  then have name: "length (show_string (c_Name c)) \<le> 66"
    using length_show_plain [OF nameRE_plain [OF assms(1)]] by simp
  have ord: "length (show_string (c_Ordering c)) \<le> 10"
    using assms(2) by (auto simp: show_string_def escape_plain plain_def)
  have bool: "length (show_bool (c_PriorityEnabled c)) \<le> 5" by (simp add: show_bool_def)
  have "unat (c_NextSeq c) < 2 ^ 64" using unat_bound [of "c_NextSeq c"] by simp
  then have seq: "length (show_nat (unat (c_NextSeq c))) \<le> 20"
    by (intro length_show_nat) (simp_all add: less_le_trans)
  have key: "length (show_string k) = length k + 2" if "k \<in> set [''name'', ''ordering'', ''priority_enabled'',
      ''max_attempts'', ''default_visibility_timeout_ms'', ''aging_interval_ms'', ''aging_max_boost'',
      ''dedup_window_ms'', ''next_seq'']" for k
    using that by (intro length_show_plain) (auto simp: plain_def)
  have ints: "length (show_int (c_MaxAttempts c)) \<le> 21" "length (show_int (c_DefaultVisibilityTimeoutMS c)) \<le> 21"
    "length (show_int (c_AgingIntervalMS c)) \<le> 21" "length (show_int (c_AgingMaxBoost c)) \<le> 21"
    "length (show_int (c_DedupWindowMS c)) \<le> 21"
    using assms(3) by (simp_all add: config_ranges_def length_show_int)
  have "length (show_members (config_members c)) \<le> 600"
    using name ord bool seq ints by (simp add: config_members_def key)
  then show ?thesis by (simp add: encodeConfig_def MaxRecordSize_def)
qed

lemma validate_ranges:
  assumes "config_ranges c"
  shows "validate_ordering c = Inr c' \<Longrightarrow> config_ranges c'"
    and "validate_attempts c = Inr c' \<Longrightarrow> config_ranges c'"
    and "validate_visibility c = Inr c' \<Longrightarrow> config_ranges c'"
    and "validate_dedup c = Inr c' \<Longrightarrow> config_ranges c'"
    and "validate_aging c = Inr c' \<Longrightarrow> config_ranges c'"
proof -
  note defs = config_ranges_def in_i64_def min_i64_def max_i64_def Let_def
  show "validate_ordering c = Inr c' \<Longrightarrow> config_ranges c'"
    using assms by (auto simp: validate_ordering_def config_ranges_def split: if_splits)
  show "validate_attempts c = Inr c' \<Longrightarrow> config_ranges c'"
    using assms by (auto simp: validate_attempts_def DefaultMaxAttempts_def defs split: if_splits)
  show "validate_visibility c = Inr c' \<Longrightarrow> config_ranges c'"
    using assms by (auto simp: validate_visibility_def DefaultVisibilityTimeout_def defs split: if_splits)
  show "validate_dedup c = Inr c' \<Longrightarrow> config_ranges c'"
    using assms by (auto simp: validate_dedup_def DefaultDedupWindow_def defs split: if_splits)
  show "validate_aging c = Inr c' \<Longrightarrow> config_ranges c'"
    using assms by (auto simp: validate_aging_def defs split: if_splits)
qed

lemma Validate_ranges: "Validate c = Inr c' \<Longrightarrow> config_ranges c \<Longrightarrow> config_ranges c'"
  unfolding Validate_def
  by (simp add: bindE_eq_Inr split: if_splits) (meson validate_ranges)

lemma Create_begin_spec:
  assumes cr: "Create_begin root cfg stat_ok f env = Inr (q, b)" and rng: "config_ranges cfg" and sq: "c_NextSeq cfg = 0"
  shows "queue_inv q" "log_reach [] 0 [(b, TypeMeta, encodeConfig (q_cfg q))] (q_log q)"
    "wf_entry (TypeMeta, encodeConfig (q_cfg q))"
    "a_apply (TypeMeta, encodeConfig (q_cfg q)) a_init = Inr (absq q)"
proof -
  from cr obtain c l where c: "Validate cfg = Inr c" and
    l: "Open (path_join (path_join root (c_Name c)) logFileName) 0 env = Inr l" and
    ap: "(case Append TypeMeta (encodeConfig c) l of (l, Inl e) \<Rightarrow> Inl e
        | (l, Inr batch) \<Rightarrow> Inr ((newQueue (path_join root (c_Name c)))\<lparr>q_cfg := c,
            q_path := path_join (path_join root (c_Name c)) logFileName, q_log := l\<rparr>, batch)) = Inr (q, b)"
    unfolding Create_begin_def bindE_eq_Inr Let_def by auto
  have q: "q_cfg q = c" "Append TypeMeta (encodeConfig c) l = (q_log q, Inr b)"
      "q = (newQueue (path_join root (c_Name c)))\<lparr>q_cfg := c,
         q_path := path_join (path_join root (c_Name c)) logFileName, q_log := q_log q\<rparr>"
    using ap by (auto split: prod.splits sum.splits)
  have "l = fresh_log (path_join (path_join root (c_Name c)) logFileName) [] 0"
    using l by (auto simp: Open_def bindE_eq_Inr truncate_to_def split: option.splits sum.splits if_splits)
  then have "log_reach [] 0 [] l" using log_reach.opened [of "[]"] by simp
  from log_reach.appended [OF this q(2)] show "log_reach [] 0 [(b, TypeMeta, encodeConfig (q_cfg q))] (q_log q)"
    by (simp add: q(1))
  have v: "valid_config c" by (rule Validate_valid [OF c])
  then have nm: "nameRE (c_Name c)" "c_Ordering c = FIFO \<or> c_Ordering c = LIFO" by (auto simp: valid_config_def)
  have rng': "config_ranges c" by (rule Validate_ranges [OF c rng])
  show "wf_entry (TypeMeta, encodeConfig (q_cfg q))"
    using encodeConfig_fits [OF nm rng'] by (simp add: wf_entry_def q(1) Type_valid_def rtype_defs)
  have "holder st q = []" for st by (subst q(3), cases st) (simp_all add: newQueue_def)
  moreover have "q_byID q = []" "q_dlq q = []" by (subst q(3), simp add: newQueue_def)+
  ultimately show "queue_inv q" by (simp add: queue_inv_def ids_ok_def placed_def)
  have "c_NextSeq c = 0" using Validate_spec [OF c] sq by auto
  moreover have "list_all plain (c_Ordering c)" using nm(2) by (auto simp: plain_def)
  ultimately show "a_apply (TypeMeta, encodeConfig (q_cfg q)) a_init = Inr (absq q)"
    using decodeConfig_encodeConfig [OF nameRE_plain [OF nm(1)] _ rng'] valid_Validate [OF v]
    by (subst (2) q(3)) (simp add: a_apply_def a_meta_def q(1) a_init_def absq_def newQueue_def)
qed

end
