(* ===== verification/Queue_Tidy.thy ===== *)
theory Queue_Tidy
  imports Queue_Sim Queue_Create
begin

text \<open>
  What the records of a log have in common when the program wrote them: sequence numbers are new,
  message ids are never used twice, and a deduplication id is used again only once its window is over.
  Logs of that kind, called tidy, keep the abstract queue in a shape (\<open>a_ok\<close>) from which a snapshot
  can be taken: the deduplication entry of a message can be rebuilt from the message.
\<close>

section \<open>Messages as a record gives them back\<close>

lemma durable_reloaded [simp]: "durable (reloaded m) = durable m"
  by (simp add: durable_def reloaded_def)

lemma a_enqueue_reloaded [simp]: "a_enqueue (reloaded m) a = a_enqueue m a"
  by (simp add: a_enqueue_def dedup_of_def) (simp add: reloaded_def)

section \<open>Tidy records\<close>

definition expires :: "config \<Rightarrow> message \<Rightarrow> gotime" where
  "expires c m = e_ExpiresAt (dedup_of c m)"

definition tidy_enqueue :: "gotime \<Rightarrow> message \<Rightarrow> aqueue \<Rightarrow> bool" where
  "tidy_enqueue T m a \<longleftrightarrow> m_Seq m + 1 \<noteq> 0 \<and> (\<forall>m' \<in> ran (a_msgs a). m_Seq m' \<noteq> m_Seq m) \<and>
     (m_DedupID m \<noteq> '''' \<longrightarrow> (\<forall>m' \<in> ran (a_msgs a). m_DedupID m' = m_DedupID m \<longrightarrow>
        m_Seq m' < m_Seq m \<and> expires (a_cfg a) m' \<le> T)) \<and>
     (\<forall>e \<in> ran (a_dedup a). T < e_ExpiresAt e \<longrightarrow> e_MessageID e \<noteq> m_ID m)"

definition tidy_dedup :: "gotime \<Rightarrow> dedupEntry \<Rightarrow> aqueue \<Rightarrow> bool" where
  "tidy_dedup T d a \<longleftrightarrow> e_DedupID d \<noteq> '''' \<and> a_msgs a (e_MessageID d) = None \<and>
     (\<forall>m' \<in> ran (a_msgs a). m_DedupID m' = e_DedupID d \<longrightarrow> expires (a_cfg a) m' \<le> T)"

definition tidy :: "gotime \<Rightarrow> entry \<Rightarrow> aqueue \<Rightarrow> bool" where
  "tidy T e a \<longleftrightarrow>
     (fst e = TypeEnqueue \<longrightarrow> (\<forall>m. decodeMessage (snd e) = Inr m \<longrightarrow> tidy_enqueue T m a)) \<and>
     (fst e = TypeDedup \<longrightarrow> (\<forall>d. decodeDedup (snd e) = Inr d \<longrightarrow> tidy_dedup T d a))"

fun tidy_run :: "gotime \<Rightarrow> entry list \<Rightarrow> aqueue \<Rightarrow> bool" where
  "tidy_run T [] a = True"
| "tidy_run T (e # es) a = (tidy T e a \<and> (case a_apply e a of Inl _ \<Rightarrow> True | Inr a' \<Rightarrow> tidy_run T es a'))"

lemma tidy_run_append:
  "a_run xs a = Inr a' \<Longrightarrow> tidy_run T (xs @ ys) a = (tidy_run T xs a \<and> tidy_run T ys a')"
  by (induction xs arbitrary: a) (auto simp: bindE_eq_Inr)

lemma tidy_run_prefix: "tidy_run T (xs @ ys) a \<Longrightarrow> tidy_run T xs a"
  by (induction xs arbitrary: a) (auto split: sum.splits)

section \<open>Well-kept abstract queues\<close>

definition keys_ok :: "aqueue \<Rightarrow> bool" where
  "keys_ok a \<longleftrightarrow> (\<forall>k m. a_msgs a k = Some m \<longrightarrow> m_ID m = k) \<and>
     (\<forall>k e. a_dedup a k = Some e \<longrightarrow> e_DedupID e = k \<and> k \<noteq> '''')"

definition seqs_ok :: "aqueue \<Rightarrow> bool" where
  "seqs_ok a \<longleftrightarrow> 0 < a_nextSeq a \<and> (\<forall>k m. a_msgs a k = Some m \<longrightarrow> m_Seq m < a_nextSeq a) \<and>
     (\<forall>k m k' m'. a_msgs a k = Some m \<longrightarrow> a_msgs a k' = Some m' \<longrightarrow> m_Seq m = m_Seq m' \<longrightarrow> k = k')"

text \<open>An open entry belongs to the last message with its id; a message is remembered or its window is over.\<close>

definition dedup_ok :: "gotime \<Rightarrow> aqueue \<Rightarrow> bool" where
  "dedup_ok T a \<longleftrightarrow>
     (\<forall>k e m. a_dedup a k = Some e \<longrightarrow> T < e_ExpiresAt e \<longrightarrow> a_msgs a (e_MessageID e) = Some m \<longrightarrow>
        m_DedupID m = k \<and> dedup_of (a_cfg a) m = e \<and>
        (\<forall>m' \<in> ran (a_msgs a). m_DedupID m' = k \<longrightarrow> m_Seq m' \<le> m_Seq m)) \<and>
     (\<forall>m \<in> ran (a_msgs a). m_DedupID m \<noteq> '''' \<longrightarrow>
        a_dedup a (m_DedupID m) = Some (dedup_of (a_cfg a) m) \<or> expires (a_cfg a) m \<le> T)"

definition a_ok :: "gotime \<Rightarrow> aqueue \<Rightarrow> bool" where
  "a_ok T a \<longleftrightarrow> valid_config (a_cfg a) \<and> config_ranges (a_cfg a) \<and> keys_ok a \<and> seqs_ok a \<and> dedup_ok T a"

lemma durable_same [simp]:
  "m_DedupID (durable m) = m_DedupID m" "m_Seq (durable m) = m_Seq m" "dedup_of c (durable m) = dedup_of c m"
  "expires c (durable m) = expires c m"
  by (simp_all add: durable_def dedup_of_def expires_def)

lemma reloaded_same [simp]:
  "m_ID (reloaded m) = m_ID m" "m_DedupID (reloaded m) = m_DedupID m" "m_Seq (reloaded m) = m_Seq m"
  "dedup_of c (reloaded m) = dedup_of c m"
  by (simp_all add: reloaded_def dedup_of_def)

lemma failed_same [simp]:
  "m_ID (a_failed c m) = m_ID m" "m_DedupID (a_failed c m) = m_DedupID m" "m_Seq (a_failed c m) = m_Seq m"
  "dedup_of c' (a_failed c m) = dedup_of c' m" "expires c' (a_failed c m) = expires c' m"
  by (simp_all add: a_failed_def dedup_of_def expires_def Let_def)

lemma dedup_of_fields [simp]: "e_DedupID (dedup_of c m) = m_DedupID m" "e_MessageID (dedup_of c m) = m_ID m"
  by (simp_all add: dedup_of_def)

text \<open>Adding a message.\<close>

lemma word_succ_less: "(w :: 'a::len word) + 1 \<noteq> 0 \<Longrightarrow> w < w + 1"
proof -
  assume "w + 1 \<noteq> 0"
  then have "unat (1 + w) = Suc (unat w)" by (intro unatSuc) (simp add: add.commute)
  then show ?thesis by (simp add: word_less_nat_alt add.commute)
qed

lemma enqueue_seqs:
  assumes "seqs_ok a" and "tidy_enqueue T m a" and "a_enqueue m a = Inr a'"
  shows "seqs_ok a'"
proof -
  have a': "a_msgs a (m_ID m) = None" "a_msgs a' = (a_msgs a)(m_ID m \<mapsto> durable m)"
    "a_nextSeq a' = (if m_Seq m \<ge> a_nextSeq a then m_Seq m + 1 else a_nextSeq a)"
    using assms(3) by (auto simp: a_enqueue_def split: if_splits)
  have lt: "m_Seq m < m_Seq m + 1" using assms(2) by (intro word_succ_less) (simp add: tidy_enqueue_def)
  have new: "\<forall>m' \<in> ran (a_msgs a). m_Seq m' \<noteq> m_Seq m" using assms(2) by (simp add: tidy_enqueue_def)
  have "0 < a_nextSeq a'" "m_Seq m < a_nextSeq a'" "a_nextSeq a \<le> a_nextSeq a'"
    using assms(1) lt a'(3) by (auto simp: seqs_ok_def not_le)
  then show ?thesis
    using assms(1) new unfolding seqs_ok_def a'(2) by (auto simp: ran_def split: if_splits) (metis order_less_le_trans)+
qed

lemma a_enqueue_Inr:
  assumes "a_enqueue m a = Inr a'"
  shows "a_msgs a (m_ID m) = None" "a_msgs a' = (a_msgs a)(m_ID m \<mapsto> durable m)" "a_cfg a' = a_cfg a"
    "a_dedup a' = (if m_DedupID m \<noteq> '''' then (a_dedup a)(m_DedupID m \<mapsto> dedup_of (a_cfg a) m) else a_dedup a)"
  using assms by (auto simp: a_enqueue_def split: if_splits)

lemma enqueue_dedup:
  assumes ok: "dedup_ok T a" "keys_ok a" and tidy: "tidy_enqueue T m a" and e: "a_enqueue m a = Inr a'"
  shows "dedup_ok T a'"
proof -
  note E = a_enqueue_Inr [OF e]
  let ?c = "a_cfg a"
  have ran: "ran (a_msgs a') = insert (durable m) (ran (a_msgs a))" using E(1,2) by simp
  have same: "m_DedupID m' = m_DedupID m \<Longrightarrow> m_DedupID m \<noteq> '''' \<Longrightarrow> m' \<in> ran (a_msgs a) \<Longrightarrow>
      m_Seq m' < m_Seq m \<and> expires ?c m' \<le> T" for m'
    using tidy by (simp add: tidy_enqueue_def)
  have owner: "m_DedupID x = k \<and> dedup_of ?c x = y \<and> (\<forall>m' \<in> ran (a_msgs a'). m_DedupID m' = k \<longrightarrow> m_Seq m' \<le> m_Seq x)"
    if y: "a_dedup a' k = Some y" "T < e_ExpiresAt y" and x: "a_msgs a' (e_MessageID y) = Some x" for k y x
  proof (cases "m_DedupID m \<noteq> '''' \<and> k = m_DedupID m")
    case True
    then have y': "y = dedup_of ?c m" using y(1) E(4) by simp
    then have "x = durable m" using x E(2) by simp
    then show ?thesis using y' True same by (auto simp: ran intro: order.strict_implies_order)
  next
    case False
    then have old: "a_dedup a k = Some y" using y(1) E(4) by (auto split: if_splits)
    then have "e_MessageID y \<noteq> m_ID m" using tidy y(2) by (auto simp: tidy_enqueue_def ran_def)
    then have x': "a_msgs a (e_MessageID y) = Some x" using x E(2) by simp
    have "k \<noteq> ''''" using ok(2) old by (auto simp: keys_ok_def)
    then have "m_DedupID m \<noteq> k" using False by auto
    then show ?thesis using ok(1) old y(2) x' unfolding dedup_ok_def ran by auto
  qed
  have remembered: "a_dedup a' (m_DedupID x) = Some (dedup_of ?c x) \<or> expires ?c x \<le> T"
    if x: "x \<in> ran (a_msgs a')" "m_DedupID x \<noteq> ''''" for x
  proof (cases "x = durable m")
    case True
    then show ?thesis using x(2) E(4) by simp
  next
    case False
    then have "x \<in> ran (a_msgs a)" using x(1) ran by simp
    then show ?thesis using ok(1) x(2) same [of x] E(4) by (auto simp: dedup_ok_def)
  qed
  show ?thesis using owner remembered unfolding dedup_ok_def E(3) by blast
qed

lemma enqueue_keys: "keys_ok a \<Longrightarrow> a_enqueue m a = Inr a' \<Longrightarrow> keys_ok a'"
  using a_enqueue_Inr [of m a a'] by (auto simp: keys_ok_def split: if_splits)

text \<open>Removing a message, and a failed delivery.\<close>

lemma ack_ok:
  assumes ok: "a_ok T a" and e: "a_ack k a = Inr a'"
  shows "a_ok T a'"
proof -
  have a': "a' = a\<lparr>a_msgs := (a_msgs a)(k := None)\<rparr>" using e by (auto simp: a_ack_def split: if_splits)
  have sub: "ran (a_msgs a') \<subseteq> ran (a_msgs a)" by (auto simp: a' ran_def split: if_splits)
  show ?thesis
    using ok sub unfolding a_ok_def keys_ok_def seqs_ok_def dedup_ok_def
    by (auto simp: a' split: if_splits)
qed

definition msg_like :: "message \<Rightarrow> message \<Rightarrow> bool" where
  "msg_like m m' \<longleftrightarrow> m_ID m = m_ID m' \<and> m_DedupID m = m_DedupID m' \<and> m_Seq m = m_Seq m' \<and>
     m_CreatedAt m = m_CreatedAt m'"

lemma msg_like_dedup: "msg_like m m' \<Longrightarrow> dedup_of c m = dedup_of c m' \<and> expires c m = expires c m'"
  by (simp add: msg_like_def dedup_of_def expires_def)

lemma like_dedup_ok:
  assumes ok: "dedup_ok T a" and like: "\<And>k. rel_option msg_like (a_msgs a k) (a_msgs a' k)"
    and same: "a_cfg a' = a_cfg a" "a_dedup a' = a_dedup a"
  shows "dedup_ok T a'"
proof -
  have get: "\<exists>y. a_msgs a k = Some y \<and> msg_like y x" if "a_msgs a' k = Some x" for k x
    using like [of k] that by (auto simp: option_rel_Some2)
  have ran: "\<exists>y \<in> ran (a_msgs a). msg_like y x" if "x \<in> ran (a_msgs a')" for x
    using that get by (fastforce simp: ran_def)
  have "m_DedupID x = k \<and> dedup_of (a_cfg a) x = e \<and> (\<forall>m' \<in> ran (a_msgs a'). m_DedupID m' = k \<longrightarrow> m_Seq m' \<le> m_Seq x)"
    if e: "a_dedup a k = Some e" "T < e_ExpiresAt e" and x: "a_msgs a' (e_MessageID e) = Some x" for k e x
  proof -
    from get [OF x] obtain y where y: "a_msgs a (e_MessageID e) = Some y" "msg_like y x" by blast
    then have Y: "m_DedupID y = k" "dedup_of (a_cfg a) y = e"
      "\<forall>m' \<in> ran (a_msgs a). m_DedupID m' = k \<longrightarrow> m_Seq m' \<le> m_Seq y"
      using ok e unfolding dedup_ok_def by blast+
    then show ?thesis using y(2) msg_like_dedup [OF y(2)] ran unfolding msg_like_def by metis
  qed
  moreover have "a_dedup a (m_DedupID x) = Some (dedup_of (a_cfg a) x) \<or> expires (a_cfg a) x \<le> T"
    if x: "x \<in> ran (a_msgs a')" "m_DedupID x \<noteq> ''''" for x
  proof -
    from ran [OF x(1)] obtain y where y: "y \<in> ran (a_msgs a)" "msg_like y x" by blast
    then have "m_DedupID y = m_DedupID x" by (simp add: msg_like_def)
    then show ?thesis using ok y(1) x(2) msg_like_dedup [OF y(2)] unfolding dedup_ok_def by metis
  qed
  ultimately show ?thesis unfolding dedup_ok_def same by blast
qed

lemma attempt_ok:
  assumes ok: "a_ok T a" and e: "a_attempt k a = Inr a'"
  shows "a_ok T a'"
proof -
  obtain m where m: "a_msgs a k = Some m" and a': "a' = a\<lparr>a_msgs := (a_msgs a)(k \<mapsto> a_failed (a_cfg a) m)\<rparr>"
    using e by (auto simp: a_attempt_def split: option.splits)
  have "msg_like m (a_failed (a_cfg a) m)" by (simp add: msg_like_def a_failed_def Let_def)
  then have like: "rel_option msg_like (a_msgs a j) (a_msgs a' j)" for j
    using m by (cases "a_msgs a j") (auto simp: a' msg_like_def)
  have "dedup_ok T a'" by (rule like_dedup_ok [OF _ like]) (use ok in \<open>simp_all add: a_ok_def a'\<close>)
  moreover have "keys_ok a'" using ok m by (auto simp: a_ok_def keys_ok_def a')
  moreover have "seqs_ok a'" using ok m unfolding a_ok_def seqs_ok_def a' by (auto split: if_splits)
  ultimately show ?thesis using ok by (simp add: a_ok_def a')
qed

text \<open>A deduplication record of a snapshot.\<close>

lemma dedup_record_ok:
  assumes ok: "a_ok T a" and tidy: "tidy_dedup T d a"
  shows "a_ok T (a\<lparr>a_dedup := (a_dedup a)(e_DedupID d \<mapsto> d)\<rparr>)"
  using assms unfolding a_ok_def tidy_dedup_def keys_ok_def seqs_ok_def dedup_ok_def
  by (auto split: if_splits)

lemma a_apply_ok:
  assumes ok: "a_ok T a" and tidy: "tidy T e a" and ap: "a_apply e a = Inr a'" and nm: "fst e \<noteq> TypeMeta"
  shows "a_ok T a'"
proof -
  consider (enq) m where "fst e = TypeEnqueue" "decodeMessage (snd e) = Inr m" "a_enqueue m a = Inr a'"
    | (ack) "a_ack (string_of (snd e)) a = Inr a'" | (att) "a_attempt (string_of (snd e)) a = Inr a'"
    | (ded) d where "fst e = TypeDedup" "decodeDedup (snd e) = Inr d" "a' = a\<lparr>a_dedup := (a_dedup a)(e_DedupID d \<mapsto> d)\<rparr>"
    using ap nm by (auto simp: a_apply_def Let_def bindE_eq_Inr split: if_splits)
  then show ?thesis
  proof cases
    case enq
    then have "tidy_enqueue T m a" using tidy by (simp add: tidy_def)
    then show ?thesis
      using ok enq(3) enqueue_dedup enqueue_seqs enqueue_keys a_enqueue_Inr(3) [OF enq(3)] unfolding a_ok_def by metis
  next
    case ded
    then show ?thesis using dedup_record_ok [OF ok] tidy by (simp add: tidy_def)
  qed (use ack_ok [OF ok] attempt_ok [OF ok] in blast)+
qed

section \<open>Whole logs\<close>

lemma json_int_range: "json_int v old = Some i \<Longrightarrow> in_i64 old \<Longrightarrow> in_i64 i"
  by (auto simp: json_int_def parse_int_lit_def Let_def in_i64_def min_i64_def max_i64_def
      split: json.splits if_splits list.splits)

lemma set_member_ranges:
  assumes "set_member kv c = Some c'" and "config_ranges c"
  shows "config_ranges c'"
  using assms json_int_range unfolding set_member_def Let_def config_ranges_def
  by (auto split: if_splits)

lemma set_members_ranges: "set_members kvs c = Some c' \<Longrightarrow> config_ranges c \<Longrightarrow> config_ranges c'"
  by (induction kvs arbitrary: c) (auto split: option.splits dest: set_member_ranges)

lemma decodeConfig_ranges: "decodeConfig b = Inr c \<Longrightarrow> config_ranges c"
proof -
  have z: "config_ranges zero_config" by (simp add: zero_config_def config_ranges_def in_i64_def min_i64_def max_i64_def)
  assume "decodeConfig b = Inr c"
  then show ?thesis
    using z set_members_ranges [OF _ z] by (auto simp: decodeConfig_def split: option.splits json.splits)
qed

lemma meta_ok:
  assumes "a_apply (TypeMeta, p) a_init = Inr a"
  shows "a_ok T a"
proof -
  obtain c d where c: "decodeConfig p = Inr c" "Validate c = Inr d"
    and a: "a = a_init\<lparr>a_cfg := d, a_nextSeq := max 1 (c_NextSeq d)\<rparr>"
    using assms by (auto simp: a_apply_def a_meta_def bindE_eq_Inr a_init_def)
  have "0 < max (1 :: u64) (c_NextSeq d)" by (simp add: less_max_iff_disj)
  then show ?thesis
    using Validate_valid [OF c(2)] Validate_ranges [OF c(2) decodeConfig_ranges [OF c(1)]]
    by (simp add: a a_ok_def keys_ok_def seqs_ok_def dedup_ok_def a_init_def)
qed

lemma tail_ok:
  "a_run es a = Inr a' \<Longrightarrow> tidy_run T es a \<Longrightarrow> list_all (\<lambda>e. fst e \<noteq> TypeMeta) es \<Longrightarrow> a_ok T a \<Longrightarrow> a_ok T a'"
proof (induction es arbitrary: a)
  case (Cons e es)
  then obtain a1 where "a_apply e a = Inr a1" "a_run es a1 = Inr a'" by (auto simp: bindE_eq_Inr)
  then show ?case using Cons a_apply_ok [of T a e a1] by auto
qed simp

lemma a_run_ok:
  assumes "headed es" and "tidy_run T es a_init" and "a_run es a_init = Inr a"
  shows "a_ok T a"
proof -
  obtain p es' where es: "es = (TypeMeta, p) # es'" "list_all (\<lambda>e. fst e \<noteq> TypeMeta) es'"
    using assms(1) by (cases es) auto
  obtain a1 where a1: "a_apply (TypeMeta, p) a_init = Inr a1" "a_run es' a1 = Inr a"
    using assms(3) by (auto simp: es bindE_eq_Inr)
  then show ?thesis using tail_ok [OF a1(2) _ es(2) meta_ok [OF a1(1)]] assms(2) by (simp add: es)
qed

section \<open>Agreement\<close>

lemma tidy_sim:
  assumes sim: "a_sim T a b" and tidy: "tidy T e a"
  shows "tidy T e b"
proof -
  have m: "a_msgs b = a_msgs a" and c: "same_cfg (a_cfg a) (a_cfg b)" using sim by (simp_all add: a_rel_def)
  have x: "expires (a_cfg b) x = expires (a_cfg a) x" for x using same_cfg_uses(1) [OF c] by (simp add: expires_def)
  have "\<exists>k. a_dedup a k = Some y" if "a_dedup b k = Some y" "T < e_ExpiresAt y" for k y
    using sim that by (auto simp: a_rel_def dedup_sim_def) (metis expired_opt_simps(2) linorder_not_less)
  then have "y \<in> ran (a_dedup a)" if "y \<in> ran (a_dedup b)" "T < e_ExpiresAt y" for y
    using that by (fastforce simp: ran_def)
  then show ?thesis using tidy by (auto simp: tidy_def tidy_enqueue_def tidy_dedup_def m x)
qed

lemma tidy_run_sim: "a_sim T a b \<Longrightarrow> tidy_run T es a \<Longrightarrow> a_run es a = Inr a' \<Longrightarrow> tidy_run T es b"
proof (induction es arbitrary: a b)
  case (Cons e es)
  then obtain a1 where a1: "a_apply e a = Inr a1" "a_run es a1 = Inr a'" by (auto simp: bindE_eq_Inr)
  from sim.apply_rel [OF Cons.prems(1) a1(1)] obtain b1 where "a_apply e b = Inr b1" "a_sim T a1 b1" by blast
  then show ?case using Cons.IH [of a1 b1] Cons.prems(2) a1 tidy_sim [OF Cons.prems(1)] by simp
qed simp

lemma purged_ok:
  assumes rel: "a_purged T a b" and ok: "a_ok T b"
  shows "a_ok T a"
proof -
  have m: "a_msgs a = a_msgs b" "a_nextSeq a = a_nextSeq b" and c: "same_cfg (a_cfg a) (a_cfg b)"
    using rel by (simp_all add: a_rel_def)
  note U = same_cfg_uses [OF c]
  have x: "expires (a_cfg a) y = expires (a_cfg b) y" for y using U(1) by (simp add: expires_def)
  have d: "a_dedup a k = a_dedup b k \<or> a_dedup a k = None \<and> expired_opt T (a_dedup b k)" for k
    using rel by (simp add: a_rel_def dedup_purged_def)
  have sub: "a_dedup a k = Some e \<Longrightarrow> a_dedup b k = Some e" for k e using d [of k] by auto
  have keep: "a_dedup b k = Some e \<Longrightarrow> a_dedup a k = Some e \<or> e_ExpiresAt e \<le> T" for k e using d [of k] by auto
  have "keys_ok a" using ok sub unfolding a_ok_def keys_ok_def m by blast
  moreover have "seqs_ok a" using ok unfolding a_ok_def seqs_ok_def m by blast
  moreover have "dedup_ok T a"
    using ok sub keep unfolding a_ok_def dedup_ok_def m U(1) x expires_def by blast
  ultimately show ?thesis using ok U(3,4) by (simp add: a_ok_def)
qed

end
