(* ===== verification/Queue_Snapshot.thy ===== *)
theory Queue_Snapshot
  imports Queue_Tidy "HOL-Library.List_Lexorder" "HOL-Library.Char_ord"
begin

text \<open>
  The snapshot \<open>Compact\<close> of \<open>internal/queue/queue.go\<close> writes: the configuration with the sequence counter,
  the live messages in order of sequence number, and the deduplication entries whose message is
  gone and whose window is open. Go ranges over a map in no fixed order; the order of the two loops
  is an argument, a list of keys. The lemmas show that the snapshot is a tidy log that replays to a
  state in agreement with the queue's.
\<close>

section \<open>The snapshot\<close>

definition snapshot_config :: "queue \<Rightarrow> config" where
  "snapshot_config q = (q_cfg q)\<lparr>c_NextSeq := q_nextSeq q\<rparr>"

definition live_messages :: "string list \<Rightarrow> queue \<Rightarrow> message list" where
  "live_messages ids q = sort_key m_Seq (map (q_mem q) (List.map_filter (map_of (q_byID q)) ids))"

definition orphans :: "gotime \<Rightarrow> string list \<Rightarrow> queue \<Rightarrow> dedupEntry list" where
  "orphans now keys q =
     sort_key e_DedupID
       (filter (\<lambda>e. now < e_ExpiresAt e \<and> map_of (q_byID q) (e_MessageID e) = None)
         (List.map_filter (map_of (q_dedup q)) keys))"

definition snapshot :: "gotime \<Rightarrow> string list \<Rightarrow> string list \<Rightarrow> queue \<Rightarrow> entry list" where
  "snapshot now ids keys q =
     (TypeMeta, encodeConfig (snapshot_config q)) #
     map (\<lambda>m. (TypeEnqueue, encodeMessage m)) (live_messages ids q) @
     map (\<lambda>e. (TypeDedup, encodeDedup e)) (orphans now keys q)"

section \<open>Replaying messages\<close>

definition put_dedup :: "config \<Rightarrow> message \<Rightarrow> (string \<Rightarrow> dedupEntry option) \<Rightarrow> string \<Rightarrow> dedupEntry option" where
  "put_dedup c m d = (if m_DedupID m \<noteq> '''' then d(m_DedupID m \<mapsto> dedup_of c m) else d)"

definition msgs_of :: "message list \<Rightarrow> string \<Rightarrow> message option" where
  "msgs_of ms = fold (\<lambda>m f. f(m_ID m \<mapsto> durable m)) ms Map.empty"

definition dedups_of :: "config \<Rightarrow> message list \<Rightarrow> string \<Rightarrow> dedupEntry option" where
  "dedups_of c ms = fold (put_dedup c) ms Map.empty"

lemma msgs_of_simps [simp]:
  "msgs_of [] = Map.empty" "msgs_of (ms @ [m]) = (msgs_of ms)(m_ID m \<mapsto> durable m)"
  by (simp_all add: msgs_of_def)

lemma dedups_of_simps [simp]:
  "dedups_of c [] = Map.empty" "dedups_of c (ms @ [m]) = put_dedup c m (dedups_of c ms)"
  by (simp_all add: dedups_of_def)

lemma msgs_of_Some: "distinct (map m_ID ms) \<Longrightarrow>
    msgs_of ms k = Some x \<longleftrightarrow> (\<exists>m \<in> set ms. m_ID m = k \<and> x = durable m)"
  by (induction ms rule: rev_induct) (auto simp: image_iff)

lemma msgs_of_None: "msgs_of ms k = None \<longleftrightarrow> k \<notin> m_ID ` set ms"
  by (induction ms rule: rev_induct) auto

lemma ran_msgs_of: "distinct (map m_ID ms) \<Longrightarrow> ran (msgs_of ms) = durable ` set ms"
  by (auto simp: ran_def msgs_of_Some)

text \<open>The last message with a deduplication id owns the entry.\<close>

lemma dedups_of_Some:
  "sorted (map m_Seq ms) \<Longrightarrow> dedups_of c ms k = Some e \<Longrightarrow>
   k \<noteq> '''' \<and> (\<exists>m \<in> set ms. m_DedupID m = k \<and> e = dedup_of c m \<and>
     (\<forall>m' \<in> set ms. m_DedupID m' = k \<longrightarrow> m_Seq m' \<le> m_Seq m))"
proof (induction ms rule: rev_induct)
  case (snoc m ms)
  then have s: "sorted (map m_Seq ms)" "\<forall>m' \<in> set ms. m_Seq m' \<le> m_Seq m" by (auto simp: sorted_append)
  show ?case
  proof (cases "m_DedupID m \<noteq> '''' \<and> m_DedupID m = k")
    case True
    then show ?thesis using snoc.prems(2) s(2) by (auto simp: put_dedup_def)
  next
    case False
    then have "dedups_of c ms k = Some e" using snoc.prems(2) by (auto simp: put_dedup_def split: if_splits)
    from snoc.IH [OF s(1) this] show ?thesis using False by auto
  qed
qed simp

lemma dedups_of_None: "m \<in> set ms \<Longrightarrow> m_DedupID m \<noteq> '''' \<Longrightarrow> dedups_of c ms (m_DedupID m) \<noteq> None"
  by (induction ms rule: rev_induct) (auto simp: put_dedup_def)

text \<open>
  Messages that can be replayed in this order onto an empty queue: a deduplication id comes back only
  after its window.
\<close>

definition replayable :: "gotime \<Rightarrow> config \<Rightarrow> u64 \<Rightarrow> message list \<Rightarrow> bool" where
  "replayable T c n ms \<longleftrightarrow> list_all storable ms \<and> distinct (map m_ID ms) \<and>
     sorted_wrt (<) (map m_Seq ms) \<and> (\<forall>m \<in> set ms. m_Seq m < n) \<and>
     (\<forall>m \<in> set ms. \<forall>m' \<in> set ms. m_DedupID m \<noteq> '''' \<longrightarrow> m_DedupID m' = m_DedupID m \<longrightarrow>
        m_Seq m' < m_Seq m \<longrightarrow> expires c m' \<le> T)"

abbreviation enqueue_record :: "message \<Rightarrow> entry" where
  "enqueue_record m \<equiv> (TypeEnqueue, encodeMessage m)"

lemma replayable_snoc:
  assumes "replayable T c n (ms @ [m])"
  shows "replayable T c n ms" "storable m" "m_ID m \<notin> m_ID ` set ms" "m_Seq m < n"
    "m' \<in> set ms \<Longrightarrow> m_Seq m' < m_Seq m"
    "m' \<in> set ms \<Longrightarrow> m_DedupID m \<noteq> '''' \<Longrightarrow> m_DedupID m' = m_DedupID m \<Longrightarrow> expires c m' \<le> T"
proof -
  have less: "m_Seq m' < m_Seq m" if "m' \<in> set ms" for m'
    using assms that unfolding replayable_def by (simp add: sorted_wrt_append)
  then show "m' \<in> set ms \<Longrightarrow> m_Seq m' < m_Seq m" .
  show "replayable T c n ms" "storable m" "m_ID m \<notin> m_ID ` set ms" "m_Seq m < n"
    using assms unfolding replayable_def by (auto simp: strict_sorted_iff sorted_append)
  show "m' \<in> set ms \<Longrightarrow> m_DedupID m \<noteq> '''' \<Longrightarrow> m_DedupID m' = m_DedupID m \<Longrightarrow> expires c m' \<le> T"
    using assms less unfolding replayable_def by simp
qed

lemma word_less_succ: "(w :: 'a::len word) < n \<Longrightarrow> w + 1 \<noteq> 0"
  by (metis add.commute add_diff_cancel_left' diff_0 word_order.extremum_strict)

lemma replay_messages:
  assumes "a_msgs a = Map.empty" and "a_dedup a = Map.empty"
  shows "replayable T (a_cfg a) (a_nextSeq a) ms \<Longrightarrow>
    a_run (map enqueue_record ms) a = Inr (a\<lparr>a_msgs := msgs_of ms, a_dedup := dedups_of (a_cfg a) ms\<rparr>) \<and>
    tidy_run T (map enqueue_record ms) a"
proof (induction ms rule: rev_induct)
  case Nil
  then show ?case using assms by simp
next
  case (snoc m ms)
  note R = replayable_snoc [OF snoc.prems]
  let ?a = "a\<lparr>a_msgs := msgs_of ms, a_dedup := dedups_of (a_cfg a) ms\<rparr>"
  let ?e = "enqueue_record m"
  have IH: "a_run (map enqueue_record ms) a = Inr ?a" "tidy_run T (map enqueue_record ms) a"
    using snoc.IH [OF R(1)] by blast+
  have dm: "decodeMessage (encodeMessage m) = Inr (reloaded m)" by (rule decodeMessage_encodeMessage [OF R(2)])
  have "msgs_of ms (m_ID m) = None" using R(3) by (simp add: msgs_of_None)
  then have step: "a_apply ?e ?a = Inr (a\<lparr>a_msgs := msgs_of (ms @ [m]), a_dedup := dedups_of (a_cfg a) (ms @ [m])\<rparr>)"
    using R(4) by (simp add: a_apply_def rtype_defs dm a_enqueue_def put_dedup_def)
  have ran: "ran (msgs_of ms) = durable ` set ms" using R(1) by (simp add: ran_msgs_of replayable_def)
  have s: "sorted (map m_Seq ms)" using R(1) by (simp add: replayable_def strict_sorted_iff)
  have "m_Seq m + 1 \<noteq> 0" using R(4) by (rule word_less_succ)
  moreover have "e_MessageID e \<noteq> m_ID m" if e: "e \<in> ran (dedups_of (a_cfg a) ms)" for e
  proof -
    from e obtain k where "dedups_of (a_cfg a) ms k = Some e" by (auto simp: ran_def)
    from dedups_of_Some [OF s this] show ?thesis using R(3) by (auto simp: image_iff)
  qed
  ultimately have "tidy_enqueue T (reloaded m) ?a"
    using R(5,6) by (auto simp: tidy_enqueue_def ran dest: order.strict_implies_not_eq)
  then have "tidy T ?e ?a" by (simp add: tidy_def dm rtype_defs)
  then show ?case
    using IH step tidy_run_append [OF IH(1), of T "[?e]"] by (simp add: a_run_append fun_upd_def)
qed

section \<open>Replaying orphans\<close>

abbreviation dedup_record :: "dedupEntry \<Rightarrow> entry" where
  "dedup_record e \<equiv> (TypeDedup, encodeDedup e)"

definition entry_fits :: "dedupEntry \<Rightarrow> bool" where
  "entry_fits e \<longleftrightarrow> length (e_DedupID e) < 65536 \<and> length (e_MessageID e) < 65536 \<and> in_i64 (e_ExpiresAt e)"

definition put_all :: "dedupEntry list \<Rightarrow> (string \<Rightarrow> dedupEntry option) \<Rightarrow> string \<Rightarrow> dedupEntry option" where
  "put_all ds d = fold (\<lambda>e d. d(e_DedupID e \<mapsto> e)) ds d"

lemma put_all_simps [simp]:
  "put_all [] d = d" "put_all (ds @ [e]) d = (put_all ds d)(e_DedupID e \<mapsto> e)"
  by (simp_all add: put_all_def)

lemma put_all_other: "k \<notin> e_DedupID ` set ds \<Longrightarrow> put_all ds d k = d k"
  by (induction ds rule: rev_induct) auto

lemma put_all_in: "e \<in> set ds \<Longrightarrow> distinct (map e_DedupID ds) \<Longrightarrow> put_all ds d (e_DedupID e) = Some e"
  by (induction ds rule: rev_induct) (auto simp: image_iff)

lemma replay_orphans:
  "list_all entry_fits ds \<Longrightarrow> \<forall>d \<in> set ds. tidy_dedup T d a \<Longrightarrow>
   a_run (map dedup_record ds) a = Inr (a\<lparr>a_dedup := put_all ds (a_dedup a)\<rparr>) \<and>
   tidy_run T (map dedup_record ds) a"
proof (induction ds rule: rev_induct)
  case (snoc d ds)
  let ?a = "a\<lparr>a_dedup := put_all ds (a_dedup a)\<rparr>"
  have IH: "a_run (map dedup_record ds) a = Inr ?a" "tidy_run T (map dedup_record ds) a"
    using snoc by simp_all
  have dd: "decodeDedup (encodeDedup d) = Inr d"
    using snoc.prems(1) by (intro decodeDedup_encodeDedup) (simp_all add: entry_fits_def)
  then have step: "a_apply (dedup_record d) ?a = Inr (a\<lparr>a_dedup := put_all (ds @ [d]) (a_dedup a)\<rparr>)"
    by (simp add: a_apply_def rtype_defs)
  have "tidy T (dedup_record d) ?a"
    using snoc.prems(2) by (simp add: tidy_def dd rtype_defs tidy_dedup_def)
  then show ?case
    using IH step tidy_run_append [OF IH(1), of T "[dedup_record d]"] by (simp add: a_run_append fun_upd_def)
qed simp

section \<open>Replaying a snapshot\<close>

text \<open>
  The live messages and the orphans of a well-kept abstract queue.
\<close>

definition lists_msgs :: "aqueue \<Rightarrow> message list \<Rightarrow> bool" where
  "lists_msgs a ms \<longleftrightarrow> distinct (map m_ID ms) \<and> sorted (map m_Seq ms) \<and> list_all storable ms \<and>
     (\<forall>k. a_msgs a k = msgs_of ms k)"

definition lists_orphans :: "gotime \<Rightarrow> aqueue \<Rightarrow> dedupEntry list \<Rightarrow> bool" where
  "lists_orphans now a ds \<longleftrightarrow> distinct (map e_DedupID ds) \<and> list_all entry_fits ds \<and>
     (\<forall>e. e \<in> set ds \<longleftrightarrow> e \<in> ran (a_dedup a) \<and> now < e_ExpiresAt e \<and> a_msgs a (e_MessageID e) = None)"

lemma lists_msgs_mem: "lists_msgs a ms \<Longrightarrow> m \<in> set ms \<Longrightarrow> a_msgs a (m_ID m) = Some (durable m)"
  by (auto simp: lists_msgs_def msgs_of_Some)

lemma dedup_okD:
  assumes "dedup_ok T a"
  shows "a_dedup a k = Some e \<Longrightarrow> T < e_ExpiresAt e \<Longrightarrow> a_msgs a (e_MessageID e) = Some m \<Longrightarrow>
      m_DedupID m = k \<and> dedup_of (a_cfg a) m = e \<and> (\<forall>m' \<in> ran (a_msgs a). m_DedupID m' = k \<longrightarrow> m_Seq m' \<le> m_Seq m)"
    and "m \<in> ran (a_msgs a) \<Longrightarrow> m_DedupID m \<noteq> '''' \<Longrightarrow>
      a_dedup a (m_DedupID m) = Some (dedup_of (a_cfg a) m) \<or> expires (a_cfg a) m \<le> T"
  using assms unfolding dedup_ok_def by blast+

lemma lists_replayable:
  assumes ok: "a_ok T a" and ms: "lists_msgs a ms"
  shows "replayable T (a_cfg a) (a_nextSeq a) ms"
proof -
  note mem = lists_msgs_mem [OF ms]
  have seqs: "seqs_ok a" and dd: "dedup_ok T a" using ok by (simp_all add: a_ok_def)
  have ids: "m_ID m = m_ID m'" if "m \<in> set ms" "m' \<in> set ms" "m_Seq m = m_Seq m'" for m m'
    using seqs mem [OF that(1)] mem [OF that(2)] that(3) unfolding seqs_ok_def by fastforce
  have "distinct (map m_Seq ms)"
    using ms ids unfolding lists_msgs_def distinct_map inj_on_def by metis
  moreover have "m_Seq m < a_nextSeq a" if "m \<in> set ms" for m
    using seqs mem [OF that] unfolding seqs_ok_def by fastforce
  moreover have "expires (a_cfg a) m' \<le> T"
    if m: "m \<in> set ms" "m' \<in> set ms" "m_DedupID m \<noteq> ''''" "m_DedupID m' = m_DedupID m" "m_Seq m' < m_Seq m" for m m'
  proof (rule ccontr)
    let ?d = "dedup_of (a_cfg a) m'"
    assume n: "\<not> expires (a_cfg a) m' \<le> T"
    have r: "durable m' \<in> ran (a_msgs a)" "durable m \<in> ran (a_msgs a)" using mem m(1,2) by (auto simp: ran_def)
    have e: "a_dedup a (m_DedupID m) = Some ?d"
      using dedup_okD(2) [OF dd r(1)] m(3,4) n by simp
    have t: "T < e_ExpiresAt ?d" using n by (simp add: expires_def)
    have "a_msgs a (e_MessageID ?d) = Some (durable m')" using mem [OF m(2)] by simp
    from dedup_okD(1) [OF dd e t this] r(2) m(5) show False by fastforce
  qed
  ultimately show ?thesis using ms by (simp add: replayable_def lists_msgs_def strict_sorted_iff)
qed

lemma lists_orphans_tidy:
  assumes ok: "a_ok T a" and ds: "lists_orphans now a ds" and d: "d \<in> set ds"
    and b: "a_msgs b = a_msgs a" "same_cfg (a_cfg a) (a_cfg b)"
  shows "tidy_dedup T d b"
proof -
  from ds d obtain k where k: "a_dedup a k = Some d" and gone: "a_msgs a (e_MessageID d) = None"
    by (auto simp: lists_orphans_def ran_def)
  then have key: "e_DedupID d = k" "k \<noteq> ''''" using ok by (auto simp: a_ok_def keys_ok_def)
  have "expires (a_cfg b) m \<le> T" if m: "m \<in> ran (a_msgs a)" "m_DedupID m = e_DedupID d" for m
  proof -
    from m(1) ok have "a_msgs a (m_ID m) = Some m" by (auto simp: a_ok_def keys_ok_def ran_def)
    then have "d \<noteq> dedup_of (a_cfg a) m" using gone by auto
    then have "expires (a_cfg a) m \<le> T"
      using dedup_okD(2) [of T a m] ok m key k by (auto simp: a_ok_def)
    then show ?thesis using same_cfg_uses(1) [OF b(2)] by (simp add: expires_def)
  qed
  then show ?thesis using gone key by (simp add: tidy_dedup_def b(1))
qed

text \<open>The deduplication map a snapshot replays to agrees with the one it was taken from.\<close>

lemma snapshot_dedup:
  assumes ok: "a_ok T a" and ms: "lists_msgs a ms" and ds: "lists_orphans now a ds" and now: "now \<le> T"
  shows "dedup_sim T (a_dedup a) (put_all ds (dedups_of (a_cfg a) ms))"
  unfolding dedup_sim_def
proof
  fix k
  let ?d = "put_all ds (dedups_of (a_cfg a) ms)"
  have dd: "dedup_ok T a" and keys: "keys_ok a" and seqs: "seqs_ok a" using ok by (simp_all add: a_ok_def)
  have srt: "sorted (map m_Seq ms)" and ids: "distinct (map m_ID ms)" using ms by (simp_all add: lists_msgs_def)
  have inran: "durable m \<in> ran (a_msgs a)" if "m \<in> set ms" for m
    using lists_msgs_mem [OF ms that] by (auto simp: ran_def)
  show "a_dedup a k = ?d k \<or> expired_opt T (a_dedup a k) \<and> expired_opt T (?d k)"
  proof (cases "k \<in> e_DedupID ` set ds")
    case True
    then obtain e where e: "e \<in> set ds" "k = e_DedupID e" by blast
    then obtain j where "a_dedup a j = Some e" using ds by (auto simp: lists_orphans_def ran_def)
    moreover have "j = k" using calculation keys e(2) by (auto simp: keys_ok_def)
    moreover have "?d k = Some e" using ds e by (simp add: lists_orphans_def put_all_in)
    ultimately show ?thesis by simp
  next
    case False
    then have d: "?d k = dedups_of (a_cfg a) ms k" by (rule put_all_other)
    have rebuilt: "a_dedup a k = Some e \<or> e_ExpiresAt e \<le> T" if e: "dedups_of (a_cfg a) ms k = Some e" for e
    proof -
      from dedups_of_Some [OF srt e] obtain m where "m \<in> set ms" "k \<noteq> ''''" "m_DedupID m = k" "e = dedup_of (a_cfg a) m"
        by blast
      then show ?thesis using dedup_okD(2) [OF dd inran] by (auto simp: expires_def)
    qed
    show ?thesis
    proof (cases "expired_opt T (a_dedup a k)")
      case True
      then show ?thesis using rebuilt d by (cases "dedups_of (a_cfg a) ms k") auto
    next
      case open_entry: False
      then obtain e where e: "a_dedup a k = Some e" "T < e_ExpiresAt e" by (auto simp: expired_opt_def split: option.splits)
      have "e \<notin> set ds" using False keys e(1) unfolding keys_ok_def by blast
      then have "a_msgs a (e_MessageID e) \<noteq> None" using ds e now by (auto simp: lists_orphans_def ran_def)
      then obtain x where x: "a_msgs a (e_MessageID e) = Some x" by blast
      then obtain m where m: "m \<in> set ms" "x = durable m" using ms ids by (auto simp: lists_msgs_def msgs_of_Some)
      note own = dedup_okD(1) [OF dd e x]
      have "k \<noteq> ''''" using keys e(1) by (auto simp: keys_ok_def)
      then obtain f where f: "dedups_of (a_cfg a) ms k = Some f"
        using dedups_of_None [OF m(1), of "a_cfg a"] own m(2) by auto
      from dedups_of_Some [OF srt f] obtain m' where m': "m' \<in> set ms" "m_DedupID m' = k" "f = dedup_of (a_cfg a) m'"
        "\<forall>y \<in> set ms. m_DedupID y = k \<longrightarrow> m_Seq y \<le> m_Seq m'" by blast
      have "m_Seq m' = m_Seq m"
        using own inran [OF m'(1)] m'(2,4) m by (intro order.antisym) auto
      then have "m_ID m' = m_ID m"
        using seqs lists_msgs_mem [OF ms m(1)] lists_msgs_mem [OF ms m'(1)] unfolding seqs_ok_def by fastforce
      then have "m' = m" using ids m(1) m'(1) by (meson distinct_map inj_onD)
      then show ?thesis using d f m'(3) own m(2) e(1) by simp
    qed
  qed
qed

definition snapshot_of :: "aqueue \<Rightarrow> message list \<Rightarrow> dedupEntry list \<Rightarrow> entry list" where
  "snapshot_of a ms ds = (TypeMeta, encodeConfig ((a_cfg a)\<lparr>c_NextSeq := a_nextSeq a\<rparr>)) #
     map enqueue_record ms @ map dedup_record ds"

lemma snapshot_meta:
  assumes ok: "a_ok T a"
  shows "a_apply (TypeMeta, encodeConfig ((a_cfg a)\<lparr>c_NextSeq := a_nextSeq a\<rparr>)) a_init =
    Inr (a_init\<lparr>a_cfg := (a_cfg a)\<lparr>c_NextSeq := a_nextSeq a\<rparr>, a_nextSeq := a_nextSeq a\<rparr>)"
proof -
  let ?c = "(a_cfg a)\<lparr>c_NextSeq := a_nextSeq a\<rparr>"
  have v: "valid_config ?c" "config_ranges ?c" using ok by (simp_all add: a_ok_def config_ranges_def)
  then have "list_all plain (c_Name ?c)" "list_all plain (c_Ordering ?c)"
    using nameRE_plain by (auto simp: valid_config_def plain_def)
  from decodeConfig_encodeConfig [OF this v(2)] valid_Validate [OF v(1)]
  have "a_apply (TypeMeta, encodeConfig ?c) a_init = Inr (a_init\<lparr>a_cfg := ?c, a_nextSeq := max 1 (a_nextSeq a)\<rparr>)"
    by (simp add: a_apply_def a_meta_def a_init_def)
  moreover have "max 1 (a_nextSeq a) = a_nextSeq a"
    using ok by (simp add: a_ok_def seqs_ok_def max_def) (metis word_le_less_eq word_less_1 linorder_not_le)
  ultimately show ?thesis by simp
qed

lemma snapshot_run:
  assumes ok: "a_ok T a" and ms: "lists_msgs a ms" and ds: "lists_orphans now a ds" and now: "now \<le> T"
  shows "\<exists>b. a_run (snapshot_of a ms ds) a_init = Inr b \<and> a_sim T a b"
    and "tidy_run T (snapshot_of a ms ds) a_init" and "headed (snapshot_of a ms ds)"
proof -
  let ?c = "(a_cfg a)\<lparr>c_NextSeq := a_nextSeq a\<rparr>"
  let ?a0 = "a_init\<lparr>a_cfg := ?c, a_nextSeq := a_nextSeq a\<rparr>"
  let ?a1 = "?a0\<lparr>a_msgs := msgs_of ms, a_dedup := dedups_of ?c ms\<rparr>"
  let ?b = "?a1\<lparr>a_dedup := put_all ds (dedups_of ?c ms)\<rparr>"
  have U: "dedup_of ?c m = dedup_of (a_cfg a) m" for m using same_cfg_uses(1) [OF same_cfg_seq] by metis
  have "replayable T ?c (a_nextSeq a) ms"
    using lists_replayable [OF ok ms] by (simp add: replayable_def expires_def U)
  then have 1: "a_run (map enqueue_record ms) ?a0 = Inr ?a1 \<and> tidy_run T (map enqueue_record ms) ?a0"
    using replay_messages [of ?a0 T ms] by (simp add: a_init_def)
  have "a_msgs a = msgs_of ms" using ms by (auto simp: lists_msgs_def)
  then have "\<forall>d \<in> set ds. tidy_dedup T d ?a1" using lists_orphans_tidy [OF ok ds] by simp
  then have 2: "a_run (map dedup_record ds) ?a1 = Inr ?b \<and> tidy_run T (map dedup_record ds) ?a1"
    using replay_orphans [of ds T ?a1] ds by (simp add: lists_orphans_def)
  have "dedups_of ?c ms = dedups_of (a_cfg a) ms"
    by (simp add: dedups_of_def put_dedup_def [abs_def] U cong: if_cong)
  then have "a_sim T a ?b"
    using snapshot_dedup [OF ok ms ds now] \<open>a_msgs a = msgs_of ms\<close> by (simp add: a_rel_def)
  moreover have "a_run (snapshot_of a ms ds) a_init = Inr ?b"
    using snapshot_meta [OF ok] 1 2 by (simp add: snapshot_of_def a_run_append)
  ultimately show "\<exists>b. a_run (snapshot_of a ms ds) a_init = Inr b \<and> a_sim T a b" by blast
  show "tidy_run T (snapshot_of a ms ds) a_init"
    using snapshot_meta [OF ok] 1 2 tidy_run_append [of "map enqueue_record ms" ?a0 ?a1 T "map dedup_record ds"]
    by (simp add: snapshot_of_def tidy_def rtype_defs)
  show "headed (snapshot_of a ms ds)" by (auto simp: snapshot_of_def rtype_defs list_all_iff)
qed

section \<open>The snapshot of a queue\<close>

text \<open>The two loops range over every key of their map once.\<close>

definition ranges :: "string list \<Rightarrow> (string \<times> 'a) list \<Rightarrow> bool" where
  "ranges ks m \<longleftrightarrow> distinct ks \<and> set ks = fst ` set m"

lemma map_filter_ranges:
  assumes "ranges ks m" and key: "\<And>k v. map_of m k = Some v \<Longrightarrow> f v = k"
  shows "set (List.map_filter (map_of m) ks) = ran (map_of m)" and "distinct (map f (List.map_filter (map_of m) ks))"
proof -
  have d: "distinct ks" and s: "set ks = dom (map_of m)"
    using assms(1) by (simp_all add: ranges_def dom_map_of_conv_image_fst)
  show "set (List.map_filter (map_of m) ks) = ran (map_of m)"
    using s by (force simp: map_filter_def ran_def)
  have "map f (List.map_filter (map_of m) ks) = ks" if "set ks \<subseteq> dom (map_of m)" for ks
    using that by (induction ks) (auto simp: map_filter_simps key)
  then show "distinct (map f (List.map_filter (map_of m) ks))" using d s by simp
qed

lemma live_messages_lists:
  assumes inv: "queue_inv q" and ids: "ranges ids (q_byID q)"
    and st: "\<And>k p. map_of (q_byID q) k = Some p \<Longrightarrow> storable (q_mem q p)"
  shows "lists_msgs (absq q) (live_messages ids q)"
proof -
  let ?ps = "List.map_filter (map_of (q_byID q)) ids"
  have key: "m_ID (q_mem q p) = k" if "map_of (q_byID q) k = Some p" for k p
    using inv map_of_SomeD [OF that] by (auto simp: queue_inv_def ids_ok_def)
  note R = map_filter_ranges [OF ids key]
  have set: "set (live_messages ids q) = q_mem q ` ran (map_of (q_byID q))"
    by (simp add: live_messages_def R(1))
  have "distinct (map m_ID (map (q_mem q) ?ps))" using R(2) by (simp add: comp_def)
  then have d: "distinct (map m_ID (live_messages ids q))"
    unfolding live_messages_def by (metis distinct_map distinct_sort mset_eq_setD mset_map mset_sort set_map set_sort)
  have "a_msgs (absq q) k = msgs_of (live_messages ids q) k" for k
  proof (cases "map_of (q_byID q) k")
    case None
    then show ?thesis
      using msgs_of_None [of "live_messages ids q" k] key unfolding set by (auto simp: absq_def ran_def)
  next
    case (Some p)
    then have "q_mem q p \<in> set (live_messages ids q)" unfolding set by (auto simp: ran_def)
    then have "msgs_of (live_messages ids q) k = Some (durable (q_mem q p))"
      using msgs_of_Some [OF d] key [OF Some] by blast
    then show ?thesis by (simp add: absq_def Some)
  qed
  moreover have "list_all storable (live_messages ids q)" using st by (auto simp: list_all_iff set ran_def)
  ultimately show ?thesis using d by (simp add: lists_msgs_def live_messages_def)
qed

lemma orphans_lists:
  assumes ok: "a_ok T (absq q)" and keys: "ranges keys (q_dedup q)"
    and fit: "\<And>k e. map_of (q_dedup q) k = Some e \<Longrightarrow> entry_fits e"
  shows "lists_orphans now (absq q) (orphans now keys q)"
proof -
  let ?es = "List.map_filter (map_of (q_dedup q)) keys"
  have key: "e_DedupID e = k" if "map_of (q_dedup q) k = Some e" for k e
    using ok that by (auto simp: a_ok_def keys_ok_def absq_def)
  note R = map_filter_ranges [OF keys key]
  have set: "e \<in> set (orphans now keys q) \<longleftrightarrow>
      e \<in> ran (map_of (q_dedup q)) \<and> now < e_ExpiresAt e \<and> map_of (q_byID q) (e_MessageID e) = None" for e
    by (auto simp: orphans_def R(1))
  have "distinct (map e_DedupID ?es)" by (rule R(2))
  then have "distinct (map e_DedupID (orphans now keys q))"
    unfolding orphans_def distinct_map by (auto intro: inj_on_subset)
  moreover have "list_all entry_fits (orphans now keys q)" using set fit by (auto simp: list_all_iff ran_def)
  ultimately show ?thesis using set by (simp add: lists_orphans_def absq_def)
qed

text \<open>What a queue must hold for its snapshot to be readable: every message and entry fits its record.\<close>

definition queue_fits :: "queue \<Rightarrow> bool" where
  "queue_fits q \<longleftrightarrow>
     (\<forall>(k, p) \<in> set (q_byID q). storable (q_mem q p) \<and> length (encodeMessage (q_mem q p)) \<le> MaxRecordSize) \<and>
     (\<forall>(k, e) \<in> set (q_dedup q). entry_fits e)"

lemma snapshot_eq: "snapshot now ids keys q = snapshot_of (absq q) (live_messages ids q) (orphans now keys q)"
  by (simp add: snapshot_def snapshot_of_def snapshot_config_def absq_def)

lemma snapshot_replays:
  assumes inv: "queue_inv q" and ok: "a_ok T (absq q)" and now: "now \<le> T" and fits: "queue_fits q"
    and ids: "ranges ids (q_byID q)" and keys: "ranges keys (q_dedup q)"
  shows "\<exists>b. a_run (snapshot now ids keys q) a_init = Inr b \<and> a_sim T (absq q) b"
    and "tidy_run T (snapshot now ids keys q) a_init" and "headed (snapshot now ids keys q)"
    and "list_all wf_entry (snapshot now ids keys q)"
proof -
  have f: "storable (q_mem q p)" "length (encodeMessage (q_mem q p)) \<le> MaxRecordSize"
    if "map_of (q_byID q) k = Some p" for k p
    using fits map_of_SomeD [OF that] by (auto simp: queue_fits_def)
  have g: "entry_fits e" if "map_of (q_dedup q) k = Some e" for k e
    using fits map_of_SomeD [OF that] by (auto simp: queue_fits_def)
  note ms = live_messages_lists [OF inv ids f(1)] and ds = orphans_lists [OF ok keys g, where now = now]
  note R = snapshot_run [OF ok ms ds now]
  show "\<exists>b. a_run (snapshot now ids keys q) a_init = Inr b \<and> a_sim T (absq q) b"
    "tidy_run T (snapshot now ids keys q) a_init" "headed (snapshot now ids keys q)"
    using R by (simp_all add: snapshot_eq)
  have "config_ranges (snapshot_config q)" "valid_config (snapshot_config q)"
    using ok by (simp_all add: a_ok_def absq_def snapshot_config_def config_ranges_def)
  then have "length (encodeConfig (snapshot_config q)) \<le> MaxRecordSize"
    by (intro encodeConfig_fits) (simp_all add: valid_config_def)
  moreover have "length (encodeMessage m) \<le> MaxRecordSize" if "m \<in> set (live_messages ids q)" for m
  proof -
    have "m \<in> q_mem q ` set (List.map_filter (map_of (q_byID q)) ids)" using that by (simp add: live_messages_def)
    then show ?thesis using f(2) by (auto simp: map_filter_def)
  qed
  moreover have "length (encodeDedup e) \<le> MaxRecordSize" if "entry_fits e" for e
    using that by (simp add: entry_fits_def encodeDedup_def MaxRecordSize_def)
  ultimately show "list_all wf_entry (snapshot now ids keys q)"
    using ds by (auto simp: snapshot_def list_all_iff wf_entry_def rtype_defs Type_valid_def lists_orphans_def)
qed

end
