(* ===== verification/Wal_Writer.thy ===== *)
theory Wal_Writer
  imports Wal_Log
begin

text \<open>
  \<open>internal/wal/replay.go\<close>, the snapshot writer: a fresh file is written in one pass and renamed
  over the log. A directory is a map from names to contents, so that what a reader finds under a
  name at each point is visible; the answers of the operating system are arguments.
\<close>

section \<open>The writer\<close>

type_synonym fsdir = "string \<Rightarrow> byte list option"

record wwriter =
  w_tmp :: string
  w_data :: "byte list"
  w_size :: int

definition NewWriter :: "string \<Rightarrow> go_error option \<Rightarrow> fsdir \<Rightarrow> go_error + wwriter \<times> fsdir" where
  "NewWriter tmp err dir =
     (case err of
        Some e \<Rightarrow> Inl e
      | None \<Rightarrow> Inr (\<lparr>w_tmp = tmp, w_data = [], w_size = 0\<rparr>, dir(tmp \<mapsto> [])))"

definition Writer_Append :: "rtype \<Rightarrow> byte list \<Rightarrow> go_error option \<Rightarrow> wwriter \<Rightarrow> wwriter \<times> go_error option" where
  "Writer_Append t payload err w =
     (let rec = Encode [] t payload
      in case err of
           Some e \<Rightarrow> (w, Some e)
         | None \<Rightarrow> (w\<lparr>w_data := w_data w @ rec, w_size := i64 (w_size w + int (length rec))\<rparr>, None))"

definition Writer_Size :: "wwriter \<Rightarrow> int" where
  "Writer_Size w = w_size w"

text \<open>The loop of \<open>dirOf\<close>, from the last byte to the first.\<close>

fun dir_loop :: "nat \<Rightarrow> string \<Rightarrow> string" where
  "dir_loop 0 p = ''.''"
| "dir_loop (Suc i) p =
     (if p ! i = CHR ''/'' then if i = 0 then ''/'' else take i p else dir_loop i p)"

definition dirOf :: "string \<Rightarrow> string" where
  "dirOf p = dir_loop (length p) p"

record install_env =
  in_Flush :: "go_error option"
  in_Sync :: "go_error option"
  in_Close :: "go_error option"
  in_Rename :: "go_error option"
  in_dir_open :: "string \<Rightarrow> go_error option"
  in_dir_sync :: "string \<Rightarrow> go_error option"

text \<open>\<open>Install\<close> returns the directory, whether the rename took effect, and the error.\<close>

definition Install :: "string \<Rightarrow> install_env \<Rightarrow> wwriter \<Rightarrow> fsdir \<Rightarrow> fsdir \<times> bool \<times> go_error option" where
  "Install final env w dir =
     (case in_Flush env of Some e \<Rightarrow> (dir, False, Some e) | None \<Rightarrow>
      let dir = dir(w_tmp w \<mapsto> w_data w)
      in case in_Sync env of Some e \<Rightarrow> (dir, False, Some e) | None \<Rightarrow>
         case in_Close env of Some e \<Rightarrow> (dir, False, Some e) | None \<Rightarrow>
         case in_Rename env of Some e \<Rightarrow> (dir, False, Some e) | None \<Rightarrow>
         let dir = dir(w_tmp w := None, final \<mapsto> w_data w)
         in case syncDir (in_dir_open env (dirOf final)) (in_dir_sync env (dirOf final)) of
              Some e \<Rightarrow> (dir, True, Some (Wrapped ''renamed into place but could not fsync its directory'' e))
            | None \<Rightarrow> (dir, True, None))"

definition Abort :: "wwriter \<Rightarrow> fsdir \<Rightarrow> fsdir" where
  "Abort w dir = dir(w_tmp w := None)"

section \<open>What it does\<close>

text \<open>A run of appends, each with its own answer from the file.\<close>

fun write_records :: "(nat \<Rightarrow> go_error option) \<Rightarrow> nat \<Rightarrow> entry list \<Rightarrow> wwriter \<Rightarrow> go_error + wwriter" where
  "write_records errs i [] w = Inr w"
| "write_records errs i ((t, p) # es) w =
     (case Writer_Append t p (errs i) w of
        (w, Some e) \<Rightarrow> Inl e
      | (w, None) \<Rightarrow> write_records errs (Suc i) es w)"

lemma write_records_Inr:
  "write_records errs i es w = Inr w' \<Longrightarrow>
   w_tmp w' = w_tmp w \<and> w_data w' = w_data w @ encode_all es \<and>
   (w_size w = i64 (int (length (w_data w))) \<longrightarrow> w_size w' = i64 (int (length (w_data w'))))"
proof (induction es arbitrary: i w)
  case (Cons e es)
  obtain t p where e: "e = (t, p)" by (cases e)
  let ?w = "w\<lparr>w_data := w_data w @ Encode [] t p, w_size := i64 (w_size w + int (length (Encode [] t p)))\<rparr>"
  have "errs i = None" and run: "write_records errs (Suc i) es ?w = Inr w'"
    using Cons.prems by (auto simp: e Writer_Append_def Let_def split: option.splits)
  from Cons.IH [OF run] show ?case by (simp add: e encode_all_Cons add.assoc)
qed simp

text \<open>
  The swap is atomic: whatever fails, a reader finds under \<open>final\<close> either what was there or the whole
  new file, and the second exactly when \<open>Install\<close> reports that the rename took effect.
\<close>

lemma Install_swap:
  assumes "Install final env w dir = (dir', installed, err)" and "w_tmp w \<noteq> final"
  shows "dir' final = (if installed then Some (w_data w) else dir final)"
    and "x \<noteq> final \<Longrightarrow> x \<noteq> w_tmp w \<Longrightarrow> dir' x = dir x"
    and "\<not> installed \<Longrightarrow> err \<noteq> None"
  using assms by (auto simp: Install_def Let_def dest: sym split: option.splits)

lemma dir_loop_skip: "CHR ''/'' \<notin> set b \<Longrightarrow> j \<le> length b \<Longrightarrow> dir_loop (length a + 1 + j) (a @ CHR ''/'' # b) = dir_loop (length a + 1) (a @ CHR ''/'' # b)"
proof (induction j)
  case (Suc j)
  have "(a @ CHR ''/'' # b) ! (length a + 1 + j) = b ! j" by (simp add: nth_append)
  moreover have "b ! j \<noteq> CHR ''/''" using Suc.prems by (metis Suc_le_lessD nth_mem)
  ultimately show ?case using Suc by simp
qed simp

lemma dirOf_join: "CHR ''/'' \<notin> set b \<Longrightarrow> a \<noteq> [] \<Longrightarrow> dirOf (a @ CHR ''/'' # b) = a"
  using dir_loop_skip [of b "length b" a] by (simp add: dirOf_def nth_append)

end
