(* ===== verification/Queue_Compact.thy ===== *)
theory Queue_Compact
  imports Queue_Snapshot Wal_Writer
begin

text \<open>
  \<open>Compact\<close> of \<open>internal/queue/queue.go\<close>: the snapshot is written beside the log and renamed over it.
  What the log's path names is, whatever fails, the old file or the whole snapshot; the queue keeps
  accepting work only when it knows which one and writes to that one.
\<close>

section \<open>Compact\<close>

record compact_env =
  ce_create :: "go_error option"
  ce_write :: "nat \<Rightarrow> go_error option"
  ce_install :: install_env
  ce_close :: "go_error option"
  ce_open :: "go_error option"

text \<open>
  The result is the queue and the directory, and the error returned; \<open>None\<close> while \<open>Sync\<close> is still
  waiting for the flusher, with the queue's mutex held. First the rename and what follows it.
\<close>

definition compact_swap ::
  "compact_env \<Rightarrow> wwriter \<Rightarrow> queue \<Rightarrow> fsdir \<Rightarrow> (queue \<times> fsdir) \<times> go_error option option" where
  "compact_swap env w q dir =
     (let sz = Writer_Size w
      in case Install (q_path q) (ce_install env) w dir of
           (dir, installed, Some e) \<Rightarrow>
             if \<not> installed then ((q, Abort w dir), Some (Some e))
             else let f = Wrapped ''compaction swapped the log into place but could not make the swap durable'' e
                  in ((q\<lparr>q_failed := Some f\<rparr>, dir), Some (Some f))
         | (dir, installed, None) \<Rightarrow>
             (case Reopen sz (ce_close env)
                (case ce_open env of Some e \<Rightarrow> Inl e
                 | None \<Rightarrow> Inr (case dir (q_path q) of Some b \<Rightarrow> b | None \<Rightarrow> [])) (q_log q) of
                (l, None) \<Rightarrow> ((q\<lparr>q_log := l\<rparr>, dir), None)
              | (l, Some (Some e)) \<Rightarrow>
                  let f = Wrapped ''compaction installed a new log but could not reopen it'' e
                  in ((q\<lparr>q_log := l, q_failed := Some f\<rparr>, dir), Some (Some f))
              | (l, Some None) \<Rightarrow>
                  ((q\<lparr>q_log := l, q_compactFloor := i64 (2 * sz),
                      q_counters := (q_counters q)\<lparr>n_Compactions := n_Compactions (q_counters q) + 1\<rparr>\<rparr>,
                    dir), Some None)))"

definition Compact ::
  "gotime \<Rightarrow> string list \<Rightarrow> string list \<Rightarrow> compact_env \<Rightarrow> queue \<Rightarrow> fsdir \<Rightarrow>
   (queue \<times> fsdir) \<times> go_error option option" where
  "Compact now ids keys env q dir =
     (case checkLocked q of Some e \<Rightarrow> ((q, dir), Some (Some e)) | None \<Rightarrow>
      case Sync (q_log q) of
        (l, None) \<Rightarrow> ((q\<lparr>q_log := l\<rparr>, dir), None)
      | (l, Some (Some e)) \<Rightarrow> ((q\<lparr>q_log := l, q_failed := Some e\<rparr>, dir), Some (Some e))
      | (l, Some None) \<Rightarrow>
          let q = q\<lparr>q_log := l\<rparr>; tmp = q_path q @ ''.compact''
          in case NewWriter tmp (ce_create env) dir of
               Inl e \<Rightarrow> ((q, dir), Some (Some e))
             | Inr (w, dir) \<Rightarrow>
                 (case write_records (ce_write env) 0 (snapshot now ids keys q) w of
                    Inl e \<Rightarrow> ((q, Abort w dir), Some (Some e))
                  | Inr w \<Rightarrow> compact_swap env w q dir))"

section \<open>What it does\<close>

lemma Sync_returns: "Sync l = (l', Some r) \<Longrightarrow> l' = l \<and> r = l_fatal l"
  by (auto simp: Sync_def split: option.splits if_splits)

lemma NewWriter_Inr:
  assumes "NewWriter tmp err dir = Inr (w, dir')"
  shows "w = \<lparr>w_tmp = tmp, w_data = [], w_size = 0\<rparr>" "dir' = dir(tmp \<mapsto> [])"
  using assms by (auto simp: NewWriter_def split: option.splits)

text \<open>The file that is installed holds the snapshot and its size is the one \<open>Reopen\<close> is told.\<close>

definition holds_snapshot :: "string \<Rightarrow> byte list \<Rightarrow> wwriter \<Rightarrow> bool" where
  "holds_snapshot tmp b w \<longleftrightarrow> w_tmp w = tmp \<and> w_data w = b \<and> Writer_Size w = i64 (int (length b))"

lemma i64_0 [simp]: "i64 0 = 0"
  by (simp add: i64_id in_i64_def min_i64_def max_i64_def)

lemma snapshot_written:
  assumes "NewWriter tmp err dir = Inr (w0, dir0)" and "write_records errs 0 es w0 = Inr w"
  shows "holds_snapshot tmp (encode_all es) w"
  using write_records_Inr [OF assms(2)] NewWriter_Inr [OF assms(1)]
  by (simp add: holds_snapshot_def Writer_Size_def)

definition compact_tmp :: "queue \<Rightarrow> string" where
  "compact_tmp q = q_path q @ ''.compact''"

lemma compact_tmp_other [simp]: "compact_tmp q \<noteq> q_path q"
  by (simp add: compact_tmp_def)

text \<open>
  How a call can end once the log is synced: abandoned, with nothing changed but the temporary file;
  or with the snapshot in place, where either the queue writes to it from now on or it has failed.
\<close>

definition abandoned :: "queue \<Rightarrow> fsdir \<Rightarrow> queue \<Rightarrow> fsdir \<Rightarrow> go_error option option \<Rightarrow> bool" where
  "abandoned q dir q' dir' r \<longleftrightarrow> q' = q \<and> (\<exists>e. r = Some (Some e)) \<and> (\<forall>x. x \<noteq> compact_tmp q \<longrightarrow> dir' x = dir x)"

definition reopen_failed :: "wlog \<Rightarrow> wlog \<Rightarrow> bool" where
  "reopen_failed l l' \<longleftrightarrow> l' = l \<or> (\<exists>sz e e'. Reopen sz None (Inl e) l = (l', Some (Some e')))"

definition swapped :: "byte list \<Rightarrow> queue \<Rightarrow> fsdir \<Rightarrow> queue \<Rightarrow> fsdir \<Rightarrow> go_error option option \<Rightarrow> bool" where
  "swapped b q dir q' dir' r \<longleftrightarrow>
     dir' (q_path q) = Some b \<and> (\<forall>x. x \<noteq> compact_tmp q \<and> x \<noteq> q_path q \<longrightarrow> dir' x = dir x) \<and>
     (\<exists>l. (\<exists>f. q' = q\<lparr>q_log := l, q_failed := Some f\<rparr> \<and> r = Some (Some f) \<and> reopen_failed (q_log q) l) \<or>
        Reopen (i64 (int (length b))) None (Inr b) (q_log q) = (l, Some None) \<and> r = Some None \<and>
        q' = q\<lparr>q_log := l, q_compactFloor := i64 (2 * i64 (int (length b))),
           q_counters := (q_counters q)\<lparr>n_Compactions := n_Compactions (q_counters q) + 1\<rparr>\<rparr>)"

lemma Reopen_synced:
  assumes "Sync l = (l, Some None)" and "Reopen sz c opn l = (l', r)"
  shows "r \<noteq> None" and "r = Some None \<Longrightarrow> c = None \<and> (\<exists>b. opn = Inr b)"
    and "r = Some (Some e) \<Longrightarrow> reopen_failed l l'"
  using assms by (auto simp: Reopen_def reopen_failed_def Let_def split: if_splits option.splits sum.splits)

lemma compact_swap_outcome:
  assumes w: "holds_snapshot (compact_tmp q) b w" and sync: "Sync (q_log q) = (q_log q, Some None)"
    and run: "compact_swap env w q dir = ((q', dir'), r)"
  shows "abandoned q dir q' dir' r \<or> swapped b q dir q' dir' r"
proof -
  obtain d i err where I: "Install (q_path q) (ce_install env) w dir = (d, i, err)"
    by (cases "Install (q_path q) (ce_install env) w dir") auto
  have tmp: "w_tmp w = compact_tmp q" "w_tmp w \<noteq> q_path q" using w by (simp_all add: holds_snapshot_def)
  note J = Install_swap [OF I tmp(2)]
  show ?thesis
  proof (cases i)
    case False
    then obtain e where "err = Some e" using J(3) by blast
    then have "q' = q" "r = Some (Some e)" "dir' = Abort w d"
      using run I False by (simp_all add: compact_swap_def Let_def)
    moreover have "d x = dir x" if "x \<noteq> compact_tmp q" for x
      using J(1) J(2) [of x] tmp False that by (cases "x = q_path q") simp_all
    ultimately show ?thesis using tmp by (simp add: abandoned_def Abort_def)
  next
    case True
    then have d: "d (q_path q) = Some b" "\<forall>x. x \<noteq> compact_tmp q \<and> x \<noteq> q_path q \<longrightarrow> d x = dir x"
      using J(1,2) tmp w by (simp_all add: holds_snapshot_def)
    have sz: "Writer_Size w = i64 (int (length b))" using w by (simp add: holds_snapshot_def)
    show ?thesis
    proof (cases err)
      case (Some e)
      then obtain f where "q' = q\<lparr>q_failed := Some f\<rparr>" "r = Some (Some f)" "dir' = d"
        using run I True by (auto simp: compact_swap_def Let_def)
      moreover then have "q' = q\<lparr>q_log := q_log q, q_failed := Some f\<rparr>" by simp
      moreover have "reopen_failed (q_log q) (q_log q)" by (simp add: reopen_failed_def)
      ultimately show ?thesis using d unfolding swapped_def by blast
    next
      case None
      obtain l s where R: "Reopen (i64 (int (length b))) (ce_close env)
          (case ce_open env of Some e \<Rightarrow> Inl e | None \<Rightarrow> Inr b) (q_log q) = (l, s)"
        by (cases "Reopen (i64 (int (length b))) (ce_close env)
          (case ce_open env of Some e \<Rightarrow> Inl e | None \<Rightarrow> Inr b) (q_log q)") auto
      note S = Reopen_synced [OF sync R]
      have run': "dir' = d \<and> ((\<exists>f. q' = q\<lparr>q_log := l, q_failed := Some f\<rparr> \<and> r = Some (Some f) \<and> reopen_failed (q_log q) l) \<or>
          s = Some None \<and> r = Some None \<and> q' = q\<lparr>q_log := l, q_compactFloor := i64 (2 * i64 (int (length b))),
           q_counters := (q_counters q)\<lparr>n_Compactions := n_Compactions (q_counters q) + 1\<rparr>\<rparr>)"
        using run I None R d(1) S(1,3) by (auto simp: compact_swap_def Let_def sz split: option.splits)
      moreover have "Reopen (i64 (int (length b))) None (Inr b) (q_log q) = (l, Some None)" if "s = Some None"
        using R S(2) [OF that] that by (cases "ce_open env") auto
      ultimately show ?thesis using d unfolding swapped_def by blast
    qed
  qed
qed

lemma Compact_outcome:
  assumes run: "Compact now ids keys env q dir = ((q', dir'), r)"
  obtains (refused) e where "checkLocked q = Some e" "q' = q" "dir' = dir" "r = Some (Some e)"
  | (waiting) l where "checkLocked q = None" "Sync (q_log q) = (l, None)" "q' = q\<lparr>q_log := l\<rparr>" "dir' = dir" "r = None"
  | (broken) e where "checkLocked q = None" "l_fatal (q_log q) = Some e" "q' = q\<lparr>q_failed := Some e\<rparr>" "dir' = dir"
      "r = Some (Some e)"
  | (ended) "checkLocked q = None" "Sync (q_log q) = (q_log q, Some None)"
      "abandoned q dir q' dir' r \<or> swapped (encode_all (snapshot now ids keys q)) q dir q' dir' r"
proof (cases "checkLocked q")
  case (Some e)
  show ?thesis by (rule refused [OF Some]) (use run Some in \<open>simp_all add: Compact_def\<close>)
next
  case ok: None
  obtain l s where sync: "Sync (q_log q) = (l, s)" by (cases "Sync (q_log q)")
  consider "s = None" | e where "s = Some (Some e)" | "s = Some None" by (cases s) auto
  then show ?thesis
  proof cases
    case 1
    show ?thesis by (rule waiting [OF ok]) (use run sync ok 1 in \<open>auto simp: Compact_def\<close>)
  next
    case 2
    then have l: "l = q_log q" "l_fatal (q_log q) = Some e" using Sync_returns sync by metis+
    show ?thesis by (rule broken [OF ok l(2)]) (use run sync ok 2 l in \<open>auto simp: Compact_def\<close>)
  next
    case 3
    then have "l = q_log q" using Sync_returns sync by metis
    then have s: "Sync (q_log q) = (q_log q, Some None)" using sync 3 by simp
    show ?thesis
    proof (cases "NewWriter (compact_tmp q) (ce_create env) dir")
      case (Inl e)
      then have "abandoned q dir q' dir' r" using run ok s by (auto simp: Compact_def compact_tmp_def abandoned_def)
      then show ?thesis using ended ok s by blast
    next
      case (Inr wd)
      then obtain w0 d0 where W: "NewWriter (compact_tmp q) (ce_create env) dir = Inr (w0, d0)" by (cases wd) simp
      note N = NewWriter_Inr [OF W]
      show ?thesis
      proof (cases "write_records (ce_write env) 0 (snapshot now ids keys q) w0")
        case (Inl e)
        then have "q' = q" "r = Some (Some e)" "dir' = Abort w0 d0"
          using run ok s W by (simp_all add: Compact_def compact_tmp_def)
        then have "abandoned q dir q' dir' r" using N by (simp add: Abort_def abandoned_def)
        then show ?thesis using ended ok s by blast
      next
        case R: (Inr w)
        have "compact_swap env w q d0 = ((q', dir'), r)"
          using run ok s W R by (simp add: Compact_def compact_tmp_def)
        from compact_swap_outcome [OF snapshot_written [OF W R] s this]
        have "abandoned q dir q' dir' r \<or> swapped (encode_all (snapshot now ids keys q)) q dir q' dir' r"
          using N by (auto simp: abandoned_def swapped_def)
        then show ?thesis using ended ok s by blast
      qed
    qed
  qed
qed

end
