(* ===== verification/Queue_Steps.thy ===== *)
theory Queue_Steps
  imports Queue_Compact
begin

text \<open>
  The steps of a running queue: calls of the public operations, timer ticks, compactions, moves of
  the flusher and waiters that return. Each step appends to the log the records that account for
  what it does to the durable state.
\<close>

section \<open>Steps\<close>

text \<open>The records the expiry loop of a tick appends.\<close>

fun expire_records :: "nat \<Rightarrow> gotime \<Rightarrow> queue \<Rightarrow> (u64 \<times> entry) list" where
  "expire_records fuel now q =
     (if q_inflight q = [] \<or> m_deadline (msg q (hd (q_inflight q))) > now then []
      else case fuel of 0 \<Rightarrow> [] | Suc fuel \<Rightarrow>
        let m = msg q (hd (q_inflight q))
        in case append_log TypeLeaseExpire (bytes_of (m_ID m)) q of
             (q, Inl e) \<Rightarrow> []
           | (q, Inr batch) \<Rightarrow>
               (batch, TypeLeaseExpire, bytes_of (m_ID m)) #
               (case applyAttempt (m_ID m) now q of
                  Inl e \<Rightarrow> []
                | Inr (q, dead) \<Rightarrow>
                    expire_records fuel now
                      (bump_dead dead (bump (\<lambda>c. c\<lparr>n_Expired := n_Expired c + 1\<rparr>) q))))"

declare expire_records.simps [simp del]

definition tick_records :: "gotime \<Rightarrow> queue \<Rightarrow> (u64 \<times> entry) list" where
  "tick_records now q =
     (if q_failed q \<noteq> None \<or> q_closed q then []
      else let q = promoteDue now q in expire_records (length (q_inflight q)) now q)"

text \<open>
  One step of the system, with the records it appends. An enqueue is counted when its message can
  be stored, its id is one the queue does not remember, which holds for the ids the program draws,
  and a sequence number is left; clocks stay below \<open>T\<close>. A compaction is a step here when it leaves the
  file under the log's path as it was.
\<close>

inductive op_step :: "gotime \<Rightarrow> queue \<Rightarrow> (u64 \<times> entry) list \<Rightarrow> queue \<Rightarrow> bool" for T :: gotime where
  enqueued: "Enqueue now rnd pl pr d k q = (q', Inr (res, Some b)) \<Longrightarrow>
    storable (new_message now rnd pl pr d k q) \<Longrightarrow>
    length (encodeMessage (new_message now rnd pl pr d k q)) \<le> MaxRecordSize \<Longrightarrow>
    now \<le> T \<Longrightarrow> q_nextSeq q + 1 \<noteq> 0 \<Longrightarrow> list_all (\<lambda>(k, e). e_MessageID e \<noteq> newID rnd) (q_dedup q) \<Longrightarrow>
    op_step T q [(b, TypeEnqueue, encodeMessage (new_message now rnd pl pr d k q))] q'"
| duplicate: "Enqueue now rnd pl pr d k q = (q', Inr (res, None)) \<Longrightarrow> op_step T q [] q'"
| enqueue_refused: "Enqueue now rnd pl pr d k q = (q', Inl e) \<Longrightarrow>
    map_of (q_byID q) (newID rnd) = None \<Longrightarrow> op_step T q [] q'"
| leased: "Dequeue now mx v q = (q', r) \<Longrightarrow> op_step T q [] q'"
| acked: "Ack k q = (q', Inr b) \<Longrightarrow> op_step T q [(b, TypeAck, bytes_of k)] q'"
| ack_refused: "Ack k q = (q', Inl e) \<Longrightarrow> op_step T q [] q'"
| nacked: "Nack now k q = (q', Inr b) \<Longrightarrow> op_step T q [(b, TypeNack, bytes_of k)] q'"
| nack_refused: "Nack now k q = (q', Inl e) \<Longrightarrow> op_step T q [] q'"
| ticked: "tick now q = Some (q', b, c, nx) \<Longrightarrow> now \<le> T \<Longrightarrow> op_step T q (tick_records now q) q'"
| waited: "waitDurable b q = Some (q', r) \<Longrightarrow> op_step T q [] q'"
| started: "Create_wait t1 t2 b q = Some (Inr q') \<Longrightarrow> op_step T q [] q'"
| signalled: "op_step T q [] (signal q)"
| threshold: "op_step T q [] (SetCompactThreshold n q)"
| compact_refused: "Compact now ids keys env q dir = ((q', dir'), r) \<Longrightarrow> r \<noteq> Some None \<Longrightarrow>
    dir' (q_path q) = dir (q_path q) \<Longrightarrow> op_step T q [] q'"
| flushed: "flusher_step (q_log q) l \<Longrightarrow> op_step T q [] (q\<lparr>q_log := l\<rparr>)"
| closing: "op_step T q [] (Close_queue q)"
| log_closing: "Close_log q = (q', r) \<Longrightarrow> op_step T q [] q'"

inductive_cases op_stepE: "op_step T q new q'"

section \<open>What the steps do to the log\<close>

text \<open>A sequence of accepted appends.\<close>

inductive appends :: "wlog \<Rightarrow> (u64 \<times> entry) list \<Rightarrow> wlog \<Rightarrow> bool" where
  none: "appends l [] l"
| more: "Append t p l = (l1, Inr b) \<Longrightarrow> appends l1 es l2 \<Longrightarrow> appends l ((b, t, p) # es) l2"

lemma appends_reach: "appends l new l' \<Longrightarrow> log_reach base n es l \<Longrightarrow> log_reach base n (es @ new) l'"
proof (induction arbitrary: es rule: appends.induct)
  case (more t p l l1 b new l2)
  from more.IH [OF log_reach.appended [OF more.prems more.hyps(1)]] show ?case by simp
qed simp

lemma appends_one: "Append t p l = (l', Inr b) \<Longrightarrow> appends l [(b, t, p)] l'"
  by (blast intro: appends.intros)

lemma append_log_appends:
  "append_log t p q = (q', Inr b) \<Longrightarrow> appends (q_log q) [(b, t, p)] (q_log q')"
  "append_log t p q = (q', Inl e) \<Longrightarrow> q_log q' = q_log q"
  by (auto simp: append_log_def Append_def split: prod.splits sum.splits option.splits if_splits
      intro: appends_one)

lemma log_frame [simp]:
  "q_log (bump f q) = q_log q" "q_log (bump_dead d q) = q_log q" "q_log (signal q) = q_log q"
  by (simp_all add: bump_def bump_dead_def signal_def)

lemma absq_frame [simp]:
  "absq (bump f q) = absq q" "absq (bump_dead d q) = absq q" "absq (signal q) = absq q"
  "absq (q\<lparr>q_failed := e\<rparr>) = absq q" "absq (q\<lparr>q_closed := c, q_done := d'\<rparr>) = absq q"
  "absq (q\<lparr>q_compactThreshold := n\<rparr>) = absq q" "absq (q\<lparr>q_lastAge := t\<rparr>) = absq q"
  by (simp_all add: bump_def bump_dead_def signal_def absq_def)

lemma append_log_absq: "append_log t p q = (q', r) \<Longrightarrow> absq q' = absq q"
  by (auto simp: append_log_def absq_def split: prod.splits sum.splits)

section \<open>Each step accounts for itself\<close>

definition accounts :: "gotime \<Rightarrow> queue \<Rightarrow> (u64 \<times> entry) list \<Rightarrow> queue \<Rightarrow> bool" where
  "accounts T q new q' \<longleftrightarrow> queue_inv q' \<and> appends (q_log q) new (q_log q') \<and>
     list_all (\<lambda>e. wf_entry e \<and> fst e \<noteq> TypeMeta) (map snd new) \<and>
     (\<exists>a. a_run (map snd new) (absq q) = Inr a \<and> a_purged T (absq q') a)"

lemma accounts_quiet: "queue_inv q' \<Longrightarrow> q_log q' = q_log q \<Longrightarrow> absq q' = absq q \<Longrightarrow> accounts T q [] q'"
  by (simp add: accounts_def appends.none)

lemma accounts_one:
  assumes "queue_inv q'" and "append_log t p q = (q1, Inr b)" and "q_log q' = q_log q1"
    and "wf_entry (t, p)" and "t \<noteq> TypeMeta" and "a_apply (t, p) (absq q) = Inr (absq q')"
  shows "accounts T q [(b, t, p)] q'"
  using assms append_log_appends(1) [OF assms(2)] by (simp add: accounts_def)

lemma appends_trans: "appends l xs l' \<Longrightarrow> appends l' ys l'' \<Longrightarrow> appends l (xs @ ys) l''"
  by (induction rule: appends.induct) (auto intro: appends.intros)

lemma accounts_trans:
  assumes "accounts T q xs q'" and "accounts T q' ys q''"
  shows "accounts T q (xs @ ys) q''"
proof -
  from assms obtain a b where a: "a_run (map snd xs) (absq q) = Inr a" "a_purged T (absq q') a"
    and b: "a_run (map snd ys) (absq q') = Inr b" "a_purged T (absq q'') b" by (auto simp: accounts_def)
  from purged.run_rel [OF a(2) b(1)] obtain c where c: "a_run (map snd ys) a = Inr c" "a_purged T b c" by blast
  have "a_run (map snd (xs @ ys)) (absq q) = Inr c" using a(1) c(1) by (simp add: a_run_append)
  moreover have "a_purged T (absq q'') c" using b(2) c(2) by (rule purged.rel_trans)
  ultimately show ?thesis using assms by (auto simp: accounts_def intro: appends_trans)
qed

lemma checkLocked_None: "checkLocked q = None \<longleftrightarrow> \<not> q_closed q \<and> q_failed q = None"
  by (simp add: checkLocked_def)

lemma enqueue_new_accounts:
  assumes inv: "queue_inv q" and ok: "enqueue_new now rnd pl pr d k q = (q', Inr (res, Some b))"
    and st: "storable (new_message now rnd pl pr d k q)"
    and sz: "length (encodeMessage (new_message now rnd pl pr d k q)) \<le> MaxRecordSize"
  shows "accounts T q [(b, TypeEnqueue, encodeMessage (new_message now rnd pl pr d k q))] q'"
proof -
  let ?m = "new_message now rnd pl pr d k q"
  obtain q1 q2 where q1: "append_log TypeEnqueue (encodeMessage ?m) q = (q1, Inr b)"
    and q2: "applyEnqueue ?m now q1 = Inr q2" and q': "q' = bump (\<lambda>c. c\<lparr>n_Enqueued := n_Enqueued c + 1\<rparr>) q2"
    using ok by (auto simp: enqueue_new_def Let_def split: prod.splits sum.splits)
  have inv1: "queue_inv q1" using append_log_inv [OF q1 inv] .
  have fresh: "map_of (q_byID q1) (m_ID ?m) = None" using q2 by (auto simp: applyEnqueue_def split: if_splits)
  from applyEnqueue_spec [OF inv1 fresh, of now] q2 have inv2: "queue_inv q2" and log: "q_log q2 = q_log q1"
    using only_heaps_fields(4) by fastforce+
  have "a_enqueue ?m (absq q) = Inr (absq q2)"
    using applyEnqueue_refines [OF inv1, of ?m now] q2 append_log_absq [OF q1] by simp
  then have "a_apply (TypeEnqueue, encodeMessage ?m) (absq q) = Inr (absq q')"
    by (simp add: a_apply_def rtype_defs decodeMessage_encodeMessage [OF st] q')
  then show ?thesis
    using inv2 log sz by (intro accounts_one [OF _ q1]) (simp_all add: q' wf_entry_def rtype_defs Type_valid_def)
qed

lemma enqueue_new_refused:
  assumes inv: "queue_inv q" and ok: "enqueue_new now rnd pl pr d k q = (q', Inl e)"
    and fresh: "map_of (q_byID q) (newID rnd) = None"
  shows "accounts T q [] q'"
proof -
  let ?m = "new_message now rnd pl pr d k q"
  have id: "m_ID ?m = newID rnd" by (simp add: new_message_def)
  obtain q1 r where q1: "append_log TypeEnqueue (encodeMessage ?m) q = (q1, r)"
    by (cases "append_log TypeEnqueue (encodeMessage ?m) q")
  have "map_of (q_byID q1) (m_ID ?m) = None" using fresh append_log_frame(2) [OF q1] id by simp
  with applyEnqueue_spec [OF append_log_inv [OF q1 inv]]
  have "\<exists>q2. applyEnqueue ?m now q1 = Inr q2" by blast
  then have "r = Inl e" "q' = q1" using ok q1 by (cases r; auto simp: enqueue_new_def Let_def)+
  then show ?thesis
    using append_log_inv [OF q1 inv] append_log_absq [OF q1] append_log_appends(2) [of _ _ q q1 e] q1
    by (intro accounts_quiet) simp_all
qed

lemma enqueue_new_batch:
  "enqueue_new now rnd pl pr d k q = (q', Inr (res, x)) \<Longrightarrow> x \<noteq> None"
  by (auto simp: enqueue_new_def Let_def split: prod.splits sum.splits)

lemma Enqueue_accounts:
  assumes inv: "queue_inv q" and ok: "Enqueue now rnd pl pr d k q = (q', r)"
  shows "r = Inr (res, Some b) \<Longrightarrow> storable (new_message now rnd pl pr d k q) \<Longrightarrow>
      length (encodeMessage (new_message now rnd pl pr d k q)) \<le> MaxRecordSize \<Longrightarrow>
      accounts T q [(b, TypeEnqueue, encodeMessage (new_message now rnd pl pr d k q))] q'"
    and "r = Inr (res, None) \<Longrightarrow> accounts T q [] q'"
    and "r = Inl e \<Longrightarrow> map_of (q_byID q) (newID rnd) = None \<Longrightarrow> accounts T q [] q'"
proof -
  have quiet: "accounts T q [] (bump f q)" "accounts T q [] q" for f
    using inv by (simp_all add: accounts_quiet)
  show "r = Inr (res, Some b) \<Longrightarrow> storable (new_message now rnd pl pr d k q) \<Longrightarrow>
      length (encodeMessage (new_message now rnd pl pr d k q)) \<le> MaxRecordSize \<Longrightarrow>
      accounts T q [(b, TypeEnqueue, encodeMessage (new_message now rnd pl pr d k q))] q'"
    using ok enqueue_new_accounts [OF inv] by (auto simp: Enqueue_def split: option.splits)
  show "r = Inr (res, None) \<Longrightarrow> accounts T q [] q'"
    using ok quiet by (auto simp: Enqueue_def split: option.splits dest: enqueue_new_batch)
  show "r = Inl e \<Longrightarrow> map_of (q_byID q) (newID rnd) = None \<Longrightarrow> accounts T q [] q'"
    using ok quiet by (auto simp: Enqueue_def split: option.splits dest: enqueue_new_refused [OF inv])
qed

lemma wf_id: "length k < 65536 \<Longrightarrow> Type_valid t \<Longrightarrow> wf_entry (t, bytes_of k)"
  by (simp add: wf_entry_def MaxRecordSize_def)

lemma Ack_accounts:
  assumes inv: "queue_inv q" and below: "a_below n (absq q)" and ok: "Ack k q = (q', r)"
  shows "r = Inr b \<Longrightarrow> accounts T q [(b, TypeAck, bytes_of k)] q'" and "r = Inl e \<Longrightarrow> accounts T q [] q'"
proof -
  have quiet: "accounts T q [] q" using inv by (simp add: accounts_quiet)
  have main: "(r = Inr b \<longrightarrow> accounts T q [(b, TypeAck, bytes_of k)] q') \<and> (r = Inl e \<longrightarrow> accounts T q [] q')"
    if p: "map_of (q_byID q) k = Some p" and q1: "append_log TypeAck (bytes_of k) q = (q1, r1)"
      and res: "(q', r) = (case r1 of Inl e \<Rightarrow> (q1, Inl e) | Inr batch \<Rightarrow>
          (case applyAck k q1 of Inl e \<Rightarrow> (q1, Inl e)
           | Inr q2 \<Rightarrow> (bump (\<lambda>c. c\<lparr>n_Acked := n_Acked c + 1\<rparr>) q2, Inr batch)))" for p q1 r1
  proof -
    have inv1: "queue_inv q1" using append_log_inv [OF q1 inv] .
    have p1: "map_of (q_byID q1) k = Some p" using p append_log_frame(2) [OF q1] by simp
    from applyAck_spec [OF inv1 p1] obtain q2 where q2: "applyAck k q1 = Inr q2" "queue_inv q2"
      "q_log q2 = q_log q1" using only_heaps_fields(4) by fastforce
    have "a_ack k (absq q) = Inr (absq q2)"
      using applyAck_refines [OF inv1, of k] q2(1) append_log_absq [OF q1] by simp
    moreover have "length k < 65536" using below p by (auto simp: a_below_def absq_def)
    ultimately have "accounts T q [(b, TypeAck, bytes_of k)] (bump f q2)" if "r1 = Inr b" for f b
      using q1 q2 that
      by (intro accounts_one [of _ TypeAck "bytes_of k" q q1])
        (simp_all add: wf_id a_apply_def rtype_defs Type_valid_def)
    moreover have "accounts T q [] q1" if "r1 = Inl x" for x
      using inv1 q1 that append_log_absq [OF q1] append_log_appends(2) by (intro accounts_quiet) blast+
    ultimately show ?thesis using res q2(1) by (cases r1) auto
  qed
  then show "r = Inr b \<Longrightarrow> accounts T q [(b, TypeAck, bytes_of k)] q'" "r = Inl e \<Longrightarrow> accounts T q [] q'"
    using ok quiet
    by (auto simp: Ack_def split: option.splits if_splits prod.splits)
qed

text \<open>A failed delivery, as \<open>Nack\<close> and the expiry loop record it.\<close>

lemma attempt_accounts:
  assumes inv: "queue_inv q" and below: "a_below max_i64 (absq q)" and p: "map_of (q_byID q) k = Some p"
    and q1: "append_log t (bytes_of k) q = (q1, Inr b)" and t: "t = TypeNack \<or> t = TypeLeaseExpire"
  shows "\<exists>q2 d. applyAttempt k now q1 = Inr (q2, d) \<and> accounts T q [(b, t, bytes_of k)] q2"
proof -
  have inv1: "queue_inv q1" using append_log_inv [OF q1 inv] .
  have abs1: "absq q1 = absq q" using append_log_absq [OF q1] .
  have p1: "map_of (q_byID q1) k = Some p" using p append_log_frame(2) [OF q1] by simp
  from applyAttempt_spec [OF inv1 p1, of now] obtain q2 d where q2: "applyAttempt k now q1 = Inr (q2, d)"
    "queue_inv q2" "q_log q2 = q_log q1" using only_heaps_fields(4) by fastforce
  have "attempts_below max_i64 q1" using below_absq [OF inv1] below abs1 by simp
  from applyAttempt_refines [OF inv1 this, of k now] have "a_attempt k (absq q) = Inr (absq q2)"
    using q2(1) abs1 by simp
  moreover have "length k < 65536" using below p by (auto simp: a_below_def absq_def)
  ultimately have "accounts T q [(b, t, bytes_of k)] q2"
    using q1 q2 t
    by (intro accounts_one [of _ t "bytes_of k" q q1])
      (auto simp: wf_id a_apply_def rtype_defs Type_valid_def)
  then show ?thesis using q2(1) by blast
qed

lemma accounts_frame [simp]:
  "accounts T q new (bump f q') = accounts T q new q'"
  "accounts T q new (bump_dead d q') = accounts T q new q'"
  "accounts T q new (signal q') = accounts T q new q'"
  by (simp_all add: accounts_def)

lemma append_refused_accounts:
  "queue_inv q \<Longrightarrow> append_log t p q = (q', Inl e) \<Longrightarrow> accounts T q [] q'"
  by (intro accounts_quiet) (auto intro: append_log_inv append_log_absq append_log_appends(2))

lemma Nack_accounts:
  assumes inv: "queue_inv q" and below: "a_below max_i64 (absq q)" and ok: "Nack now k q = (q', r)"
  shows "r = Inr b \<Longrightarrow> accounts T q [(b, TypeNack, bytes_of k)] q'" and "r = Inl e \<Longrightarrow> accounts T q [] q'"
proof -
  have quiet: "accounts T q [] q" using inv by (simp add: accounts_quiet)
  have main: "(r = Inr b \<longrightarrow> accounts T q [(b, TypeNack, bytes_of k)] q') \<and> (r = Inl e \<longrightarrow> accounts T q [] q')"
    if p: "map_of (q_byID q) k = Some p" and q1: "append_log TypeNack (bytes_of k) q = (q1, r1)"
      and res: "(q', r) = (case r1 of Inl e \<Rightarrow> (q1, Inl e) | Inr batch \<Rightarrow>
          (case applyAttempt k now q1 of Inl e \<Rightarrow> (q1, Inl e)
           | Inr (q2, d) \<Rightarrow>
               (bump_dead d (bump (\<lambda>c. c\<lparr>n_Nacked := n_Nacked c + 1\<rparr>) q2), Inr batch)))" for p q1 r1
  proof (cases r1)
    case (Inl x)
    then show ?thesis using res append_refused_accounts [OF inv] q1 by auto
  next
    case (Inr b')
    from attempt_accounts [OF inv below p q1 [unfolded Inr], of now T] obtain q2 d where
      q2: "applyAttempt k now q1 = Inr (q2, d)" "accounts T q [(b', TypeNack, bytes_of k)] q2" by auto
    then show ?thesis using res Inr by auto
  qed
  then show "r = Inr b \<Longrightarrow> accounts T q [(b, TypeNack, bytes_of k)] q'" "r = Inl e \<Longrightarrow> accounts T q [] q'"
    using ok quiet
    by (auto simp: Nack_def split: option.splits if_splits prod.splits)
qed

section \<open>Dequeue and the timer\<close>

lemma inv_state:
  "queue_inv q \<Longrightarrow> p \<in> set (q_ready q) \<Longrightarrow> m_state (q_mem q p) = stateReady"
  "queue_inv q \<Longrightarrow> p \<in> set (q_inflight q) \<Longrightarrow> m_state (q_mem q p) = stateInFlight"
  using inv_holder [of q p stateReady] inv_holder [of q p stateInFlight] by auto

lemma promoteDue_absq:
  assumes "queue_inv q"
  shows "absq (promoteDue now q) = absq q"
proof -
  have "absq (promoteDue now q) = absq (map_msgs (promoted now q) q)"
    using promoteDue_spec [OF assms, of now] abs_only_heaps by blast
  also have "\<dots> = absq q"
    by (rule abs_map_msgs) (auto simp: promoted_def delayed_state [OF assms])
  finally show ?thesis .
qed

lemma promoteDue_quiet:
  assumes "queue_inv q"
  shows "accounts T q [] (promoteDue now q)"
  using promoteDue_spec [OF assms, of now] promoteDue_absq [OF assms, of now]
    only_heaps_fields(4) [of "map_msgs (promoted now q) q" "promoteDue now q"]
  by (intro accounts_quiet) simp_all

lemma dequeue_loop_quiet:
  assumes inv: "queue_inv q" and dl: "dequeue_loop now v n q = (q', ms)"
  shows "queue_inv q'" "q_log q' = q_log q" "absq q' = absq q"
proof -
  from dequeue_loop_spec [OF inv dl] obtain ps where ps: "dequeued now v q ps q'" by blast
  then have oh: "only_heaps (map_msgs (leased_in (set ps) now v) q) q'" and inv': "queue_inv q'"
    and sub: "set ps \<subseteq> set (q_ready q)" by (auto simp: dequeued_def)
  have "absq q' = absq (map_msgs (leased_in (set ps) now v) q)" by (rule abs_only_heaps [OF oh])
  also have "\<dots> = absq q"
    by (rule abs_map_msgs) (use sub inv_state(1) [OF inv] in \<open>auto simp: leased_in_def\<close>)
  finally show "absq q' = absq q" .
  show "queue_inv q'" "q_log q' = q_log q" using inv' only_heaps_fields(4) [OF oh] by simp_all
qed

lemma Dequeue_frame:
  assumes inv: "queue_inv q" and ok: "Dequeue now mx v q = (q', r)"
  shows "queue_inv q'" "q_log q' = q_log q" "absq q' = absq q"
proof -
  have "queue_inv q' \<and> q_log q' = q_log q \<and> absq q' = absq q"
  proof (cases "checkLocked q")
    case (Some e)
    then show ?thesis using ok inv by (auto simp: Dequeue_def)
  next
    case None
    let ?q = "promoteDue now q" and ?mx = "if mx \<le> 0 then 1 else mx"
    let ?v = "if v \<le> 0 then visibilityTimeout (q_cfg ?q) else v"
    have P: "queue_inv ?q" "q_log ?q = q_log q" "absq ?q = absq q"
      using promoteDue_spec [OF inv, of now] promoteDue_absq [OF inv, of now]
        only_heaps_fields(4) [of "map_msgs (promoted now q) q" ?q] by auto
    obtain q1 ms where dl: "dequeue_loop now ?v ?mx ?q = (q1, ms)" by (metis prod.exhaust)
    from dequeue_loop_quiet [OF P(1) dl] P have "queue_inv q1" "q_log q1 = q_log q" "absq q1 = absq q" by simp_all
    moreover have "absq (bump f q1) = absq q1" "absq (signal q2) = absq q2" for f q2
      by (simp_all add: bump_def signal_def absq_def)
    ultimately show ?thesis using ok None dl by (auto simp: Dequeue_def Let_def split: if_splits)
  qed
  then show "queue_inv q'" "q_log q' = q_log q" "absq q' = absq q" by simp_all
qed

lemma Dequeue_quiet: "queue_inv q \<Longrightarrow> Dequeue now mx v q = (q', r) \<Longrightarrow> accounts T q [] q'"
  using Dequeue_frame by (intro accounts_quiet)

lemma agePriorities_quiet:
  assumes "queue_inv q"
  shows "accounts T q [] (agePriorities now q)"
proof (cases "aging_due now q")
  case True
  let ?f = "aged_in (set (q_ready q)) (q_cfg q) now" and ?q = "q\<lparr>q_lastAge := now\<rparr>"
  note A = agePriorities_due [OF assms True]
  have "absq (agePriorities now q) = absq (map_msgs ?f ?q)" using A(2) by (rule abs_only_heaps)
  also have "\<dots> = absq ?q" by (rule abs_map_msgs) (simp add: aged_in_def)
  finally show ?thesis using A only_heaps_fields(4) [OF A(2)] by (intro accounts_quiet) simp_all
qed (simp add: agePriorities_not_due accounts_quiet assms)

text \<open>The timer's purge removes expired entries only.\<close>

lemma map_of_filter_key: "map_of (filter (\<lambda>x. P (fst x)) xs) k = (if P k then map_of xs k else None)"
  by (induction xs) auto

lemma dedup_sim_refl [simp]: "dedup_sim T d d"
  by (simp add: dedup_sim_def)

lemma purge_accounts:
  assumes "queue_inv q" and "now \<le> T"
  shows "accounts T q [] (purge_dedup now q)"
proof -
  let ?d = "filter (\<lambda>x. \<not> entry_expired now (q_dedup q) (fst x)) (q_dedup q)"
  have d: "map_of ?d k = (if \<not> entry_expired now (q_dedup q) k then map_of (q_dedup q) k else None)" for k
    by (rule map_of_filter_key)
  have "dedup_purged T (map_of ?d) (map_of (q_dedup q))"
    unfolding dedup_purged_def d using assms(2)
    by (auto simp: expired_opt_def entry_expired_def split: option.splits)
  then show ?thesis
    using assms(1) by (auto simp: purge_dedup_def accounts_def a_rel_def absq_def purged.agree_refl intro: appends.none)
qed

text \<open>The expiry loop, round by round.\<close>

lemma expire_round_accounts:
  assumes inv: "queue_inv q" and below: "a_below n (absq q)" "2 ^ 32 \<le> n" "n + 1 \<le> max_i64"
    and ne: "q_inflight q \<noteq> []" and k: "k = m_ID (q_mem q (hd (q_inflight q)))"
    and ap: "append_log TypeLeaseExpire (bytes_of k) q = (q1, Inr c)"
  shows "\<exists>q2 d. applyAttempt k now q1 = Inr (q2, d) \<and>
    accounts T q [(c, TypeLeaseExpire, bytes_of k)] q2 \<and> a_below (n + 1) (absq q2)"
proof -
  have "hd (q_inflight q) \<in> snd ` set (q_byID q)"
    using inv_holder [OF inv, of "hd (q_inflight q)" stateInFlight] ne by auto
  note look = inv_lookup [OF inv this, folded k]
  have "a_below max_i64 (absq q)" by (rule a_below_mono [OF below(1)]) (use below(3) in simp)
  from attempt_accounts [OF inv this look ap, of now T] obtain q2 d where
    q2: "applyAttempt k now q1 = Inr (q2, d)"
    "accounts T q [(c, TypeLeaseExpire, bytes_of k)] q2" by auto
  obtain a where a: "a_apply (TypeLeaseExpire, bytes_of k) (absq q) = Inr a" "a_purged T (absq q2) a"
    using q2(2) by (auto simp: accounts_def bindE_eq_Inr)
  have "a_below (n + 1) a"
    by (rule a_apply_below [OF below(1) a(1) below(2)]) (use below(3) in simp)
  then have "a_below (n + 1) (absq q2)" using a(2) by (simp add: a_below_def a_rel_def)
  with q2 show ?thesis by blast
qed

lemma expire_stop:
  assumes "q_inflight q = [] \<or> m_deadline (q_mem q (hd (q_inflight q))) > now"
  shows "expire_loop fuel now b q = Some (q, b)" and "expire_records fuel now q = []"
  using assms by (subst expire_loop.simps, simp add: msg_def)
    (subst expire_records.simps, use assms in \<open>simp add: msg_def\<close>)

lemma expire_refused:
  assumes "\<not> (q_inflight q = [] \<or> m_deadline (q_mem q (hd (q_inflight q))) > now)"
    and "append_log TypeLeaseExpire (bytes_of (m_ID (q_mem q (hd (q_inflight q))))) q = (q1, Inl e)"
  shows "expire_loop (Suc fuel) now b q = Some (q1, b)" and "expire_records (Suc fuel) now q = []"
  using assms by (subst expire_loop.simps, simp add: msg_def Let_def)
    (subst expire_records.simps, use assms in \<open>simp add: msg_def Let_def\<close>)

lemma expire_next:
  assumes "\<not> (q_inflight q = [] \<or> m_deadline (q_mem q (hd (q_inflight q))) > now)"
    and "k = m_ID (q_mem q (hd (q_inflight q)))"
    and "append_log TypeLeaseExpire (bytes_of k) q = (q1, Inr c)"
    and "applyAttempt k now q1 = Inr (q2, d)"
    and "q3 = bump_dead d (bump (\<lambda>c. c\<lparr>n_Expired := n_Expired c + 1\<rparr>) q2)"
  shows "expire_loop (Suc fuel) now b q = expire_loop fuel now (if c > b then c else b) q3"
    and "expire_records (Suc fuel) now q = (c, TypeLeaseExpire, bytes_of k) # expire_records fuel now q3"
  using assms by (subst expire_loop.simps, simp add: msg_def Let_def)
    (subst expire_records.simps, use assms in \<open>simp add: msg_def Let_def\<close>)

lemma expire_accounts:
  assumes "queue_inv q" and "a_below n (absq q)" and "2 ^ 32 \<le> n" and "n + int fuel \<le> max_i64"
    and "expire_loop fuel now b q = Some (q', b')"
  shows "accounts T q (expire_records fuel now q) q'"
  using assms
proof (induction fuel arbitrary: n b q)
  case 0
  then have "q_inflight q = [] \<or> m_deadline (q_mem q (hd (q_inflight q))) > now"
    by (subst (asm) expire_loop.simps) (auto simp: msg_def split: if_splits)
  then show ?case using 0 by (simp add: expire_stop accounts_quiet)
next
  case (Suc fuel)
  show ?case
  proof (cases "q_inflight q = [] \<or> m_deadline (q_mem q (hd (q_inflight q))) > now")
    case True
    then show ?thesis using Suc.prems(1,5) by (simp add: expire_stop accounts_quiet)
  next
    case False
    define k where "k = m_ID (q_mem q (hd (q_inflight q)))"
    obtain q1 r where ap: "append_log TypeLeaseExpire (bytes_of k) q = (q1, r)" by (metis prod.exhaust)
    show ?thesis
    proof (cases r)
      case (Inl e)
      note R = expire_refused [OF False ap [unfolded Inl k_def]]
      then show ?thesis
        using Suc.prems(5) append_refused_accounts [OF Suc.prems(1)] ap Inl by simp
    next
      case (Inr c)
      have "n + 1 \<le> max_i64" "q_inflight q \<noteq> []" using Suc.prems(4) False by simp_all
      from expire_round_accounts [OF Suc.prems(1-3) this k_def ap [unfolded Inr], of now T] obtain q2 d where
        q2: "applyAttempt k now q1 = Inr (q2, d)"
        "accounts T q [(c, TypeLeaseExpire, bytes_of k)] q2" "a_below (n + 1) (absq q2)" by auto
      define q3 where "q3 = bump_dead d (bump (\<lambda>c. c\<lparr>n_Expired := n_Expired c + 1\<rparr>) q2)"
      note N = expire_next [OF False k_def ap [unfolded Inr] q2(1) q3_def]
      have "accounts T q3 (expire_records fuel now q3) q'"
        by (rule Suc.IH [where n = "n + 1" and b = "if c > b then c else b"])
          (use q2 Suc.prems(3-5) N(1) in \<open>simp_all add: accounts_def q3_def\<close>)
      moreover have "accounts T q [(c, TypeLeaseExpire, bytes_of k)] q3" using q2(2) by (simp add: q3_def)
      ultimately show ?thesis using accounts_trans [of T q] unfolding N(2) by fastforce
    qed
  qed
qed

lemma inflight_le: "queue_inv q \<Longrightarrow> length (q_inflight q) \<le> length (q_byID q)"
proof -
  assume inv: "queue_inv q"
  have "set (q_inflight q) \<subseteq> snd ` set (q_byID q)"
    using inv_holder [OF inv, of _ stateInFlight] by auto
  then have "card (set (q_inflight q)) \<le> card (snd ` set (q_byID q))" by (intro card_mono) simp_all
  also have "\<dots> \<le> length (q_byID q)"
    by (metis card_image_le card_length finite_set le_trans)
  finally show ?thesis using inv_distinct [OF inv, of stateInFlight] by (simp add: distinct_card)
qed

lemma tick_accounts:
  assumes inv: "queue_inv q" and below: "a_below n (absq q)" "2 ^ 32 \<le> n"
    and room: "n + int (length (q_byID q)) \<le> max_i64"
    and ok: "tick now q = Some (q', b, c, nx)" and now: "now \<le> T"
  shows "accounts T q (tick_records now q) q'"
proof (cases "q_failed q \<noteq> None \<or> q_closed q")
  case True
  then show ?thesis using ok inv by (auto simp: tick_def tick_records_def accounts_quiet)
next
  case False
  let ?q = "promoteDue now q"
  have P: "accounts T q [] ?q" by (rule promoteDue_quiet [OF inv])
  then have invp: "queue_inv ?q" by (simp add: accounts_def)
  have "q_byID ?q = q_byID q"
    using promoteDue_spec [OF inv, of now] only_heaps_fields(6) by fastforce
  then have "n + int (length (q_inflight ?q)) \<le> max_i64" using inflight_le [OF invp] room by simp
  note E = expire_accounts [OF invp _ below(2) this]
  obtain q1 b1 where ex: "expire_loop (length (q_inflight ?q)) now 0 ?q = Some (q1, b1)"
    and q': "q' = purge_dedup now (agePriorities now q1)"
    using ok False by (auto simp: tick_def Let_def split: option.splits)
  have "accounts T ?q (tick_records now q) q1"
    using E [OF _ ex] below(1) promoteDue_absq [OF inv] False by (simp add: tick_records_def Let_def)
  from accounts_trans [OF P this] have A: "accounts T q (tick_records now q) q1" by simp
  then have "accounts T q1 [] (agePriorities now q1)" by (intro agePriorities_quiet) (simp add: accounts_def)
  from accounts_trans [OF A this] have B: "accounts T q (tick_records now q) (agePriorities now q1)" by simp
  then have "accounts T (agePriorities now q1) [] q'"
    unfolding q' by (intro purge_accounts now) (simp add: accounts_def)
  from accounts_trans [OF B this] show ?thesis by simp
qed

section \<open>Every step\<close>

text \<open>A record adds at most one message.\<close>

lemma a_apply_card:
  assumes "a_apply e a = Inr a'" and "finite (dom (a_msgs a))"
  shows "finite (dom (a_msgs a')) \<and> card (dom (a_msgs a')) \<le> card (dom (a_msgs a)) + 1"
proof -
  have "\<exists>k. dom (a_msgs a') \<subseteq> insert k (dom (a_msgs a))"
    using assms(1)
    by (auto simp: a_apply_def a_meta_def a_enqueue_def a_ack_def a_attempt_def bindE_eq_Inr Let_def
        split: if_splits option.splits)
  then obtain k where k: "dom (a_msgs a') \<subseteq> insert k (dom (a_msgs a))" by blast
  then have "finite (dom (a_msgs a'))" using assms(2) by (meson finite_insert finite_subset)
  moreover have "card (dom (a_msgs a')) \<le> card (insert k (dom (a_msgs a)))"
    using k assms(2) by (intro card_mono) simp_all
  moreover have "card (insert k (dom (a_msgs a))) \<le> card (dom (a_msgs a)) + 1"
    using assms(2) by (simp add: card_insert_if)
  ultimately show ?thesis by linarith
qed

lemma a_run_card:
  "a_run es a = Inr a' \<Longrightarrow> finite (dom (a_msgs a)) \<Longrightarrow>
   finite (dom (a_msgs a')) \<and> card (dom (a_msgs a')) \<le> card (dom (a_msgs a)) + length es"
proof (induction es arbitrary: a)
  case (Cons e es)
  then obtain a1 where "a_apply e a = Inr a1" "a_run es a1 = Inr a'" by (auto simp: bindE_eq_Inr)
  then show ?case using a_apply_card [of e a a1] Cons.IH [of a1] Cons.prems(2) by fastforce
qed simp

lemma byID_le:
  assumes inv: "queue_inv q" and sim: "a_sim T (absq q) a" and run: "a_run es a_init = Inr a"
  shows "length (q_byID q) \<le> length es"
proof -
  have "dom (a_msgs (absq q)) = fst ` set (q_byID q)"
    by (auto simp: absq_def dom_map_option dom_map_of_conv_image_fst map_option_case dom_def
        map_of_eq_None_iff split: option.splits)
  then have "card (dom (a_msgs (absq q))) = length (q_byID q)"
    using inv by (metis card_image distinct_card length_map list.set_map queue_inv_def ids_ok_def)
  moreover have "card (dom (a_msgs a)) \<le> length es"
    using a_run_card [OF run] by (simp add: a_init_def)
  ultimately show ?thesis using sim by (simp add: a_rel_def)
qed

text \<open>A step either accounts for itself, or only moves the log.\<close>

definition log_move :: "wlog \<Rightarrow> wlog \<Rightarrow> bool" where
  "log_move l l' \<longleftrightarrow> flusher_step l l' \<or> (\<exists>r. Close_begin l = (l', r)) \<or> (\<exists>r. Sync l = (l', r)) \<or> reopen_failed l l'"

lemma log_move_reach: "log_move l l' \<Longrightarrow> log_reach base n es l \<Longrightarrow> \<exists>m \<le> Suc n. log_reach base m es l'"
  unfolding log_move_def reopen_failed_def
  using log_reach.flusher log_reach.closed log_reach.synced log_reach.lost by (metis le_SucI order_refl)

lemma Compact_refused_move:
  assumes "Compact now ids keys env q dir = ((q', dir'), r)" and "r \<noteq> Some None"
  shows "\<exists>l f. q' = q\<lparr>q_log := l, q_failed := f\<rparr> \<and> log_move (q_log q) l"
proof -
  have same: "\<exists>l f. q = q\<lparr>q_log := l, q_failed := f\<rparr> \<and> log_move (q_log q) l"
    by (rule exI [of _ "q_log q"], rule exI [of _ "q_failed q"]) (simp add: log_move_def reopen_failed_def)
  from assms(1) show ?thesis
  proof (cases rule: Compact_outcome)
    case (waiting l)
    then have "q' = q\<lparr>q_log := l, q_failed := q_failed q\<rparr>" by simp
    then show ?thesis using waiting(2) unfolding log_move_def by blast
  next
    case (broken e)
    then have "q' = q\<lparr>q_log := q_log q, q_failed := Some e\<rparr>" by simp
    then show ?thesis unfolding log_move_def reopen_failed_def by blast
  next
    case ended
    then show ?thesis
      using same assms(2) unfolding abandoned_def swapped_def log_move_def by blast
  qed (use same in simp)
qed

lemma op_step_accounts:
  assumes step: "op_step T q new q'" and inv: "queue_inv q" and below: "a_below n (absq q)" "2 ^ 32 \<le> n"
    and room: "n + int (length (q_byID q)) \<le> max_i64"
  shows "accounts T q new q' \<or> new = [] \<and> (\<exists>l f. q' = q\<lparr>q_log := l, q_failed := f\<rparr> \<and>
    log_move (q_log q) l)"
proof -
  have b: "a_below max_i64 (absq q)" by (rule a_below_mono [OF below(1)]) (use room in simp)
  have log: "\<exists>l' f. q\<lparr>q_log := l\<rparr> = q\<lparr>q_log := l', q_failed := f\<rparr> \<and> log_move (q_log q) l'"
    if "log_move (q_log q) l" for l
    by (rule exI [of _ l], rule exI [of _ "q_failed q"]) (use that in simp)
  from step show ?thesis
  proof cases
    case (compact_refused now ids keys env dir dir' r)
    then show ?thesis using Compact_refused_move by blast
  next
    case (flushed l)
    then show ?thesis using log by (simp add: log_move_def)
  next
    case (log_closing r)
    then show ?thesis using log by (auto simp: Close_log_def log_move_def split: prod.splits)
  next
    case (waited b r)
    then have "accounts T q [] q'"
      using inv by (intro accounts_quiet) (auto simp: waitDurable_def split: option.splits)
    then show ?thesis using waited by simp
  next
    case (started t1 t2 b)
    then have "accounts T q [] q'"
      using inv by (intro accounts_quiet) (auto simp: Create_wait_def split: option.splits)
    then show ?thesis using started by simp
  qed (use inv b in \<open>auto intro: Enqueue_accounts [OF inv] Dequeue_quiet [OF inv] Ack_accounts [OF inv b]
        Nack_accounts [OF inv b] tick_accounts [OF inv below room] accounts_quiet
        simp: SetCompactThreshold_def Close_queue_def\<close>)
qed

end
