(* ===== verification/Queue_Life.thy ===== *)
theory Queue_Life
  imports Queue_Steps
begin

text \<open>
  The life of a queue: it is created or loaded, takes steps in any order, and its log is compacted
  from time to time. At every moment the records of the log account for the state of the queue, and
  they are tidy, so that a snapshot can be taken; from this follow crash recovery and the durability
  of acknowledged operations.
\<close>

section \<open>Lives\<close>

text \<open>Fewer records than would make an attempt counter overflow, about \<open>2 ^ 62\<close>.\<close>

definition few_records :: "nat \<Rightarrow> bool" where
  "few_records n \<longleftrightarrow> 2 ^ 32 + 1 + 2 * int n \<le> max_i64"

text \<open>
  A life of a queue. It starts with a log that holds the records \<open>bes\<close> and whose state they account
  for, as \<open>Load\<close> leaves it, or with the META record \<open>Create\<close> appends to an empty log; \<open>es\<close> are the
  records accepted since the log was opened, after \<open>n\<close> steps. A compaction that succeeds replaces the
  records by those of the snapshot.
\<close>

inductive life :: "gotime \<Rightarrow> entry list \<Rightarrow> nat \<Rightarrow> (u64 \<times> entry) list \<Rightarrow> queue \<Rightarrow> bool" for T :: gotime where
  born: "queue_inv q \<Longrightarrow> q_log q = fresh_log path (encode_all bes) (length (encode_all bes)) \<Longrightarrow>
    headed bes \<Longrightarrow> list_all wf_entry bes \<Longrightarrow> tidy_run T bes a_init \<Longrightarrow> a_run bes a_init = Inr (absq q) \<Longrightarrow>
    life T bes 0 [] q"
| created: "Create_begin root cfg stat_ok f env = Inr (q, b) \<Longrightarrow> config_ranges cfg \<Longrightarrow> c_NextSeq cfg = 0 \<Longrightarrow>
    life T [] 0 [(b, TypeMeta, encodeConfig (q_cfg q))] q"
| lives: "life T bes n es q \<Longrightarrow> op_step T q new q' \<Longrightarrow> life T bes (Suc n) (es @ new) q'"
| compacted: "life T bes n es q \<Longrightarrow> Compact now ids keys env q dir = ((q', dir'), Some None) \<Longrightarrow> now \<le> T \<Longrightarrow>
    queue_fits q \<Longrightarrow> ranges ids (q_byID q) \<Longrightarrow> ranges keys (q_dedup q) \<Longrightarrow>
    few_records (length bes + length es) \<Longrightarrow> life T (snapshot now ids keys q) (Suc n) [] q'"

section \<open>The records of a step are tidy\<close>

lemma quiet_tidy: "list_all (\<lambda>e. fst e \<noteq> TypeEnqueue \<and> fst e \<noteq> TypeDedup) es \<Longrightarrow> tidy_run T es a"
  by (induction es arbitrary: a) (auto simp: tidy_def split: sum.splits)

lemma expire_records_types: "list_all (\<lambda>x. fst (snd x) = TypeLeaseExpire) (expire_records fuel now q)"
proof (induction fuel arbitrary: q)
  case 0
  then show ?case by (simp add: expire_records.simps [of 0])
next
  case (Suc fuel)
  show ?case
    by (subst expire_records.simps)
      (use Suc in \<open>auto simp: Let_def split: prod.splits sum.splits\<close>)
qed

lemma Enqueue_tidy:
  assumes ok: "a_ok T (absq q)" and enq: "Enqueue now rnd pl pr d k q = (q', Inr (res, Some b))"
    and st: "storable (new_message now rnd pl pr d k q)" and now: "now \<le> T"
    and seq: "q_nextSeq q + 1 \<noteq> 0" and new: "list_all (\<lambda>(k, e). e_MessageID e \<noteq> newID rnd) (q_dedup q)"
  shows "tidy_run T [(TypeEnqueue, encodeMessage (new_message now rnd pl pr d k q))] (absq q)"
proof -
  let ?m = "new_message now rnd pl pr d k q"
  have hit: "dedup_hit now k q = None" using enq by (auto simp: Enqueue_def split: option.splits)
  have m: "m_Seq ?m = a_nextSeq (absq q)" "m_DedupID ?m = k" "m_ID ?m = newID rnd"
    by (simp_all add: new_message_def absq_def)
  have less: "m_Seq x < m_Seq ?m" if "x \<in> ran (a_msgs (absq q))" for x
    using ok that unfolding a_ok_def seqs_ok_def m(1) ran_def by blast
  have closed: "expires (a_cfg (absq q)) x \<le> T"
    if x: "x \<in> ran (a_msgs (absq q))" and kx: "m_DedupID x = k" and ne: "k \<noteq> ''''" for x
  proof -
    have "a_dedup (absq q) k = Some (dedup_of (a_cfg (absq q)) x) \<or> expires (a_cfg (absq q)) x \<le> T"
      using dedup_okD(2) [of T "absq q" x] ok x kx ne by (simp add: a_ok_def)
    then show ?thesis using hit ne now by (auto simp: dedup_hit_def absq_def expires_def split: if_splits)
  qed
  have ids: "e_MessageID e \<noteq> newID rnd" if "e \<in> ran (a_dedup (absq q))" for e
  proof -
    from that obtain j where "map_of (q_dedup q) j = Some e" by (auto simp: ran_def absq_def)
    then show ?thesis using new map_of_SomeD by (fastforce simp: list_all_iff)
  qed
  have "tidy_enqueue T (reloaded ?m) (absq q)"
    using less closed ids seq unfolding tidy_enqueue_def reloaded_same m(2,3)
    by (auto simp: m(1) dest: order.strict_implies_not_eq) (simp_all add: absq_def)
  then have "tidy T (TypeEnqueue, encodeMessage ?m) (absq q)"
    by (simp add: tidy_def rtype_defs decodeMessage_encodeMessage [OF st])
  then show ?thesis by (simp split: sum.splits)
qed

lemma op_step_tidy:
  assumes step: "op_step T q new q'" and ok: "a_ok T (absq q)"
  shows "tidy_run T (map snd new) (absq q)"
  using step
proof cases
  case (enqueued now rnd pl pr d k res b)
  then show ?thesis using Enqueue_tidy [OF ok enqueued(2,3,5-7)] by simp
next
  case (ticked now b c nx)
  have "list_all (\<lambda>x. fst (snd x) = TypeLeaseExpire) new"
    using expire_records_types by (simp add: ticked(1) tick_records_def Let_def)
  then show ?thesis by (intro quiet_tidy) (auto simp: list_all_iff rtype_defs)
qed (simp_all add: tidy_def rtype_defs split: sum.splits)

text \<open>A later bound on the clocks keeps all of it.\<close>

lemma tidy_mono: "tidy T e a \<Longrightarrow> T \<le> T' \<Longrightarrow> tidy T' e a"
  unfolding tidy_def tidy_enqueue_def tidy_dedup_def by (meson order.strict_trans1 order_trans)

lemma tidy_run_mono: "tidy_run T es a \<Longrightarrow> T \<le> T' \<Longrightarrow> tidy_run T' es a"
  by (induction es arbitrary: a) (auto dest: tidy_mono split: sum.splits)

lemma op_step_mono: "op_step T q new q' \<Longrightarrow> T \<le> T' \<Longrightarrow> op_step T' q new q'"
  by (induction rule: op_step.induct) (auto intro: op_step.intros)

lemma life_mono: "life T bes n es q \<Longrightarrow> T \<le> T' \<Longrightarrow> life T' bes n es q"
proof (induction rule: life.induct)
  case (compacted bes n es q now ids keys env dir q' dir')
  then show ?case by (intro life.compacted [of T' bes n es q]) simp_all
qed (auto intro: life.intros tidy_run_mono op_step_mono)

section \<open>The log accounts for the state, at every moment\<close>

definition accounted :: "gotime \<Rightarrow> entry list \<Rightarrow> nat \<Rightarrow> (u64 \<times> entry) list \<Rightarrow> queue \<Rightarrow> bool" where
  "accounted T bes n es q \<longleftrightarrow> queue_inv q \<and> a_ok T (absq q) \<and>
     (\<exists>m \<le> n. log_reach (encode_all bes) m es (q_log q)) \<and>
     headed (bes @ map snd es) \<and> list_all wf_entry (bes @ map snd es) \<and> tidy_run T (bes @ map snd es) a_init \<and>
     (\<exists>a. a_run (bes @ map snd es) a_init = Inr a \<and> a_sim T (absq q) a)"

lemma headed_append: "headed bes \<Longrightarrow> list_all (\<lambda>e. fst e \<noteq> TypeMeta) es \<Longrightarrow> headed (bes @ es)"
  by (cases bes) simp_all

text \<open>A step accounts for itself, or it moves the log and takes no record.\<close>

lemma accounted_cases:
  assumes acc: "accounted T bes n es q" and step: "op_step T q new q'"
    and room: "few_records (length bes + length es)"
  obtains (op) "accounts T q new q'"
    | (log) l f where "new = []" "q' = q\<lparr>q_log := l, q_failed := f\<rparr>" "log_move (q_log q) l"
proof -
  let ?all = "bes @ map snd es"
  from acc obtain a where inv: "queue_inv q"
    and run: "a_run ?all a_init = Inr a" and sim: "a_sim T (absq q) a" by (auto simp: accounted_def)
  have "a_below (2 ^ 32) a_init" by (simp add: a_below_def a_init_def)
  from a_run_below [OF this run] room have "a_below (2 ^ 32 + int (length ?all)) a" by (simp add: few_records_def)
  then have below: "a_below (2 ^ 32 + int (length ?all)) (absq q)" using sim by (simp add: a_below_def a_rel_def)
  have "2 ^ 32 + int (length ?all) + int (length (q_byID q)) \<le> max_i64"
    using byID_le [OF inv sim run] room by (simp add: few_records_def)
  from op_step_accounts [OF step inv below _ this] show thesis using op log by auto
qed

lemma accounted_step:
  assumes acc: "accounted T bes n es q" and step: "op_step T q new q'"
    and room: "few_records (length bes + length es)"
  shows "accounted T bes (Suc n) (es @ new) q'"
proof -
  let ?all = "bes @ map snd es"
  from acc obtain m a where inv: "queue_inv q" and ok: "a_ok T (absq q)"
    and m: "m \<le> n" and reach: "log_reach (encode_all bes) m es (q_log q)"
    and hd: "headed ?all" and wf: "list_all wf_entry ?all" and tidy: "tidy_run T ?all a_init"
    and run: "a_run ?all a_init = Inr a" and sim: "a_sim T (absq q) a" by (auto simp: accounted_def)
  from acc step room show ?thesis
  proof (cases rule: accounted_cases)
    case op
    then obtain a' where new: "queue_inv q'" "appends (q_log q) new (q_log q')"
      "list_all (\<lambda>e. wf_entry e \<and> fst e \<noteq> TypeMeta) (map snd new)"
      "a_run (map snd new) (absq q) = Inr a'" "a_purged T (absq q') a'" by (auto simp: accounts_def)
    note t = op_step_tidy [OF step ok]
    have nm: "list_all (\<lambda>e. fst e \<noteq> TypeMeta) (map snd new)" using new(3) by (auto simp: list_all_iff)
    from sim.run_rel [OF sim new(4)] obtain c where c: "a_run (map snd new) a = Inr c" "a_sim T a' c" by blast
    have "a_run (bes @ map snd (es @ new)) a_init = Inr c"
      using run c(1) a_run_append [of ?all "map snd new"] by simp
    moreover have "a_sim T (absq q') c" using purged_sim [OF new(5)] c(2) by (rule sim.rel_trans)
    moreover have "log_reach (encode_all bes) m (es @ new) (q_log q')" by (rule appends_reach [OF new(2) reach])
    moreover have "headed (bes @ map snd (es @ new))" using headed_append [OF hd nm] by simp
    moreover have "tidy_run T (bes @ map snd (es @ new)) a_init"
      using tidy_run_append [OF run, of T "map snd new"] tidy tidy_run_sim [OF sim t new(4)] by simp
    moreover have "a_ok T (absq q')" using purged_ok [OF new(5) tail_ok [OF new(4) t nm ok]] .
    ultimately show ?thesis
      using new(1,3) wf m by (auto simp: accounted_def list_all_iff intro!: exI [of _ m])
  next
    case (log l f)
    from log_move_reach [OF log(3) reach] m
    have "\<exists>m' \<le> Suc n. log_reach (encode_all bes) m' es l" by (meson Suc_le_mono order_trans)
    then show ?thesis using inv ok hd wf tidy run sim log by (simp add: accounted_def)
  qed
qed

text \<open>After a compaction the snapshot accounts for the state.\<close>

lemma Compact_success:
  assumes "Compact now ids keys env q dir = ((q', dir'), Some None)"
  shows "swapped (encode_all (snapshot now ids keys q)) q dir q' dir' (Some None)"
  using assms by (cases rule: Compact_outcome) (auto simp: abandoned_def)

lemma swapped_frame:
  assumes "swapped b q dir q' dir' r" and "queue_inv q"
  shows "queue_inv q'" and "absq q' = absq q"
proof -
  from assms(1) obtain l f c n where "q' = q\<lparr>q_log := l, q_failed := f\<rparr> \<or>
      q' = q\<lparr>q_log := l, q_compactFloor := c, q_counters := n\<rparr>" unfolding swapped_def by blast
  then show "queue_inv q'" "absq q' = absq q" using assms(2) by (auto simp: absq_def)
qed

lemma accounted_compact:
  assumes acc: "accounted T bes n es q" and run: "Compact now ids keys env q dir = ((q', dir'), Some None)"
    and now: "now \<le> T" and fits: "queue_fits q" and rng: "ranges ids (q_byID q)" "ranges keys (q_dedup q)"
  shows "accounted T (snapshot now ids keys q) (Suc n) [] q'"
proof -
  from acc obtain m where inv: "queue_inv q" and ok: "a_ok T (absq q)" and m: "m \<le> n"
    and reach: "log_reach (encode_all bes) m es (q_log q)" by (auto simp: accounted_def)
  let ?b = "encode_all (snapshot now ids keys q)"
  have sw: "swapped ?b q dir q' dir' (Some None)" by (rule Compact_success [OF run])
  then obtain l where "Reopen (i64 (int (length ?b))) None (Inr ?b) (q_log q) = (l, Some None)" "q_log q' = l"
    by (auto simp: swapped_def)
  then have "log_reach ?b m [] (q_log q')" using log_reach.reopened [OF reach] by blast
  then show ?thesis
    using snapshot_replays [OF inv ok now fits rng] swapped_frame [OF sw inv] ok m
    by (auto simp: accounted_def intro: le_SucI)
qed

lemma life_accounted:
  assumes "life T bes n es q" and "few_records (length bes + length es)"
  shows "accounted T bes n es q"
  using assms
proof (induction rule: life.induct)
  case (born q path bes)
  then show ?case
    using log_reach.opened [of "encode_all bes" path] a_run_ok [OF born.hyps(3,5,6)] by (auto simp: accounted_def)
next
  case (created root cfg stat_ok f env q b)
  note C = Create_begin_spec [OF created.hyps(1-3)]
  show ?case using C meta_ok [OF C(4)] by (auto simp: accounted_def encode_all_def tidy_def rtype_defs)
next
  case (lives bes n es q new q')
  then show ?case by (intro accounted_step) (simp_all add: few_records_def)
next
  case (compacted bes n es q now ids keys env dir q' dir')
  then show ?case by (intro accounted_compact)
qed

end
