(* ===== verification/Queue_Recovery.thy ===== *)
theory Queue_Recovery
  imports Queue_Life
begin

text \<open>
  Crash recovery. A crash leaves of the log file some prefix of what was or is being written, with
  everything that was fsynced; \<open>Load\<close> of that file gives the queue of a prefix of the accepted
  records, and that prefix holds every record whose wait has returned nil.
\<close>

section \<open>What a crash can lose\<close>

lemma encode_all_prefix_len:
  "length (encode_all es) \<le> length (encode_all (es @ es'))"
  by (simp add: encode_all_append)

text \<open>
  The records a replay recovers are the longest run of whole records: nothing that lies entirely in
  the file is left out.
\<close>

lemma recovered_covers:
  assumes "es1 @ es2 = ds @ ws" and "length (encode_all ds) \<le> len"
    and "es2 \<noteq> [] \<longrightarrow> len < length (encode_all (es1 @ [hd es2]))"
  shows "length ds \<le> length es1"
proof (rule ccontr)
  assume "\<not> length ds \<le> length es1"
  then obtain r where r: "ds = es1 @ r" "r \<noteq> []" "es2 = r @ ws"
    using assms(1) by (auto simp: append_eq_append_conv2)
  then have "ds = (es1 @ [hd es2]) @ tl r" by simp
  with encode_all_prefix_len [of "es1 @ [hd es2]" "tl r"] assms(2,3) r show False by simp
qed

lemma Wait_split:
  assumes inv: "log_inv base n ds ws bs l" and w: "Wait (fst (es ! i)) l = Some None"
    and es: "es = ds @ ws @ bs" and i: "i < length es"
  shows "i < length ds"
proof (rule ccontr)
  assume "\<not> i < length ds"
  then have "es ! i \<in> set (ws @ bs)" using i es by (auto simp: nth_append)
  moreover have "es ! i \<notin> set (ws @ bs)"
    using Wait_not_pending [OF inv w, of "snd (es ! i)"] by simp
  ultimately show False by simp
qed

text \<open>
  The crash theorem, over one life of a queue: an image that holds the first \<open>j\<close> records brings back
  at least these.
\<close>

lemma recovery_upto:
  assumes life: "life T bes n es q" and steps: "n < 2 ^ 64 - 2"
    and room: "few_records (length bes + length es)"
    and img: "crash_image (q_log q) img" and env: "env_ok img env"
    and held: "length (encode_all (bes @ map snd (take j es))) \<le> length img" "j \<le> length es" "bes \<noteq> [] \<or> 0 < j"
  shows "\<exists>k q'. j \<le> k \<and> k \<le> length es \<and>
    Load root name (Opened img no_io) env clock t1 t2 = Inr q' \<and> queue_inv q' \<and>
    a_run (bes @ map snd (take k es)) a_init = Inr (absq q') \<and>
    (k = length es \<longrightarrow> a_sim T (absq q) (absq q')) \<and>
    life T (bes @ map snd (take k es)) 0 [] q'"
proof -
  let ?all = "bes @ map snd es" and ?held = "bes @ map snd (take j es)"
  have "accounted T bes n es q" by (rule life_accounted [OF life room])
  then obtain m a where m: "m \<le> n" and reach: "log_reach (encode_all bes) m es (q_log q)"
    and hd: "headed ?all" and wf: "list_all wf_entry ?all" and tidy: "tidy_run T ?all a_init"
    and run: "a_run ?all a_init = Inr a" and sim: "a_sim T (absq q) a" by (auto simp: accounted_def)
  from log_reach_inv [OF reach] m steps obtain ds ws bs where
    es: "es = ds @ ws @ bs" and inv: "log_inv (encode_all bes) m ds ws bs (q_log q)" by auto
  have pre: "prefix img (encode_all ?all)"
    using crash_image_bounds(2) [OF inv img] by (auto simp: es encode_all_append intro: prefix_order.trans)
  have all: "?all = ?held @ map snd (drop j es)" by (simp flip: map_append)
  have "?held \<noteq> []" using held(2,3) by auto
  then obtain e r where er: "?held = e # r" by (cases ?held) auto
  then have "List.hd ?all = e" unfolding all by simp
  moreover have "EncodedLen (snd e) \<le> length img" using held(1) unfolding er by (simp add: encode_all_Cons)
  ultimately have meta: "EncodedLen (snd (List.hd ?all)) \<le> length img" by simp
  have len: "2 ^ 32 + 1 + int (length ?all) \<le> max_i64" using room by (simp add: few_records_def)
  from Load_prefix [OF wf hd run len pre meta env] obtain es1 es2 q' where
    split: "?all = es1 @ es2" and ne: "es1 \<noteq> []"
    and cut: "es2 \<noteq> [] \<longrightarrow> length img < length (encode_all (es1 @ [List.hd es2]))"
    and q': "Load root name (Opened img no_io) env clock t1 t2 = Inr q'" "queue_inv q'"
      "a_run es1 a_init = Inr (absq q')"
      "q_log q' = fresh_log (path_join (path_join root name) logFileName) (encode_all es1) (length (encode_all es1))"
    by blast
  have "length ?held \<le> length es1"
    by (rule recovered_covers [OF _ held(1) cut, where ws = "map snd (drop j es)"]) (use split all in simp)
  moreover define k where "k = length es1 - length bes"
  ultimately have k: "j \<le> k" "length es1 = length bes + k" using held(2) by simp_all
  have kle: "k \<le> length es" using split k(2) by (metis add_le_cancel_left length_append length_map le_add1)
  have es1: "es1 = bes @ map snd (take k es)"
    using arg_cong [OF split, where f = "take (length es1)"] k(2) by (simp add: take_map)
  have "headed es1" using hd split ne by (cases es1; cases bes; cases es) auto
  moreover have "list_all wf_entry es1" using wf split by (metis list_all_append)
  moreover have "tidy_run T es1 a_init" using tidy split tidy_run_prefix by metis
  ultimately have "life T es1 0 [] q'" using q' by (intro life.born) simp_all
  moreover have "k = length es \<longrightarrow> a_sim T (absq q) (absq q')" using q'(3) es1 run sim by auto
  ultimately show ?thesis using q' es1 kle k(1) by blast
qed

text \<open>What is on disk in whole: at least every record whose wait has returned nil.\<close>

lemma records_on_disk:
  assumes life: "life T bes n es q" and steps: "n < 2 ^ 64 - 2" and room: "few_records (length bes + length es)"
  shows "\<exists>j \<le> length es. (\<forall>i < length es. Wait (fst (es ! i)) (q_log q) = Some None \<longrightarrow> i < j) \<and>
    (\<forall>img. crash_image (q_log q) img \<longrightarrow> prefix (encode_all (bes @ map snd (take j es))) img)"
proof -
  from life_accounted [OF life room] obtain m where m: "m \<le> n" "log_reach (encode_all bes) m es (q_log q)"
    by (auto simp: accounted_def)
  from log_reach_inv [OF m(2)] m(1) steps obtain ds ws bs where
    es: "es = ds @ ws @ bs" and inv: "log_inv (encode_all bes) m ds ws bs (q_log q)" by auto
  have "\<forall>i < length es. Wait (fst (es ! i)) (q_log q) = Some None \<longrightarrow> i < length ds"
    using Wait_split [OF inv _ es] by blast
  moreover have "prefix (encode_all (bes @ map snd (take (length ds) es))) img" if "crash_image (q_log q) img" for img
    using crash_image_bounds(1) [OF inv that] by (simp add: es encode_all_append)
  ultimately show ?thesis by (intro exI [of _ "length ds"]) (simp add: es)
qed

lemma recovery:
  assumes life: "life T bes n es q" and steps: "n < 2 ^ 64 - 2"
    and room: "few_records (length bes + length es)"
    and img: "crash_image (q_log q) img" and env: "env_ok img env"
    and made: "bes \<noteq> [] \<or> (\<exists>i < length es. Wait (fst (es ! i)) (q_log q) = Some None)"
  shows "\<exists>k q'. k \<le> length es \<and>
    Load root name (Opened img no_io) env clock t1 t2 = Inr q' \<and> queue_inv q' \<and>
    a_run (bes @ map snd (take k es)) a_init = Inr (absq q') \<and>
    (\<forall>i < length es. Wait (fst (es ! i)) (q_log q) = Some None \<longrightarrow> i < k) \<and>
    (k = length es \<longrightarrow> a_sim T (absq q) (absq q')) \<and>
    life T (bes @ map snd (take k es)) 0 [] q'"
proof -
  from records_on_disk [OF life steps room] obtain j where j: "j \<le> length es"
    and waited: "\<forall>i < length es. Wait (fst (es ! i)) (q_log q) = Some None \<longrightarrow> i < j"
    and disk: "\<forall>img. crash_image (q_log q) img \<longrightarrow> prefix (encode_all (bes @ map snd (take j es))) img" by blast
  have len: "length (encode_all (bes @ map snd (take j es))) \<le> length img" using disk img by (auto dest: prefix_length_le)
  have "bes \<noteq> [] \<or> 0 < j" using made waited by fastforce
  from recovery_upto [OF life steps room img env len j this, of root name clock t1 t2] waited show ?thesis
    by (meson order.strict_trans2)
qed

section \<open>Compaction\<close>

lemma snapshot_loads:
  assumes inv: "queue_inv q" and ok: "a_ok T (absq q)" and now: "now \<le> T" and fits: "queue_fits q"
    and rng: "ranges ids (q_byID q)" "ranges keys (q_dedup q)"
    and len: "few_records (length (snapshot now ids keys q))" and env: "env_ok (encode_all (snapshot now ids keys q)) env"
  shows "\<exists>q'. Load root name (Opened (encode_all (snapshot now ids keys q)) no_io) env clock t1 t2 = Inr q' \<and>
    queue_inv q' \<and> a_sim T (absq q) (absq q') \<and> life T (snapshot now ids keys q) 0 [] q'"
proof -
  let ?es = "snapshot now ids keys q"
  note S = snapshot_replays [OF inv ok now fits rng]
  from S(1) obtain b where run: "a_run ?es a_init = Inr b" and sim: "a_sim T (absq q) b" by blast
  have len': "2 ^ 32 + 1 + int (length ?es) \<le> max_i64" using len by (simp add: few_records_def)
  have "EncodedLen (snd (hd ?es)) \<le> length (encode_all ?es)" by (cases ?es) (use S(3) in \<open>simp_all add: encode_all_Cons\<close>)
  from Load_prefix [OF S(4,3) run len' prefix_order.refl this env] obtain es1 es2 q' where
    split: "?es = es1 @ es2" and cut: "es2 \<noteq> [] \<longrightarrow> length (encode_all ?es) < length (encode_all (es1 @ [hd es2]))"
    and q': "Load root name (Opened (encode_all ?es) no_io) env clock t1 t2 = Inr q'" "queue_inv q'"
      "a_run es1 a_init = Inr (absq q')"
      "q_log q' = fresh_log (path_join (path_join root name) logFileName) (encode_all es1) (length (encode_all es1))"
    by blast
  have "es2 = []"
  proof (rule ccontr)
    assume ne: "es2 \<noteq> []"
    then have "?es = (es1 @ [hd es2]) @ tl es2" using split by simp
    then show False using cut ne encode_all_prefix_len [of "es1 @ [hd es2]" "tl es2"] by simp
  qed
  then have "es1 = ?es" using split by simp
  then show ?thesis using q' run sim S life.born [OF q'(2), of _ ?es T] by auto
qed

lemma abandoned_all:
  "abandoned q dir q' dir' r \<Longrightarrow> absq q' = absq q \<and> dir' (q_path q) = dir (q_path q) \<and> q' = q \<and>
   (\<forall>x. x \<noteq> q_path q \<and> x \<noteq> compact_tmp q \<longrightarrow> dir' x = dir x) \<and> (\<exists>e. r = Some (Some e))"
  using compact_tmp_other [of q, symmetric] by (auto simp: abandoned_def)

lemma Reopen_file:
  "Reopen sz c (Inr b) l = (l', Some None) \<Longrightarrow> l_file l' = b \<and> l_synced l' = length b"
  by (auto simp: Reopen_def split: prod.splits option.splits if_splits)

lemma swapped_all:
  "swapped b q dir q' dir' r \<Longrightarrow> absq q' = absq q \<and> dir' (q_path q) = Some b \<and>
   (\<forall>x. x \<noteq> q_path q \<and> x \<noteq> compact_tmp q \<longrightarrow> dir' x = dir x) \<and>
   (r = Some None \<and> l_file (q_log q') = b \<and> l_synced (q_log q') = length b \<and>
      n_Compactions (q_counters q') = n_Compactions (q_counters q) + 1 \<or>
    (\<exists>f. r = Some (Some f) \<and> q_failed q' = Some f))"
  by (auto simp: swapped_def absq_def dest!: Reopen_file)

end
