(* ===== verification/Wal_Props.thy ===== *)
theory Wal_Props
  imports Wal_Log Codec
begin

text \<open>
  The properties of the write-ahead log: framing, replay, corruption detection, group commit and
  the record payloads. Each theorem is stated over the model of \<open>internal/wal\<close> and
  \<open>internal/queue/codec.go\<close> and is followed by an instance at a concrete input.
\<close>

section \<open>Framing and replay\<close>

text \<open>The callback of the instances below: it collects the records it is given.\<close>

definition collect :: "wal_record list \<Rightarrow> wal_record \<Rightarrow> go_error + wal_record list" where
  "collect rs r = Inr (rs @ [r])"

definition sample_log :: "entry list" where
  "sample_log = [(TypeMeta, [123, 125]), (TypeAck, [97]), (TypeNack, [])]"

lemma sample_log_wf: "list_all wf_entry sample_log"
  by (simp add: sample_log_def wf_entry_def MaxRecordSize_def)

lemma collect_feeds: "\<exists>s'. feed collect n es s = Inr s'"
proof (induction es arbitrary: n s)
  case (Cons e es)
  then show ?case by (cases e) (simp add: collect_def)
qed simp

text \<open>C15: a log file cut at any byte, which is what an interrupted write leaves, replays without an
  error: the records before the cut are handed to the callback, the valid length is the end of the
  last whole record, and no whole record is dropped.\<close>

theorem replay_cut_anywhere:
  assumes "list_all wf_entry es" and "n \<le> length (encode_all es)"
    and "\<And>es1. prefix es1 es \<Longrightarrow> \<exists>s'. feed fn 0 es1 s = Inr s'"
  shows "\<exists>es1 es2 s' res. es = es1 @ es2 \<and> feed fn 0 es1 s = Inr s' \<and>
    Replay path (Opened (take n (encode_all es)) no_io) fn s = (res, s', None) \<and>
    v_ValidBytes res = length (encode_all es1) \<and> v_Records res = length es1 \<and>
    length (encode_all es1) \<le> n \<and> (es2 \<noteq> [] \<longrightarrow> n < length (encode_all (es1 @ [hd es2])))"
  using replay_prefix [OF assms(1) take_is_prefix [of n] assms(3), of path] assms(2)
  by (simp add: min_absorb2)

theorem replay_cut_anywhere_witness:
  "\<exists>es1 es2 s' res. sample_log = es1 @ es2 \<and> feed collect 0 es1 [] = Inr s' \<and>
    Replay ''wal.log'' (Opened (take 20 (encode_all sample_log)) no_io) collect [] = (res, s', None) \<and>
    v_ValidBytes res = length (encode_all es1) \<and> v_Records res = length es1 \<and> length (encode_all es1) \<le> 20"
proof -
  have "20 \<le> length (encode_all sample_log)"
    by (simp add: sample_log_def encode_all_Cons EncodedLen_def HeaderSize_def)
  from replay_cut_anywhere [OF sample_log_wf this collect_feeds] show ?thesis by blast
qed

text \<open>C12: no single-byte change of a log file goes unnoticed: replay stops with a corruption error at
  the record the byte belongs to, after handing over exactly the records before it, and it never
  takes the damage for a torn tail.\<close>

theorem replay_detects_damage:
  assumes "list_all wf_entry es" and "i < length (encode_all es)" and "encode_all es ! i \<noteq> b"
    and "\<And>es1. prefix es1 es \<Longrightarrow> \<exists>s'. feed fn 0 es1 s = Inr s'"
  shows "\<exists>es1 t p es2 j s' reason. es = es1 @ (t, p) # es2 \<and> j < EncodedLen p \<and>
    i = length (encode_all es1) + j \<and> feed fn 0 es1 s = Inr s' \<and>
    Replay path (Opened ((encode_all es)[i := b]) no_io) fn s
      = (\<lparr>v_ValidBytes = 0, v_Records = length es1, v_Torn = None\<rparr>, s',
         Some (CorruptionError path (length (encode_all es1)) reason))"
proof -
  from encode_all_position [OF assms(2)] obtain es1 t p es2 j where
    es: "es = es1 @ (t, p) # es2" and j: "j < EncodedLen p" "i = length (encode_all es1) + j"
      "encode_all es ! i = Encode [] t p ! j" by blast
  obtain s' where s': "feed fn 0 es1 s = Inr s'" using assms(4) [of es1] es by auto
  from replay_damaged [OF assms(1) es s' j(1)] assms(3) j es s' show ?thesis by metis
qed

theorem replay_detects_damage_witness:
  "\<exists>es1 t p es2 j s' reason. sample_log = es1 @ (t, p) # es2 \<and> j < EncodedLen p \<and>
    4 = length (encode_all es1) + j \<and> feed collect 0 es1 [] = Inr s' \<and>
    Replay ''wal.log'' (Opened ((encode_all sample_log)[4 := 3]) no_io) collect []
      = (\<lparr>v_ValidBytes = 0, v_Records = length es1, v_Torn = None\<rparr>, s',
         Some (CorruptionError ''wal.log'' (length (encode_all es1)) reason))"
proof (rule replay_detects_damage [OF sample_log_wf _ _ collect_feeds])
  show "4 < length (encode_all sample_log)"
    by (simp add: sample_log_def encode_all_Cons EncodedLen_def HeaderSize_def)
  show "encode_all sample_log ! 4 \<noteq> 3"
    by (simp add: sample_log_def encode_all_Cons Encode_frame frame_header_def frame_fields_def nth_append rtype_defs)
qed

text \<open>C22: whatever bytes a log file holds, a replay that reports no error has fed the callback a
  sequence of well-formed records whose encoding is exactly the valid part of the file.\<close>

theorem replay_sound:
  assumes "Replay path (Opened data io) fn s = (res, s', None)"
  shows "\<exists>es. list_all wf_entry es \<and> feed fn 0 es s = Inr s' \<and> v_Records res = length es \<and>
    v_ValidBytes res \<le> length data \<and> take (v_ValidBytes res) data = encode_all es"
  using replay_loop_sound [of 0 data path io fn empty_result s res s'] assms
  by (simp add: Replay_def empty_result_def)

theorem replay_sound_witness:
  "\<exists>es. list_all wf_entry es \<and> feed collect 0 es [] = Inr ([] :: wal_record list) \<and> 0 = length es \<and>
    (0 :: nat) \<le> length [1, 2, 3 :: byte] \<and> take 0 [1, 2, 3 :: byte] = encode_all es"
  using replay_sound [of "''wal.log''" "[1, 2, 3]" no_io collect "[]"
      "\<lparr>v_ValidBytes = 0, v_Records = 0, v_Torn = Some \<lparr>t_Offset = 0, t_Bytes = 3\<rparr>\<rparr>" "[]"]
  by (simp add: Replay_def replay_loop.simps read_record_def HeaderSize_def empty_result_def)

section \<open>Group commit\<close>

text \<open>
  The log of the instances: one record appended to an empty log, the flusher at work on it, and the
  log after the batch is on disk.
\<close>

definition sample_appended :: wlog where
  "sample_appended = fst (Append TypeAck [97] (fresh_log ''wal.log'' [] 0))"

definition sample_writing :: wlog where
  "sample_writing = flush_begin False (sample_appended\<lparr>l_signal := False, l_flusher := Starting False\<rparr>)"

definition sample_flushed :: wlog where
  "sample_flushed = flush_end (Encode [] TypeAck [97]) 1 1 False Written 0 sample_writing"

lemmas sample_wlog_defs = sample_appended_def sample_writing_def sample_flushed_def fresh_log_def
  Append_def kick_def flush_begin_def flush_end_def writeSync_def

lemma Encode_not_Nil [simp]: "Encode dst t p \<noteq> []"
proof
  assume "Encode dst t p = []"
  then have "length (Encode dst t p) = 0" by simp
  then show False unfolding length_Encode by (simp add: EncodedLen_def HeaderSize_def)
qed

lemma sample_appended_reach: "log_reach [] 0 [(1, TypeAck, [97])] sample_appended"
  using log_reach.appended [OF log_reach.opened, of TypeAck "[97]" "''wal.log''" "[]" sample_appended 1]
  by (simp add: sample_wlog_defs)

lemma sample_writing_reach: "log_reach [] 2 [(1, TypeAck, [97])] sample_writing"
proof -
  have "flusher_step sample_appended (sample_appended\<lparr>l_signal := False, l_flusher := Starting False\<rparr>)"
    by (rule flusher_step.woken) (simp_all add: sample_wlog_defs)
  from log_reach.flusher [OF sample_appended_reach this]
  have "log_reach [] 1 [(1, TypeAck, [97])] (sample_appended\<lparr>l_signal := False, l_flusher := Starting False\<rparr>)"
    by simp
  from log_reach.flusher [OF this flusher_step.begun, of False] show ?thesis
    by (simp add: sample_writing_def numeral_2_eq_2)
qed

lemma sample_flushed_reach: "log_reach [] 3 [(1, TypeAck, [97])] sample_flushed"
proof -
  have "flusher_step sample_writing sample_flushed"
    unfolding sample_flushed_def by (rule flusher_step.written) (simp add: sample_wlog_defs)
  from log_reach.flusher [OF sample_writing_reach this] show ?thesis by (simp add: numeral_3_eq_3 numeral_2_eq_2)
qed

text \<open>C11: group commit is durable. Once \<open>Wait\<close> has returned nil for the batch of an accepted record,
  every file a crash may leave holds, whole and in order, all the records accepted up to that one,
  after the contents the log was opened with, and nothing but accepted records.\<close>

theorem wait_means_durable:
  assumes "log_reach base n es l" and "n < 2 ^ 64 - 2"
    and "Wait b l = Some None" and "(b, e) \<in> set es" and "crash_image l img"
  shows "\<exists>es1 es2. es = es1 @ es2 \<and> (b, e) \<in> set es1 \<and>
    prefix (base @ enc es1) img \<and> prefix img (base @ enc es)"
  by (rule waited_is_durable [OF assms])

theorem wait_means_durable_witness:
  "\<exists>es1 es2. [(1, TypeAck, [97])] = es1 @ es2 \<and> (1, TypeAck, [97]) \<in> set es1 \<and>
    prefix ([] @ enc es1) (Encode [] TypeAck [97]) \<and> prefix (Encode [] TypeAck [97]) ([] @ enc [(1, TypeAck, [97])])"
  by (rule wait_means_durable [OF sample_flushed_reach])
    (simp_all add: sample_wlog_defs Wait_def crash_image_def being_written_def)

text \<open>How far the flusher is from settling batch \<open>b\<close>.\<close>

definition flush_rank :: "u64 \<Rightarrow> wlog \<Rightarrow> nat" where
  "flush_rank b l = (case l_flusher l of Writing _ _ batch _ \<Rightarrow> if b \<le> batch then 1 else 4
     | Starting _ \<Rightarrow> 2 | Idle \<Rightarrow> 3 | Exited \<Rightarrow> 0)"

lemma flush_rank_step:
  assumes inv: "log_inv base n ds ws bs l" and e: "(b, e) \<in> set (ds @ ws @ bs)"
    and w: "Wait b l = None" and step: "flusher_step l l'"
  shows "Wait b l' \<noteq> None \<or> flush_rank b l' < flush_rank b l"
proof -
  have nf: "l_fatal l = None" "l_flushed l < b" using w by (auto simp: Wait_def split: if_splits)
  have nds: "(b, e) \<notin> set ds" using inv nf by (auto simp: log_inv_defs word_less_nat_alt)
  from step show ?thesis
  proof cases
    case (begun final)
    have "ws = []" using inv nf begun(2) enc_Nil [of ws] by (simp add: log_inv_defs disk_ok_def)
    then have bs: "(b, e) \<in> set bs" using e nds by simp
    have "\<forall>x \<in> set bs. fst x = l_nextSeq l" using inv by (simp add: log_inv_def batch_ids_def)
    then have "b = l_nextSeq l" using bs by force
    moreover have "l_buf l \<noteq> []" using inv bs enc_Nil [of bs] by (auto simp: log_inv_def)
    ultimately show ?thesis using begun nf by (simp add: flush_rank_def flush_begin_def)
  next
    case (written data r batch final out el)
    show ?thesis
    proof (cases "(b, e) \<in> set ws")
      case True
      have "\<forall>x \<in> set ws. unat (fst x) + 1 = unat (l_nextSeq l)" "unat (l_nextSeq l) = unat batch + 1"
        using inv written(2) by (simp_all add: log_inv_def batch_ids_def on_disk_def)
      then have "unat b = unat batch" using True by force
      then have "b = batch" by (simp add: word_unat_eq_iff)
      then show ?thesis using written by (auto simp: flush_end_def Wait_def Let_def split: prod.splits)
    next
      case False
      then have bs: "(b, e) \<in> set bs" using e nds by simp
      have "\<forall>x \<in> set bs. fst x = l_nextSeq l" "unat (l_nextSeq l) = unat batch + 1"
        using inv written(2) by (simp_all add: log_inv_def batch_ids_def on_disk_def)
      then have b: "unat b = unat batch + 1" using bs by force
      have ne: "l_buf l \<noteq> []" using inv bs enc_Nil [of bs] by (auto simp: log_inv_def)
      have "\<not> final" using inv ne nf(1) written(2) by (auto simp: log_inv_def no_lost_wakeup_def)
      then show ?thesis
        using written b by (cases out)
          (auto simp: flush_rank_def flush_end_def writeSync_def Wait_def word_le_nat_alt)
    qed
  qed (use nf in \<open>simp_all add: flush_rank_def\<close>)
qed

text \<open>C20: no wake-up is lost and nobody waits for ever. While a caller waits for an accepted record,
  the flusher goroutine can move, and every move it makes either lets the caller return or brings
  it closer, by a count that starts at 4 or less and that no other operation raises.\<close>

theorem waiter_makes_progress:
  assumes "log_reach base n es l" and "n < 2 ^ 64 - 2" and "(b, e) \<in> set es" and "Wait b l = None"
  shows "flush_rank b l \<le> 4 \<and> (\<exists>l'. flusher_step l l') \<and>
    (\<forall>l'. flusher_step l l' \<longrightarrow> Wait b l' \<noteq> None \<or> flush_rank b l' < flush_rank b l) \<and>
    (\<forall>t p. flush_rank b (fst (Append t p l)) = flush_rank b l) \<and>
    flush_rank b (fst (Sync l)) = flush_rank b l \<and> flush_rank b (fst (Close_begin l)) = flush_rank b l"
proof -
  from log_reach_inv [OF assms(1,2)] obtain ds ws bs where
    es: "es = ds @ ws @ bs" and inv: "log_inv base n ds ws bs l" by blast
  have "flush_rank b l \<le> 4" by (simp add: flush_rank_def split: flusher_pc.split)
  moreover have "\<exists>l'. flusher_step l l'" using blocked_flusher_moves [OF inv] assms(3,4) es by blast
  moreover have "l_flusher (fst (Append t p l)) = l_flusher l" for t p
    by (simp add: Append_def kick_def split: option.split)
  moreover have "l_flusher (fst (Sync l)) = l_flusher l" "l_flusher (fst (Close_begin l)) = l_flusher l"
    by (simp_all add: Sync_def Close_begin_def kick_def split: option.split)
  ultimately show ?thesis
    using flush_rank_step [OF inv _ assms(4)] assms(3) es by (simp add: flush_rank_def)
qed

theorem waiter_makes_progress_witness:
  "flush_rank 1 sample_appended \<le> 4 \<and> (\<exists>l'. flusher_step sample_appended l') \<and>
    flush_rank 1 (fst (Append TypeNack [] sample_appended)) = flush_rank 1 sample_appended"
  using waiter_makes_progress [OF sample_appended_reach, of 1 "(TypeAck, [97])"]
  by (simp add: sample_wlog_defs Wait_def)

text \<open>What may happen to a log, in any order, whatever is asked of it and whatever the system answers.\<close>

inductive log_step :: "wlog \<Rightarrow> wlog \<Rightarrow> bool" where
  append: "Append t p l = (l', r) \<Longrightarrow> log_step l l'"
| sync: "Sync l = (l', w) \<Longrightarrow> log_step l l'"
| reopen: "Reopen sz ce opn l = (l', w) \<Longrightarrow> log_step l l'"
| close: "Close_begin l = (l', w) \<Longrightarrow> log_step l l'"
| flush: "flusher_step l l' \<Longrightarrow> log_step l l'"

definition log_failed :: "go_error \<Rightarrow> u64 \<Rightarrow> byte list \<Rightarrow> wlog \<Rightarrow> bool" where
  "log_failed e batch contents l \<longleftrightarrow> l_fatal l = Some e \<and> l_fatalSeq l = batch \<and> l_flushed l = batch \<and>
     l_file l = contents \<and> \<not> is_writing (l_flusher l)"

lemma log_failed_step: "log_step l l' \<Longrightarrow> log_failed e b f l \<Longrightarrow> log_failed e b f l'"
  by (induction rule: log_step.induct)
    (auto simp: log_failed_def Append_def Sync_def Reopen_def Close_begin_def flush_begin_def elim!: flusher_step.cases
      split: if_splits)

lemma log_failed_steps: "log_step\<^sup>*\<^sup>* l l' \<Longrightarrow> log_failed e b f l \<Longrightarrow> log_failed e b f l'"
  by (induction rule: rtranclp_induct) (auto intro: log_failed_step)

text \<open>C37: the first failed write or fsync is final. Whatever is asked of the log after it, and however
  the flusher moves: the file stays as the failed write left it; appends, syncs and reopens return the
  error of that write without touching the log; waiters of the failed batch and of any later one get it,
  those of the batches before it, which are on disk, get nil; \<open>Close\<close>, whose drain writes nothing,
  returns it once the flusher is gone.\<close>

theorem log_failure_is_final:
  assumes "l_flusher l = Writing data records batch final"
    and "(\<exists>k. out = WriteErr k err \<and> e = Wrapped ''wal: write'' err) \<or>
      (out = SyncErr err \<and> e = Wrapped ''wal: fsync'' err)"
    and "l1 = flush_end data records batch final out elapsed l" and "log_step\<^sup>*\<^sup>* l1 l2"
  shows "l_file l2 = l_file l1 \<and> \<not> is_writing (l_flusher l2) \<and>
    Append t p l2 = (l2, Inl e) \<and> Sync l2 = (l2, Some (Some e)) \<and> Reopen sz ce opn l2 = (l2, Some (Some e)) \<and>
    Wait c l2 = Some (if c < batch then None else Some e) \<and>
    Close_end ce l2 = (if l_flusher l2 = Exited then Some (Some e) else None)"
proof -
  have "log_failed e batch (l_file l1) l1"
    using assms(2,3) by (auto simp: log_failed_def flush_end_def writeSync_def)
  from log_failed_steps [OF assms(4) this] show ?thesis
    by (auto simp: log_failed_def Append_def Sync_def Reopen_def Wait_def Close_end_def not_less)
qed

text \<open>The fsync of the sample's batch fails, an append is refused, and the log is closed.\<close>

theorem log_failure_is_final_witness:
  "\<exists>l2. l_closed l2 \<and> Append TypeAck [97] l2 = (l2, Inl (Wrapped ''wal: fsync'' ErrJSON)) \<and>
     Wait 0 l2 = Some None \<and> Wait 1 l2 = Some (Some (Wrapped ''wal: fsync'' ErrJSON))"
proof -
  let ?l = sample_writing
  obtain data r where w: "l_flusher ?l = Writing data r 1 False" by (simp add: sample_wlog_defs)
  let ?l1 = "flush_end data r 1 False (SyncErr ErrJSON) 0 ?l"
  let ?l2 = "fst (Append TypeNack [] ?l1)" and ?l3 = "fst (Close_begin (fst (Append TypeNack [] ?l1)))"
  have "log_step ?l1 ?l2" "log_step ?l2 ?l3"
    by (rule log_step.append [OF prod.collapse [symmetric]]) (rule log_step.close [OF prod.collapse [symmetric]])
  then have run: "log_step\<^sup>*\<^sup>* ?l1 ?l3" by (rule converse_rtranclp_into_rtranclp [OF _ r_into_rtranclp])
  have "l_closed ?l3" by (simp add: Close_begin_def)
  then show ?thesis
    using log_failure_is_final [OF w disjI2 refl run, of ErrJSON _ TypeAck "[97]" 0 None "Inl ErrJSON" 0]
      log_failure_is_final [OF w disjI2 refl run, of ErrJSON _ TypeAck "[97]" 0 None "Inl ErrJSON" 1] by auto
qed

section \<open>Record payloads\<close>

definition sample_message :: message where
  "sample_message = \<lparr>m_ID = ''0a1b'', m_DedupID = ''job'', m_Seq = 7, m_Priority = -3,
     m_VisibleAt = 1700000000000000000, m_Payload = [1, 2, 3], m_Attempts = 2,
     m_CreatedAt = 1600000000000000000, m_state = stateInFlight, m_index = 4, m_effPriority = 5,
     m_deadline = 1700000000000000009\<rparr>"

text \<open>C23: an ENQUEUE payload decodes to the message it was made from, except for what a restart
  forgets on purpose: the lease with its deadline, the place in a heap and the aged priority.\<close>

theorem message_roundtrip:
  assumes "storable m"
  shows "decodeMessage (encodeMessage m) = Inr (m\<lparr>m_state := (if m_state m = stateDead then stateDead else stateReady),
     m_index := 0, m_effPriority := m_Priority m, m_deadline := zero_time\<rparr>)"
  using decodeMessage_encodeMessage [OF assms] by (simp add: reloaded_def)

theorem message_roundtrip_witness:
  "decodeMessage (encodeMessage sample_message)
    = Inr (sample_message\<lparr>m_state := stateReady, m_index := 0, m_effPriority := -3, m_deadline := zero_time\<rparr>)"
  using message_roundtrip [of sample_message]
  by (simp add: sample_message_def storable_def in_i64_def min_i64_def max_i64_def)

text \<open>A payload of any bytes that decodes as a message decodes to one that encoding keeps: writing
  it again, as compaction does, and reading it back changes nothing.\<close>

lemma decoded_message_is_stable:
  assumes "decodeMessage b = Inr m"
  shows "decodeMessage (encodeMessage m) = Inr m"
  using decodeMessage_encodeMessage [OF decodeMessage_storable(1) [OF assms]] decodeMessage_storable(2) [OF assms]
  by simp

text \<open>C24: every configuration \<open>Validate\<close> lets through, with numbers a Go \<open>int\<close> can hold, survives the
  META record: its JSON decodes to the same configuration, which is valid as it stands.\<close>

theorem config_roundtrip:
  assumes "Validate c0 = Inr c" and "config_ranges c"
  shows "bindE (decodeConfig (encodeConfig c)) Validate = Inr c"
proof -
  have v: "valid_config c" by (rule Validate_valid [OF assms(1)])
  then have "list_all plain (c_Name c)" "list_all plain (c_Ordering c)"
    by (auto simp: valid_config_def plain_def intro: nameRE_plain)
  from decodeConfig_encodeConfig [OF this assms(2)] valid_Validate [OF v] show ?thesis by simp
qed

definition sample_config :: config where
  "sample_config = \<lparr>c_Name = ''jobs'', c_Ordering = '''', c_PriorityEnabled = True, c_MaxAttempts = 0,
     c_DefaultVisibilityTimeoutMS = 0, c_AgingIntervalMS = 1000, c_AgingMaxBoost = 0,
     c_DedupWindowMS = 0, c_NextSeq = 0\<rparr>"

definition sample_valid :: config where
  "sample_valid = \<lparr>c_Name = ''jobs'', c_Ordering = FIFO, c_PriorityEnabled = True, c_MaxAttempts = 5,
     c_DefaultVisibilityTimeoutMS = 30000, c_AgingIntervalMS = 1000, c_AgingMaxBoost = 10,
     c_DedupWindowMS = 300000, c_NextSeq = 0\<rparr>"

lemma sample_validates: "Validate sample_config = Inr sample_valid"
  by (simp add: sample_config_def sample_valid_def Validate_def validate_ordering_def validate_attempts_def
      validate_visibility_def validate_dedup_def validate_aging_def alnum_def name_char_def DefaultMaxAttempts_def)

theorem config_roundtrip_witness:
  "bindE (decodeConfig (encodeConfig sample_valid)) Validate = Inr sample_valid"
  by (rule config_roundtrip [OF sample_validates])
    (simp add: sample_valid_def config_ranges_def in_i64_def min_i64_def max_i64_def)

end
