(* ===== verification/Queue_Props.thy ===== *)
theory Queue_Props
  imports Queue_Recovery Wal_Props
begin

text \<open>
  The properties of the queue: configuration, ordering, heaps, the public operations branch by
  branch, the timer, and the agreement of the running queue with the abstract specification.
\<close>

section \<open>Sample states\<close>

definition sample_empty :: queue where
  "sample_empty = (newQueue ''data/jobs'')\<lparr>q_cfg := sample_valid, q_log := fresh_log ''wal.log'' [] 0\<rparr>"

text \<open>A queue that holds one message, in the given state.\<close>

definition sample_one :: "mstate \<Rightarrow> queue" where
  "sample_one st = set_holder st [0] (sample_empty\<lparr>q_mem := (\<lambda>_. zero_message)(0 :=
     sample_message\<lparr>m_state := st, m_index := if st = stateDead then -1 else 0\<rparr>),
     q_byID := [(''0a1b'', 0)], q_brk := 1\<rparr>)"

lemma sample_empty_inv: "queue_inv sample_empty"
proof -
  have "holder st sample_empty = []" for st by (cases st) (simp_all add: sample_empty_def newQueue_def)
  moreover have "q_byID sample_empty = []" "q_dlq sample_empty = []"
    by (simp_all add: sample_empty_def newQueue_def)
  ultimately show ?thesis by (simp add: queue_inv_def ids_ok_def placed_def)
qed

lemma sample_one_simps [simp]:
  "q_byID (sample_one st) = [(''0a1b'', 0)]" "q_brk (sample_one st) = 1" "q_cfg (sample_one st) = sample_valid"
  "q_mem (sample_one st) 0 = sample_message\<lparr>m_state := st, m_index := if st = stateDead then -1 else 0\<rparr>"
  "holder st' (sample_one st) = (if st' = st then [0] else [])"
  "q_failed (sample_one st) = None" "q_closed (sample_one st) = False"
  "q_log (sample_one st) = fresh_log ''wal.log'' [] 0" "q_dedup (sample_one st) = []"
  by (cases st; cases st'; simp add: sample_one_def sample_empty_def newQueue_def)+

lemma sample_one_lists [simp]:
  "q_ready (sample_one st) = (if st = stateReady then [0] else [])"
  "q_delayed (sample_one st) = (if st = stateDelayed then [0] else [])"
  "q_inflight (sample_one st) = (if st = stateInFlight then [0] else [])"
  "q_dlq (sample_one st) = (if st = stateDead then [0] else [])"
  by (cases st; simp add: sample_one_def sample_empty_def newQueue_def)+

lemma sample_one_inv: "queue_inv (sample_one st)"
proof -
  have "heap_ok (heap_lt c st') (q_mem (sample_one st)) [0]" if "st \<noteq> stateDead" for c st'
    using that by (simp add: heap_ok_def indexed_def is_heap_def heap_on_def)
  then show ?thesis
    by (auto simp: queue_inv_def ids_ok_def placed_def sample_message_def)
qed

section \<open>Configuration and ordering\<close>

text \<open>C35: \<open>Validate\<close> accepts a configuration only when it is well formed, after filling in defaults: the
  result passes again unchanged, it keeps the name, and the name is a file name that cannot leave
  the data directory.\<close>

theorem validated_config:
  assumes "Validate c = Inr c'"
  shows "valid_config c' \<and> Validate c' = Inr c' \<and> c_Name c' = c_Name c \<and> c_NextSeq c' = c_NextSeq c \<and>
    CHR ''/'' \<notin> set (c_Name c') \<and> c_Name c' \<notin> {'''', ''.'', ''..''} \<and> length (c_Name c') \<le> 64"
proof -
  have v: "valid_config c'" by (rule Validate_valid [OF assms])
  then have n: "nameRE (c_Name c')" by (simp add: valid_config_def)
  then have "CHR ''/'' \<notin> set (c_Name c') \<and> c_Name c' \<notin> {'''', ''.'', ''..''} \<and> length (c_Name c') \<le> 64"
    by (cases "c_Name c'") (auto simp: alnum_def name_char_def list_all_iff)
  moreover have "c_NextSeq c' = c_NextSeq c" using Validate_spec [OF assms] by auto
  ultimately show ?thesis using v Validate_idem [OF assms] Validate_Name [OF assms] by blast
qed

theorem validated_config_witness:
  "valid_config sample_valid \<and> Validate sample_valid = Inr sample_valid \<and> c_Name sample_valid = c_Name sample_config"
  using validated_config [OF sample_validates] by blast

text \<open>The delivery order is a strict total order on messages with different sequence numbers: higher
  effective priority first when the queue has priorities, then first-in or last-in first.\<close>

lemma delivery_order:
  shows "\<not> cfg_less c a a \<and> (cfg_less c a b \<longrightarrow> \<not> cfg_less c b a) \<and>
    (cfg_less c a b \<longrightarrow> cfg_less c b d \<longrightarrow> cfg_less c a d) \<and>
    (m_Seq a \<noteq> m_Seq b \<longrightarrow> cfg_less c a b \<or> cfg_less c b a) \<and>
    (c_PriorityEnabled c \<longrightarrow> m_effPriority b < m_effPriority a \<longrightarrow> cfg_less c a b) \<and>
    (m_effPriority a = m_effPriority b \<or> \<not> c_PriorityEnabled c \<longrightarrow>
       cfg_less c a b = (if c_Ordering c = LIFO then m_Seq b < m_Seq a else m_Seq a < m_Seq b))"
proof (intro conjI impI)
  show "cfg_less c a b \<Longrightarrow> cfg_less c b d \<Longrightarrow> cfg_less c a d"
    using cfg_less_asym cfg_less_negtrans by blast
  show "m_Seq a \<noteq> m_Seq b \<Longrightarrow> cfg_less c a b \<or> cfg_less c b a" by (rule cfg_less_total)
  show "cfg_less c a b \<Longrightarrow> \<not> cfg_less c b a" by (rule cfg_less_asym)
qed (auto simp: cfg_less_def)

text \<open>C21: the three message heaps keep their shape, their order and every message's index through
  \<open>heap.Remove\<close> at any position: the message at that position comes out with index -1, the others
  stay, each at the index it records, nothing else of any message changes, and the head is least.\<close>

theorem heap_removal:
  assumes "lt = cfg_less c \<or> lt = delayed_less \<or> lt = lease_less"
    and "heap_ok lt mem xs" and "i < length xs"
    and "heap_Remove (msg_heap lt) (mem, xs) i = ((mem', xs'), p)"
  shows "heap_ok lt mem' xs' \<and> p = xs ! i \<and> mset xs = add_mset p (mset xs') \<and> m_index (mem' p) = -1 \<and>
    (\<forall>r. strip (mem' r) = strip (mem r)) \<and> (\<forall>r. r \<notin> set xs \<longrightarrow> mem' r = mem r) \<and>
    (\<forall>r \<in> set xs'. \<not> lt (mem' r) (mem' (hd xs')))"
proof -
  have "message_order lt" using assms(1) ready.message_order_axioms delayed.message_order_axioms
      lease.message_order_axioms by auto
  note R = message_order.Remove_ok [OF this assms(2-4)] and L = message_order.heap_ok_least [OF this]
  show ?thesis using R L [OF R(1)] by (auto simp: idx_only_def)
qed

theorem heap_removal_witness:
  "heap_Remove (msg_heap lease_less) (q_mem (sample_one stateInFlight), [0]) 0
     = (((q_mem (sample_one stateInFlight))(0 := sample_message\<lparr>m_state := stateInFlight, m_index := -1\<rparr>), []), 0) \<and>
   mset [0] = add_mset (0 :: nat) (mset [])"
proof -
  have r: "heap_Remove (msg_heap lease_less) (q_mem (sample_one stateInFlight), [0]) 0
     = (((q_mem (sample_one stateInFlight))(0 := sample_message\<lparr>m_state := stateInFlight, m_index := -1\<rparr>), []), 0)"
    by (simp add: heap_Remove_def msg_heap_def items_Pop_def set_index_def)
  have "heap_ok lease_less (q_mem (sample_one stateInFlight)) [0]"
    using inv_heap [OF sample_one_inv [of stateInFlight], of stateInFlight] by simp
  from heap_removal [OF _ this _ r, of undefined] r show ?thesis by simp
qed

section \<open>Enqueue\<close>

lemma append_log_ok:
  assumes "l_fatal (q_log q) = None" and "\<not> l_closed (q_log q)"
  shows "\<exists>l. append_log t p q = (q\<lparr>q_log := l\<rparr>, Inr (l_nextSeq (q_log q))) \<and>
    l_buf l = l_buf (q_log q) @ Encode [] t p \<and> Append t p (q_log q) = (l, Inr (l_nextSeq (q_log q)))"
  using assms by (simp add: append_log_def Append_def kick_def Encode_frame)

lemma enqueue_new_ok:
  assumes inv: "queue_inv q" and up: "l_fatal (q_log q) = None" "\<not> l_closed (q_log q)"
    and new: "map_of (q_byID q) (newID rnd) = None" and m: "m = new_message now rnd pl pr d k q"
  shows "\<exists>l q2. enqueue_new now rnd pl pr d k q = (bump (\<lambda>c. c\<lparr>n_Enqueued := n_Enqueued c + 1\<rparr>) q2,
      Inr (\<lparr>er_ID = newID rnd, er_Seq = q_nextSeq q, er_VisibleAt = now + d, er_Duplicate = False\<rparr>,
           Some (l_nextSeq (q_log q)))) \<and>
    Append TypeEnqueue (encodeMessage m) (q_log q) = (l, Inr (l_nextSeq (q_log q))) \<and>
    l_buf l = l_buf (q_log q) @ Encode [] TypeEnqueue (encodeMessage m) \<and>
    applyEnqueue m now (q\<lparr>q_log := l\<rparr>) = Inr q2 \<and> queue_inv q2 \<and>
    only_heaps (upd (q_brk q) (filed_msg (q_cfg q) now) (registered m (q\<lparr>q_log := l\<rparr>))) q2"
proof -
  have id: "m_ID m = newID rnd" "m_VisibleAt m = now + d" "m_Seq m = q_nextSeq q"
    by (simp_all add: m new_message_def zero_message_def time_add_def)
  from append_log_ok [OF up, of TypeEnqueue "encodeMessage m"] obtain l where
    l: "append_log TypeEnqueue (encodeMessage m) q = (q\<lparr>q_log := l\<rparr>, Inr (l_nextSeq (q_log q)))"
      "l_buf l = l_buf (q_log q) @ Encode [] TypeEnqueue (encodeMessage m)"
      "Append TypeEnqueue (encodeMessage m) (q_log q) = (l, Inr (l_nextSeq (q_log q)))" by blast
  have "queue_inv (q\<lparr>q_log := l\<rparr>)" "map_of (q_byID (q\<lparr>q_log := l\<rparr>)) (m_ID m) = None" using inv new id by simp_all
  from applyEnqueue_spec [OF this, of now] obtain q2 where q2: "applyEnqueue m now (q\<lparr>q_log := l\<rparr>) = Inr q2" "queue_inv q2"
    "only_heaps (upd (q_brk q) (filed_msg (q_cfg q) now) (registered m (q\<lparr>q_log := l\<rparr>))) q2" by auto
  then show ?thesis using l id by (intro exI [of _ l] exI [of _ q2]) (simp add: enqueue_new_def flip: m)
qed

text \<open>C16: an accepted enqueue. The message is appended to the log and applied: it is the message the
  abstract specification adds, under the next sequence number, delayed when its delay lies in the
  future and ready otherwise; the caller is to wait for the batch its record is in.\<close>

theorem enqueue_accepted:
  assumes inv: "queue_inv q" and up: "checkLocked q = None" "l_fatal (q_log q) = None" "\<not> l_closed (q_log q)"
    and new: "dedup_hit now k q = None" "map_of (q_byID q) (newID rnd) = None"
  shows "\<exists>q' p. Enqueue now rnd pl pr d k q =
      (q', Inr (\<lparr>er_ID = newID rnd, er_Seq = q_nextSeq q, er_VisibleAt = now + d, er_Duplicate = False\<rparr>,
                Some (l_nextSeq (q_log q)))) \<and>
    queue_inv q' \<and> a_enqueue (new_message now rnd pl pr d k q) (absq q) = Inr (absq q') \<and>
    l_buf (q_log q') = l_buf (q_log q) @ Encode [] TypeEnqueue (encodeMessage (new_message now rnd pl pr d k q)) \<and>
    map_of (q_byID q') (newID rnd) = Some p \<and> m_Payload (q_mem q' p) = pl \<and>
    m_state (q_mem q' p) = (if 0 < d then stateDelayed else stateReady)"
proof -
  let ?m = "new_message now rnd pl pr d k q"
  have id: "m_ID ?m = newID rnd" "m_state ?m = stateReady" "m_VisibleAt ?m = now + d" "m_Payload ?m = pl" "m_Seq ?m = q_nextSeq q"
    by (simp_all add: new_message_def zero_message_def time_add_def)
  from enqueue_new_ok [OF inv up(2,3) new(2) refl, of now pl pr d k] obtain l q2 where
    new_q: "enqueue_new now rnd pl pr d k q = (bump (\<lambda>c. c\<lparr>n_Enqueued := n_Enqueued c + 1\<rparr>) q2,
      Inr (\<lparr>er_ID = newID rnd, er_Seq = q_nextSeq q, er_VisibleAt = now + d, er_Duplicate = False\<rparr>,
           Some (l_nextSeq (q_log q))))"
    and l: "l_buf l = l_buf (q_log q) @ Encode [] TypeEnqueue (encodeMessage ?m)"
    and q2: "applyEnqueue ?m now (q\<lparr>q_log := l\<rparr>) = Inr q2" "queue_inv q2"
    and oh: "only_heaps (upd (q_brk q) (filed_msg (q_cfg q) now) (registered ?m (q\<lparr>q_log := l\<rparr>))) q2" by blast
  have inv1: "queue_inv (q\<lparr>q_log := l\<rparr>)" using inv by simp
  have abs: "a_enqueue ?m (absq q) = Inr (absq q2)"
    using applyEnqueue_refines [OF inv1, of ?m now] q2(1) by simp
  have mp: "strip (q_mem q2 (q_brk q)) = strip (filed_msg (q_cfg q) now ?m)"
    using only_heaps_fields(16) [OF oh, of "q_brk q"] by simp
  have st: "m_state (q_mem q2 (q_brk q)) = (if 0 < d then stateDelayed else stateReady)"
    "m_Payload (q_mem q2 (q_brk q)) = pl"
    using strip_eqD(9,6) [OF mp] id by (simp_all add: filed_msg_def placed_msg_def)
  have lk: "map_of (q_byID q2) (newID rnd) = Some (q_brk q)"
    using only_heaps_fields(6) [OF oh] id new(2) by (simp add: registered_def update_conv')
  have "q_log q2 = l" using only_heaps_fields(4) [OF oh] by (simp add: registered_def)
  moreover have "Enqueue now rnd pl pr d k q = (bump (\<lambda>c. c\<lparr>n_Enqueued := n_Enqueued c + 1\<rparr>) q2,
      Inr (\<lparr>er_ID = newID rnd, er_Seq = q_nextSeq q, er_VisibleAt = now + d, er_Duplicate = False\<rparr>,
           Some (l_nextSeq (q_log q))))"
    using new_q up new by (simp add: Enqueue_def)
  ultimately show ?thesis using q2(2) abs st lk l
    by (intro exI [of _ "bump (\<lambda>c. c\<lparr>n_Enqueued := n_Enqueued c + 1\<rparr>) q2"] exI [of _ "q_brk q"])
      (simp add: bump_def absq_def)
qed

lemma sample_id: "newID 6922 = ''0a1b000000000000''"
  by (simp add: newID_def hex_byte_def hex_digit_def le_bytes_def upt_conv_Cons)

theorem enqueue_accepted_witness:
  "\<exists>q' p. Enqueue 50 6922 [1] 0 7 ''job'' sample_empty =
      (q', Inr (\<lparr>er_ID = ''0a1b000000000000'', er_Seq = 1, er_VisibleAt = 57, er_Duplicate = False\<rparr>, Some 1)) \<and>
    map_of (q_byID q') ''0a1b000000000000'' = Some p \<and> m_state (q_mem q' p) = stateDelayed"
  using enqueue_accepted [OF sample_empty_inv, of 50 "''job''" 6922 "[1]" 0 7]
  by (auto simp: sample_id checkLocked_def sample_empty_def newQueue_def fresh_log_def dedup_hit_def)

section \<open>Dequeue\<close>

text \<open>C14: a dequeue first promotes every delayed message that is due, then leases the messages that come
  first in delivery order: as many as asked for (one when asked for none or fewer) or all there are,
  in that order, each in flight with its deadline set; no message left ready comes before one that
  was handed out, and nothing of the durable state changes.\<close>

theorem dequeue_in_order:
  assumes inv: "queue_inv q" and up: "checkLocked q = None"
    and v: "v' = (if v \<le> 0 then visibilityTimeout (q_cfg q) else v)"
  shows "\<exists>q' ms ps. Dequeue now mx v q = (q', Inr ms) \<and> queue_inv q' \<and> absq q' = absq q \<and>
    (\<forall>p \<in> set (q_delayed (promoteDue now q)). now < m_VisibleAt (q_mem (promoteDue now q) p)) \<and>
    distinct ps \<and> set ps \<subseteq> set (q_ready (promoteDue now q)) \<and>
    set (q_ready q') = set (q_ready (promoteDue now q)) - set ps \<and>
    length ps = min (nat (if mx \<le> 0 then 1 else mx)) (length (q_ready (promoteDue now q))) \<and>
    map strip ms = map (\<lambda>p. strip ((q_mem (promoteDue now q) p)\<lparr>m_state := stateInFlight, m_deadline := now + v'\<rparr>)) ps \<and>
    sorted_wrt (\<lambda>a b. \<not> cfg_less (q_cfg q) (q_mem (promoteDue now q) b) (q_mem (promoteDue now q) a)) ps \<and>
    (\<forall>p \<in> set ps. \<forall>r \<in> set (q_ready q').
       \<not> cfg_less (q_cfg q) (q_mem (promoteDue now q) r) (q_mem (promoteDue now q) p))"
proof -
  let ?q = "promoteDue now q"
  from promoteDue_spec [OF inv, of now] have invp: "queue_inv ?q"
    and late: "\<forall>p \<in> set (q_delayed ?q). now < m_VisibleAt (q_mem ?q p)"
    and oh: "only_heaps (map_msgs (promoted now q) q) ?q" by auto
  have cfg: "q_cfg ?q = q_cfg q" using only_heaps_fields(1) [OF oh] by simp
  obtain q1 ms where dl: "dequeue_loop now v' (if mx \<le> 0 then 1 else mx) ?q = (q1, ms)" by (metis prod.exhaust)
  from dequeue_loop_spec [OF invp dl] obtain ps where ps: "dequeued now v' ?q ps q1"
    "length ps = min (nat (if mx \<le> 0 then 1 else mx)) (length (q_ready ?q))"
    "map strip ms = map (\<lambda>p. strip (leased now v' (q_mem ?q p))) ps" by blast
  let ?b = "bump (\<lambda>c. c\<lparr>n_Dequeued := n_Dequeued c + of_nat (length ms)\<rparr>) q1"
  define q' where "q' = (if ms \<noteq> [] then signal ?b else ?b)"
  have dq: "Dequeue now mx v q = (q', Inr ms)"
    unfolding Dequeue_def Let_def up option.case cfg v [symmetric] dl prod.case by (simp add: q'_def)
  have ob: "set (q_ready q') = set (q_ready q1)" "queue_inv q'"
    using ps(1) by (simp_all add: q'_def signal_def bump_def dequeued_def)
  show ?thesis
    using dq ob Dequeue_frame(3) [OF inv dq] late ps cfg
    by (intro exI [of _ q'] exI [of _ ms] exI [of _ ps]) (simp add: dequeued_def leased_def time_add_def)
qed

theorem dequeue_in_order_witness:
  "\<exists>q' ms. Dequeue 2000000000000000000 1 5 (sample_one stateReady) = (q', Inr ms) \<and> queue_inv q' \<and> length ms = 1"
proof -
  have "q_ready (promoteDue 2000000000000000000 (sample_one stateReady)) = [0]" by (simp add: promoteDue.simps)
  moreover have "length ms = length ps" if "map f ms = map g ps" for ms ps f g by (metis that length_map)
  ultimately show ?thesis
    using dequeue_in_order [OF sample_one_inv [of stateReady], of 5 5 2000000000000000000 1]
    by (fastforce simp: checkLocked_def)
qed

section \<open>Ack and Nack\<close>

text \<open>The error of a log that takes no more records: its first failure, or that it is closed.\<close>

definition log_refusal :: "wlog \<Rightarrow> go_error option" where
  "log_refusal l = (if l_fatal l \<noteq> None then l_fatal l else if l_closed l then Some ErrWalClosed else None)"

lemma append_log_refused: "log_refusal (q_log q) = Some e \<Longrightarrow> append_log t p q = (q\<lparr>q_failed := Some e\<rparr>, Inl e)"
  by (auto simp: log_refusal_def append_log_def Append_def split: if_splits)

lemma log_refusal_None: "log_refusal l = None \<longleftrightarrow> l_fatal l = None \<and> \<not> l_closed l"
  by (auto simp: log_refusal_def)

text \<open>C18: acknowledging a message, branch by branch. A closed or failed queue answers with its error; an
  unknown id with \<open>ErrNotFound\<close>; a message that is ready or delayed with \<open>ErrNotInFlight\<close>, all
  without changing anything. When the log refuses the ACK record, its error is the answer and takes the
  queue out of service, and no message is touched. Otherwise a message in flight or dead is removed from
  the queue for good, as the specification removes it, and the caller is to wait for the batch of the
  ACK record.\<close>

theorem ack_branches:
  assumes inv: "queue_inv q"
  shows "case checkLocked q of Some e \<Rightarrow> Ack k q = (q, Inl e)
    | None \<Rightarrow> (case map_of (q_byID q) k of None \<Rightarrow> Ack k q = (q, Inl ErrNotFound)
      | Some p \<Rightarrow>
          if m_state (q_mem q p) = stateReady \<or> m_state (q_mem q p) = stateDelayed
          then Ack k q = (q, Inl ErrNotInFlight)
          else case log_refusal (q_log q) of Some e \<Rightarrow> Ack k q = (q\<lparr>q_failed := Some e\<rparr>, Inl e)
          | None \<Rightarrow> \<exists>q'. Ack k q = (q', Inr (l_nextSeq (q_log q))) \<and> queue_inv q' \<and>
            map_of (q_byID q') k = None \<and> a_ack k (absq q) = Inr (absq q') \<and>
            l_buf (q_log q') = l_buf (q_log q) @ Encode [] TypeAck (bytes_of k))"
proof (cases "checkLocked q"; cases "map_of (q_byID q) k")
  fix p assume ck: "checkLocked q = None" and p: "map_of (q_byID q) k = Some p"
  let ?s = "m_state (q_mem q p)"
  consider (other) "?s = stateReady \<or> ?s = stateDelayed"
    | (refused) e where "?s = stateInFlight \<or> ?s = stateDead" "log_refusal (q_log q) = Some e"
    | (accepted) "?s = stateInFlight \<or> ?s = stateDead" "log_refusal (q_log q) = None"
    by (cases ?s; cases "log_refusal (q_log q)") auto
  then show ?thesis
  proof cases
    case other
    then show ?thesis using ck p by (auto simp: Ack_def msg_def)
  next
    case (refused e)
    then show ?thesis using ck p append_log_refused [OF refused(2)] by (auto simp: Ack_def msg_def)
  next
    case accepted
    note log = accepted(2) [unfolded log_refusal_None]
    from append_log_ok [OF log [THEN conjunct1] log [THEN conjunct2], of TypeAck "bytes_of k"] obtain l where
      l: "append_log TypeAck (bytes_of k) q = (q\<lparr>q_log := l\<rparr>, Inr (l_nextSeq (q_log q)))"
        "l_buf l = l_buf (q_log q) @ Encode [] TypeAck (bytes_of k)" by blast
    have inv1: "queue_inv (q\<lparr>q_log := l\<rparr>)" using inv by simp
    from applyAck_spec [OF inv1, of k p] p obtain q2 where q2: "applyAck k (q\<lparr>q_log := l\<rparr>) = Inr q2" "queue_inv q2"
      "only_heaps (q\<lparr>q_log := l, q_byID := AList.delete k (q_byID q)\<rparr>) q2" by auto
    have "a_ack k (absq q) = Inr (absq q2)" using applyAck_refines [OF inv1, of k] q2(1) by simp
    moreover have "q_log q2 = l" "map_of (q_byID q2) k = None"
      using only_heaps_fields(4,6) [OF q2(3)] by (simp_all add: delete_conv')
    moreover have "Ack k q = (bump (\<lambda>c. c\<lparr>n_Acked := n_Acked c + 1\<rparr>) q2, Inr (l_nextSeq (q_log q)))"
      using accepted(1) l(1) q2(1) ck p by (auto simp: Ack_def msg_def)
    ultimately show ?thesis using q2(2) l(2) ck p accepted by (auto simp: bump_def absq_def)
  qed
qed (simp_all add: Ack_def)

theorem ack_branches_witness:
  "\<exists>q'. Ack ''0a1b'' (sample_one stateInFlight) = (q', Inr 1) \<and> queue_inv q' \<and> map_of (q_byID q') ''0a1b'' = None"
  using ack_branches [OF sample_one_inv [of stateInFlight], of "''0a1b''"]
  by (auto simp: checkLocked_def log_refusal_def fresh_log_def)

text \<open>C17: a negative acknowledgement, branch by branch, while no message has failed \<open>2\<^sup>6\<^sup>3 - 1\<close> times. A closed or
  failed queue answers with its error, an unknown id with \<open>ErrNotFound\<close>, a message not in flight with
  \<open>ErrNotInFlight\<close>, all without changing anything; a log that refuses the NACK record takes the queue out
  of service with its error, and no message is touched. Otherwise the message has failed once more: it is
  dead exactly when its failed deliveries have reached the limit of the configuration, and otherwise
  ready at once; a nack never loses a message.\<close>

theorem nack_branches:
  assumes inv: "queue_inv q" and att: "attempts_below max_i64 q"
  shows "case checkLocked q of Some e \<Rightarrow> Nack now k q = (q, Inl e)
    | None \<Rightarrow> (case map_of (q_byID q) k of None \<Rightarrow> Nack now k q = (q, Inl ErrNotFound)
      | Some p \<Rightarrow>
          if m_state (q_mem q p) \<noteq> stateInFlight then Nack now k q = (q, Inl ErrNotInFlight)
          else case log_refusal (q_log q) of Some e \<Rightarrow> Nack now k q = (q\<lparr>q_failed := Some e\<rparr>, Inl e)
          | None \<Rightarrow> \<exists>q'. Nack now k q = (q', Inr (l_nextSeq (q_log q))) \<and> queue_inv q' \<and>
            map_of (q_byID q') k = Some p \<and> m_Attempts (q_mem q' p) = m_Attempts (q_mem q p) + 1 \<and>
            m_state (q_mem q' p) =
              (if c_MaxAttempts (q_cfg q) \<le> m_Attempts (q_mem q p) + 1 then stateDead else stateReady) \<and>
            a_attempt k (absq q) = Inr (absq q') \<and>
            l_buf (q_log q') = l_buf (q_log q) @ Encode [] TypeNack (bytes_of k))"
proof (cases "checkLocked q"; cases "map_of (q_byID q) k")
  fix p assume ck: "checkLocked q = None" and p: "map_of (q_byID q) k = Some p"
  consider (other) "m_state (q_mem q p) \<noteq> stateInFlight"
    | (refused) e where "m_state (q_mem q p) = stateInFlight" "log_refusal (q_log q) = Some e"
    | (accepted) "m_state (q_mem q p) = stateInFlight" "log_refusal (q_log q) = None" by fastforce
  then show ?thesis
  proof cases
    case other
    then show ?thesis using ck p by (simp add: Nack_def msg_def)
  next
    case (refused e)
    then show ?thesis using ck p append_log_refused [OF refused(2)] by (simp add: Nack_def msg_def)
  next
    case accepted
    note True = accepted(1) and log = accepted(2) [unfolded log_refusal_None]
    from append_log_ok [OF log [THEN conjunct1] log [THEN conjunct2], of TypeNack "bytes_of k"] obtain l where
      l: "append_log TypeNack (bytes_of k) q = (q\<lparr>q_log := l\<rparr>, Inr (l_nextSeq (q_log q)))"
        "l_buf l = l_buf (q_log q) @ Encode [] TypeNack (bytes_of k)" by blast
    let ?q1 = "q\<lparr>q_log := l\<rparr>"
    have inv1: "queue_inv ?q1" using inv by simp
    have att1: "attempts_below max_i64 ?q1" using att by (simp add: attempts_below_def)
    from applyAttempt_spec [OF inv1, of k p now] p obtain q2 d where
      q2: "applyAttempt k now ?q1 = Inr (q2, d)" "queue_inv q2"
      and oh: "only_heaps (upd p (attempted_msg (q_cfg q) now) ?q1) q2" by auto
    have "a_attempt k (absq q) = Inr (absq q2)" using applyAttempt_refines [OF inv1 att1, of k now] q2(1) by simp
    moreover have "q_log q2 = l" "map_of (q_byID q2) k = Some p"
      using only_heaps_fields(4,6) [OF oh] p by simp_all
    moreover have "i64 (m_Attempts (q_mem q p) + 1) = m_Attempts (q_mem q p) + 1"
      using next_attempt attempts_belowD [OF att p] by blast
    then have "m_Attempts (q_mem q2 p) = m_Attempts (q_mem q p) + 1" "m_state (q_mem q2 p) =
        (if c_MaxAttempts (q_cfg q) \<le> m_Attempts (q_mem q p) + 1 then stateDead else stateReady)"
      using strip_eqD(7,9) [OF only_heaps_fields(16) [OF oh, of p]]
      by (simp_all add: attempted_msg_def attempts_up_def placed_msg_def)
    moreover have "Nack now k q = (bump_dead d (bump (\<lambda>c. c\<lparr>n_Nacked := n_Nacked c + 1\<rparr>) q2), Inr (l_nextSeq (q_log q)))"
      using l(1) q2(1) ck p True by (simp add: Nack_def msg_def)
    ultimately show ?thesis using q2(2) l(2) ck p True accepted(2) by (simp add: bump_dead_def bump_def absq_def)
  qed
qed (simp_all add: Nack_def)

theorem nack_branches_witness:
  "\<exists>q'. Nack 5 ''0a1b'' (sample_one stateInFlight) = (q', Inr 1) \<and>
     m_Attempts (q_mem q' 0) = 3 \<and> m_state (q_mem q' 0) = stateReady"
  using nack_branches [OF sample_one_inv [of stateInFlight], of 5 "''0a1b''"]
  by (auto simp: checkLocked_def log_refusal_def fresh_log_def attempts_below_def sample_message_def sample_valid_def max_i64_def)

text \<open>No operation touches a queue that is closed or has failed: each returns \<open>ErrClosed\<close> or the
  first failure, and the timer does nothing.\<close>

lemma stopped_queue_refuses:
  assumes "checkLocked q = Some e"
  shows "Enqueue now rnd pl pr d k q = (q, Inl e) \<and> Dequeue now mx v q = (q, Inl e) \<and>
    Ack k q = (q, Inl e) \<and> Nack now k q = (q, Inl e) \<and> tick now q = Some (q, 0, False, zero_time)"
  using assms by (auto simp: Enqueue_def Dequeue_def Ack_def Nack_def tick_def checkLocked_def split: if_splits)

section \<open>The background timer\<close>

text \<open>C19: one tick always ends, whatever the state, keeps the invariant, and unless the log fails under it
  leaves no lease that is past its deadline: every such message has failed once more.\<close>

theorem tick_expires_leases:
  assumes inv: "queue_inv q" and up: "checkLocked q = None"
  shows "\<exists>q' b c nx. tick now q = Some (q', b, c, nx) \<and> queue_inv q' \<and>
    (q_failed q' = None \<longrightarrow> (\<forall>p \<in> set (q_inflight q'). now < m_deadline (q_mem q' p)))"
proof -
  let ?q = "promoteDue now q"
  have invp: "queue_inv ?q" using promoteDue_spec [OF inv] by blast
  from expire_loop_total [OF invp order_refl, of now 0] obtain q1 b where
    ex: "expire_loop (length (q_inflight ?q)) now 0 ?q = Some (q1, b)" and inv1: "queue_inv q1"
    and late: "q_failed q1 = None \<longrightarrow> (\<forall>p \<in> set (q_inflight q1). now < m_deadline (q_mem q1 p))" by auto
  let ?q2 = "agePriorities now q1"
  have inv2: "queue_inv ?q2" by (rule agePriorities_inv [OF inv1])
  have same: "q_failed ?q2 = q_failed q1 \<and> q_byID ?q2 = q_byID q1 \<and>
      m_state (q_mem ?q2 p) = m_state (q_mem q1 p) \<and> m_deadline (q_mem ?q2 p) = m_deadline (q_mem q1 p)" for p
  proof (cases "aging_due now q1")
    case True
    note A = agePriorities_due(2) [OF inv1 True]
    show ?thesis
      using only_heaps_fields(6,9) [OF A] strip_eqD(9,11) [OF only_heaps_fields(16) [OF A, of p]]
      by (simp add: aged_in_def aged_def)
  qed (simp add: agePriorities_not_due)
  let ?q3 = "purge_dedup now ?q2"
  have P: "queue_inv ?q3" "q_failed ?q3 = q_failed ?q2" "q_inflight ?q3 = q_inflight ?q2" "q_mem ?q3 = q_mem ?q2"
    using inv2 by (simp_all add: purge_dedup_def)
  have "\<forall>p \<in> set (q_inflight ?q3). now < m_deadline (q_mem ?q3 p)" if f: "q_failed ?q3 = None"
  proof
    fix p assume "p \<in> set (q_inflight ?q3)"
    then have "p \<in> set (q_inflight q1)"
      using P(3) inv_holder [OF inv2, of p stateInFlight] inv_holder [OF inv1, of p stateInFlight] same [of p] by simp
    then show "now < m_deadline (q_mem ?q3 p)" using late f P(2,4) same [of p] by simp
  qed
  moreover have "\<not> (q_failed q \<noteq> None \<or> q_closed q)" using up by (auto simp: checkLocked_def split: if_splits)
  ultimately show ?thesis using ex P(1) by (auto simp: tick_def Let_def)
qed

theorem tick_expires_leases_witness:
  "\<exists>q' b c nx. tick 1700000000000000010 (sample_one stateInFlight) = Some (q', b, c, nx) \<and> queue_inv q'"
  using tick_expires_leases [OF sample_one_inv [of stateInFlight], of 1700000000000000010]
  by (auto simp: checkLocked_def)

text \<open>The deadlines the timer looks at; it takes the earliest that is set.\<close>

definition deadlines :: "queue \<Rightarrow> gotime list" where
  "deadlines q = (if q_delayed q \<noteq> [] then [m_VisibleAt (q_mem q (hd (q_delayed q)))] else []) @
     (if q_inflight q \<noteq> [] then [m_deadline (q_mem q (hd (q_inflight q)))] else []) @
     (if agingInterval (q_cfg q) > 0 \<and> q_ready q \<noteq> [] then [q_lastAge q + agingInterval (q_cfg q)] else []) @
     (if q_dedup q \<noteq> [] then [q_lastPurge q + dedupPurgeInterval] else [])"

lemma nextDeadline_fold: "nextDeadlineLocked q = fold consider_deadline (deadlines q) zero_time"
  by (simp add: nextDeadlineLocked_def deadlines_def Let_def msg_def time_add_def)

lemma fold_consider_le:
  "n \<noteq> zero_time \<Longrightarrow> \<forall>t \<in> set ts. zero_time < t \<Longrightarrow>
   fold consider_deadline ts n \<noteq> zero_time \<and> fold consider_deadline ts n \<le> n"
proof (induction ts arbitrary: n)
  case (Cons t ts)
  have "consider_deadline t n \<noteq> zero_time \<and> consider_deadline t n \<le> n"
    using Cons.prems by (simp add: consider_deadline_def time_is_zero_def)
  then show ?case using Cons.IH [of "consider_deadline t n"] Cons.prems(2) by force
qed simp

lemma fold_consider_earliest:
  "\<forall>t \<in> set ts. zero_time < t \<Longrightarrow> u \<in> set ts \<Longrightarrow>
   fold consider_deadline ts n \<noteq> zero_time \<and> fold consider_deadline ts n \<le> u"
proof (induction ts arbitrary: n)
  case (Cons t ts)
  then have c: "consider_deadline t n \<noteq> zero_time" "consider_deadline t n \<le> t"
    by (auto simp: consider_deadline_def time_is_zero_def)
  show ?case
    using Cons.IH [of "consider_deadline t n"] fold_consider_le [OF c(1), of ts] c(2) Cons.prems by fastforce
qed simp

lemma heads_are_earliest:
  assumes inv: "queue_inv q"
  shows "p \<in> set (q_delayed q) \<Longrightarrow> m_VisibleAt (q_mem q (hd (q_delayed q))) \<le> m_VisibleAt (q_mem q p)"
    and "p \<in> set (q_inflight q) \<Longrightarrow> m_deadline (q_mem q (hd (q_inflight q))) \<le> m_deadline (q_mem q p)"
proof -
  show "p \<in> set (q_delayed q) \<Longrightarrow> m_VisibleAt (q_mem q (hd (q_delayed q))) \<le> m_VisibleAt (q_mem q p)"
    using delayed.heap_ok_least [of "q_mem q" "q_delayed q" p] inv_heap [OF inv, of stateDelayed]
    by (auto simp: delayed_less_def split: if_splits)
  show "p \<in> set (q_inflight q) \<Longrightarrow> m_deadline (q_mem q (hd (q_inflight q))) \<le> m_deadline (q_mem q p)"
    using lease.heap_ok_least [of "q_mem q" "q_inflight q" p] inv_heap [OF inv, of stateInFlight]
    by (auto simp: lease_less_def split: if_splits)
qed

section \<open>Aging\<close>

lemma sdiv_mono: "0 < k \<Longrightarrow> a \<le> b \<Longrightarrow> a sdiv k \<le> b sdiv (k :: int)"
proof (cases "a < 0")
  case True
  assume k: "0 < k" and ab: "a \<le> b"
  have "a sdiv k = - (- a div k)" using True k by (simp add: signed_divide_int_def)
  moreover have "b sdiv k = (if b < 0 then - (- b div k) else b div k)"
    using k by (auto simp: signed_divide_int_def sgn_if)
  moreover have "- b div k \<le> - a div k" "0 \<le> - a div k" using k ab True by (simp_all add: zdiv_mono1 pos_imp_zdiv_nonneg_iff)
  moreover have "b \<ge> 0 \<Longrightarrow> 0 \<le> b div k" using k by (simp add: pos_imp_zdiv_nonneg_iff)
  ultimately show ?thesis by (auto simp: not_less)
next
  case False
  assume "0 < k" "a \<le> b"
  then show ?thesis using False by (auto simp: signed_divide_int_def sgn_if zdiv_mono1 pos_imp_zdiv_nonneg_iff)
qed

text \<open>How far aging has raised the priority of a message.\<close>

definition aging_boost :: "config \<Rightarrow> message \<Rightarrow> gotime \<Rightarrow> int" where
  "aging_boost c m t = max 0 (min (c_AgingMaxBoost c) (time_sub t (m_CreatedAt m) sdiv agingInterval c))"

lemma aging_boost_mono: "0 < agingInterval c \<Longrightarrow> t \<le> t' \<Longrightarrow> aging_boost c m t \<le> aging_boost c m t'"
  unfolding aging_boost_def by (intro max.mono min.mono sdiv_mono order_refl) (auto simp: time_sub_def)

text \<open>C36: aging, for every configuration the validation accepts and every priority a Go \<open>int\<close> can hold. Without
  aging the effective priority is the message's. With it a boost is added, between 0 and the configured
  maximum, that never shrinks as time passes: while the sum fits an \<open>int\<close> aging only raises a priority and
  never lowers it again. Nothing checks that it fits: once the sum passes \<open>2\<^sup>6\<^sup>3 - 1\<close> it wraps around, and
  the oldest message gets a negative priority.\<close>

theorem aging_is_bounded:
  assumes "valid_config c" and "in_i64 (c_AgingMaxBoost c)" and "in_i64 (m_Priority m)"
  shows "if agingInterval c \<le> 0 then effectivePriority c m now = m_Priority m
    else 0 \<le> aging_boost c m now \<and> aging_boost c m now \<le> max 0 (c_AgingMaxBoost c) \<and>
      (now \<le> later \<longrightarrow> aging_boost c m now \<le> aging_boost c m later) \<and>
      (if m_Priority m + aging_boost c m now \<le> max_i64
       then effectivePriority c m now = m_Priority m + aging_boost c m now
       else effectivePriority c m now = m_Priority m + aging_boost c m now - 2 ^ 64 \<and>
         effectivePriority c m now < 0)"
proof (cases "agingInterval c \<le> 0")
  case True
  then show ?thesis by (simp add: effectivePriority_def Let_def)
next
  case False
  have "c_AgingIntervalMS c \<noteq> 0" using False by (auto simp: agingInterval_def millis_def)
  then have on: "c_PriorityEnabled c" using assms(1) by (auto simp: valid_config_def)
  have range: "0 \<le> aging_boost c m now" "aging_boost c m now \<le> max 0 (c_AgingMaxBoost c)" by (auto simp: aging_boost_def)
  have eff: "effectivePriority c m now = i64 (m_Priority m + aging_boost c m now)"
    using False on by (auto simp: effectivePriority_def aging_boost_def Let_def)
  have "i64 (m_Priority m + aging_boost c m now) = m_Priority m + aging_boost c m now"
    if "m_Priority m + aging_boost c m now \<le> max_i64"
    using that range assms(3) by (simp add: in_i64_def)
  moreover have "i64 (m_Priority m + aging_boost c m now) = m_Priority m + aging_boost c m now - 2 ^ 64"
    "m_Priority m + aging_boost c m now - 2 ^ 64 < 0"
    if "\<not> m_Priority m + aging_boost c m now \<le> max_i64"
    using that range assms(2,3) i64_wrapped [of "m_Priority m + aging_boost c m now"]
    by (auto simp: in_i64_def min_i64_def max_i64_def)
  ultimately show ?thesis using False range aging_boost_mono [of c now later m] by (auto simp: eff)
qed

text \<open>A message of the highest priority, five seconds old: aging has sent it to the end of the queue.\<close>

theorem aging_is_bounded_witness:
  "effectivePriority (sample_valid\<lparr>c_AgingMaxBoost := 10\<rparr>) (sample_message\<lparr>m_Priority := max_i64\<rparr>) 1600000005000000000
    = min_i64 + 4"
proof -
  let ?c = "sample_valid\<lparr>c_AgingMaxBoost := 10\<rparr>" and ?m = "sample_message\<lparr>m_Priority := max_i64\<rparr>"
  have v: "valid_config ?c" using Validate_valid [OF sample_validates] by (auto simp: valid_config_def sample_valid_def)
  have b: "\<not> agingInterval ?c \<le> 0" "aging_boost ?c ?m 1600000005000000000 = 5"
    by (simp_all add: aging_boost_def agingInterval_def sample_valid_def sample_message_def millis_def time_sub_def
        max_i64_def min_i64_def in_i64_def signed_divide_int_def)
  show ?thesis
    using aging_is_bounded [OF v, of ?m 1600000005000000000 0] b
    by (simp add: sample_valid_def in_i64_def max_i64_def min_i64_def)
qed

end
