(* ===== verification/Queue_Timer.thy ===== *)
theory Queue_Timer
  imports Queue_Steps Queue_Props
begin

text \<open>
  \<open>internal/queue/queue.go\<close>, the goroutine \<open>run\<close> behind a queue: it ticks, sleeps until the next deadline the tick
  found, and is woken early by a signal. Everything else that happens to the queue goes on around it, in any order;
  a wake-up is never lost.
\<close>

section \<open>The goroutine\<close>

text \<open>
  Where it stands: about to tick; after the critical section of a tick, with the batch to wait for, whether to
  compact and the next deadline; after the wait; asleep since an instant, with the deadline the sleep was computed
  from; returned.
\<close>

datatype timer = Ticking | Ticked u64 bool gotime | Settled bool gotime | Sleeping gotime gotime | Returned

definition hour :: duration where
  "hour = 3600 * 1000000000"

definition millisecond :: duration where
  "millisecond = 1000000"

text \<open>How long to sleep at \<open>now\<close>. The timer is drained before it is reset, so that only this sleep ends it.\<close>

definition sleep_for :: "gotime \<Rightarrow> gotime \<Rightarrow> duration" where
  "sleep_for nx now =
     (if time_is_zero nx then hour
      else let d = time_sub nx now in if d < millisecond then millisecond else d)"

definition wake_at :: "gotime \<Rightarrow> gotime \<Rightarrow> gotime" where
  "wake_at nx now = time_add now (sleep_for nx now)"

inductive run_step :: "queue \<Rightarrow> timer \<Rightarrow> queue \<Rightarrow> timer \<Rightarrow> bool" where
  tick: "tick now q = Some (q', b, c, nx) \<Longrightarrow> zero_time \<le> now \<Longrightarrow> run_step q Ticking q' (Ticked b c nx)"
| wait: "tick_wait b q = Some q' \<Longrightarrow> run_step q (Ticked b c nx) q' (Settled c nx)"
| compact: "Compact now ids keys env q dir = ((q', dir'), Some r) \<Longrightarrow> run_step q (Settled True nx) q' (Settled False nx)"
| sleep: "run_step q (Settled False nx) q (Sleeping nx now)"
| woken: "q_wake q \<Longrightarrow> run_step q (Sleeping nx t) (q\<lparr>q_wake := False\<rparr>) Ticking"
| fired: "wake_at nx t \<le> now \<Longrightarrow> run_step q (Sleeping nx t) q Ticking"
| stopped: "q_done q \<Longrightarrow> run_step q (Sleeping nx t) q Returned"

text \<open>
  A queue with its timer, from the start of the goroutine on, and the number of callers that have enqueued or nacked
  a message and are still before their signal.
\<close>

inductive timed :: "queue \<Rightarrow> timer \<Rightarrow> nat \<Rightarrow> bool" where
  starts: "queue_inv q \<Longrightarrow> timed (start t1 t2 q) Ticking 0"
| runs: "timed q s k \<Longrightarrow> run_step q s q' s' \<Longrightarrow> timed q' s' k"
| enqueued: "timed q s k \<Longrightarrow> Enqueue now rnd pl pr d key q = (q', Inr (res, Some b)) \<Longrightarrow> timed q' s (Suc k)"
| enqueue_returns: "timed q s (Suc k) \<Longrightarrow> Enqueue_wait (res, Some b) q = Some (q', r) \<Longrightarrow> timed q' s k"
| duplicate: "timed q s k \<Longrightarrow> Enqueue now rnd pl pr d key q = (q', Inr (res, None)) \<Longrightarrow> timed q' s k"
| enqueue_refused: "timed q s k \<Longrightarrow> Enqueue now rnd pl pr d key q = (q', Inl e) \<Longrightarrow> timed q' s k"
| leased: "timed q s k \<Longrightarrow> Dequeue now mx v q = (q', r) \<Longrightarrow> timed q' s k"
| acked: "timed q s k \<Longrightarrow> Ack key q = (q', r) \<Longrightarrow> timed q' s k"
| nacked: "timed q s k \<Longrightarrow> Nack now key q = (q', Inr b) \<Longrightarrow> timed q' s (Suc k)"
| nack_returns: "timed q s (Suc k) \<Longrightarrow> Nack_wait b q = Some (q', r) \<Longrightarrow> timed q' s k"
| nack_refused: "timed q s k \<Longrightarrow> Nack now key q = (q', Inl e) \<Longrightarrow> timed q' s k"
| waited: "timed q s k \<Longrightarrow> waitDurable b q = Some (q', r) \<Longrightarrow> timed q' s k"
| compacted: "timed q s k \<Longrightarrow> Compact now ids keys env q dir = ((q', dir'), r) \<Longrightarrow> timed q' s k"
| threshold: "timed q s k \<Longrightarrow> timed (SetCompactThreshold n q) s k"
| flushed: "timed q s k \<Longrightarrow> flusher_step (q_log q) l \<Longrightarrow> timed (q\<lparr>q_log := l\<rparr>) s k"
| closing: "timed q s k \<Longrightarrow> timed (Close_queue q) s k"
| log_closing: "timed q s k \<Longrightarrow> Close_log q = (q', r) \<Longrightarrow> timed q' s k"

section \<open>What a deadline covers\<close>

definition not_after :: "gotime \<Rightarrow> gotime \<Rightarrow> bool" where
  "not_after nx t \<longleftrightarrow> nx \<noteq> zero_time \<and> nx \<le> t"

definition ptrs :: "queue \<Rightarrow> ptr set" where
  "ptrs q = snd ` set (q_byID q)"

text \<open>Nothing of the queue is due before \<open>nx\<close>.\<close>

definition covers :: "gotime \<Rightarrow> queue \<Rightarrow> bool" where
  "covers nx q \<longleftrightarrow>
     (\<forall>p \<in> ptrs q. case m_state (q_mem q p) of
        stateReady \<Rightarrow> agingInterval (q_cfg q) > 0 \<longrightarrow> not_after nx (q_lastAge q + agingInterval (q_cfg q))
      | stateDelayed \<Rightarrow> not_after nx (m_VisibleAt (q_mem q p))
      | stateInFlight \<Rightarrow> not_after nx (m_deadline (q_mem q p))
      | stateDead \<Rightarrow> True) \<and>
     (q_dedup q \<noteq> [] \<longrightarrow> not_after nx (q_lastPurge q + dedupPurgeInterval))"

lemma covers_frame [simp]:
  "covers nx (q\<lparr>q_log := l\<rparr>) = covers nx q" "covers nx (q\<lparr>q_failed := e\<rparr>) = covers nx q"
  "covers nx (q\<lparr>q_counters := c\<rparr>) = covers nx q" "covers nx (q\<lparr>q_wake := w\<rparr>) = covers nx q"
  "covers nx (q\<lparr>q_closed := b\<rparr>) = covers nx q" "covers nx (q\<lparr>q_done := b\<rparr>) = covers nx q"
  "covers nx (q\<lparr>q_compactThreshold := n\<rparr>) = covers nx q" "covers nx (q\<lparr>q_compactFloor := n\<rparr>) = covers nx q"
  "covers nx (bump f q) = covers nx q" "covers nx (bump_dead d q) = covers nx q" "covers nx (signal q) = covers nx q"
  by (simp_all add: covers_def ptrs_def bump_def bump_dead_def signal_def cong: mstate.case_cong)

lemma covers_lists:
  assumes "queue_inv q"
  shows "covers nx q \<longleftrightarrow>
    (\<forall>p \<in> set (q_delayed q). not_after nx (m_VisibleAt (q_mem q p))) \<and>
    (\<forall>p \<in> set (q_inflight q). not_after nx (m_deadline (q_mem q p))) \<and>
    (agingInterval (q_cfg q) > 0 \<and> q_ready q \<noteq> [] \<longrightarrow> not_after nx (q_lastAge q + agingInterval (q_cfg q))) \<and>
    (q_dedup q \<noteq> [] \<longrightarrow> not_after nx (q_lastPurge q + dedupPurgeInterval))"
proof -
  have H: "p \<in> set (q_delayed q) \<longleftrightarrow> p \<in> ptrs q \<and> m_state (q_mem q p) = stateDelayed"
    "p \<in> set (q_inflight q) \<longleftrightarrow> p \<in> ptrs q \<and> m_state (q_mem q p) = stateInFlight" for p
    using inv_holder [OF assms, of p stateDelayed] inv_holder [OF assms, of p stateInFlight] by (simp_all add: ptrs_def)
  have "q_ready q \<noteq> [] \<longleftrightarrow> (\<exists>p. p \<in> set (q_ready q))" by (cases "q_ready q") auto
  then have R: "q_ready q \<noteq> [] \<longleftrightarrow> (\<exists>p. p \<in> ptrs q \<and> m_state (q_mem q p) = stateReady)"
    using inv_holder [OF assms, of _ stateReady] by (simp add: ptrs_def)
  show ?thesis unfolding covers_def H R Ball_def by (auto split: mstate.split)
qed

text \<open>Fewer messages, in the same places, are covered as well.\<close>

lemma covers_mono:
  assumes "covers nx q" and "ptrs q' \<subseteq> ptrs q"
    and "\<And>p. p \<in> ptrs q' \<Longrightarrow> m_state (q_mem q' p) = m_state (q_mem q p)"
    and "\<And>p. p \<in> ptrs q' \<Longrightarrow> m_VisibleAt (q_mem q' p) = m_VisibleAt (q_mem q p)"
    and "\<And>p. p \<in> ptrs q' \<Longrightarrow> m_deadline (q_mem q' p) = m_deadline (q_mem q p)"
    and "q_cfg q' = q_cfg q" "q_lastAge q' = q_lastAge q" "q_dedup q' = q_dedup q" "q_lastPurge q' = q_lastPurge q"
  shows "covers nx q'"
  unfolding covers_def
proof (intro conjI ballI)
  fix p assume p: "p \<in> ptrs q'"
  then have "p \<in> ptrs q" using assms(2) by blast
  then show "case m_state (q_mem q' p) of
      stateReady \<Rightarrow> agingInterval (q_cfg q') > 0 \<longrightarrow> not_after nx (q_lastAge q' + agingInterval (q_cfg q'))
    | stateDelayed \<Rightarrow> not_after nx (m_VisibleAt (q_mem q' p))
    | stateInFlight \<Rightarrow> not_after nx (m_deadline (q_mem q' p))
    | stateDead \<Rightarrow> True"
    using assms(1) by (simp add: covers_def assms(3-5) [OF p] assms(6,7) cong: mstate.case_cong)
qed (use assms(1) in \<open>simp add: covers_def assms(8,9)\<close>)

lemma covers_only_heaps: "only_heaps a b \<Longrightarrow> covers nx a \<Longrightarrow> covers nx b"
  by (rule covers_mono) (simp_all add: ptrs_def only_heaps_fields only_heaps_msg)

lemma only_heaps_wake: "only_heaps q q' \<Longrightarrow> q_wake q' = q_wake q"
proof -
  assume "only_heaps q q'"
  then obtain mem xs ys zs ds where "q' = q\<lparr>q_mem := mem, q_ready := xs, q_delayed := ys, q_inflight := zs, q_dlq := ds\<rparr>"
    by (auto simp: only_heaps_def)
  then show ?thesis by simp
qed

section \<open>What the operations leave to the timer\<close>

text \<open>A queue for which the timer need not be asleep any more: it has been signalled, or nothing is scheduled in it.\<close>

definition busy :: "queue \<Rightarrow> bool" where
  "busy q \<longleftrightarrow> q_wake q \<or> checkLocked q \<noteq> None"

lemma busy_frame [simp]:
  "busy (q\<lparr>q_log := l\<rparr>) = busy q" "busy (bump f q) = busy q" "busy (bump_dead d q) = busy q" "busy (signal q)"
  "busy (q\<lparr>q_failed := Some e\<rparr>)" "busy (q\<lparr>q_compactThreshold := n\<rparr>) = busy q"
  by (simp_all add: busy_def checkLocked_def bump_def bump_dead_def signal_def)

lemma busy_map_msgs [simp]: "busy (map_msgs f q) = busy q"
  by (auto simp: busy_def checkLocked_def map_msgs_def)

lemma busy_only_heaps: "only_heaps q q' \<Longrightarrow> busy q' = busy q"
  by (simp add: busy_def checkLocked_def only_heaps_fields only_heaps_wake)

definition heeded :: "queue \<Rightarrow> queue \<Rightarrow> bool" where
  "heeded q q' \<longleftrightarrow> queue_inv q' \<and> (busy q \<longrightarrow> busy q') \<and> (\<forall>nx. covers nx q \<longrightarrow> covers nx q' \<or> busy q')"

lemma heeded_refl [simp]: "heeded q q = queue_inv q"
  by (simp add: heeded_def)

lemma append_heeded:
  assumes "append_log t p q = (q', r)" and "queue_inv q"
  shows "heeded q q'" and "r = Inr b \<Longrightarrow> q' = q\<lparr>q_log := q_log q'\<rparr>"
  using append_log_inv [OF assms] assms(1)
  by (auto simp: append_log_def heeded_def split: prod.splits sum.splits)

lemma Enqueue_heeded:
  assumes inv: "queue_inv q" and run: "Enqueue now rnd pl pr d key q = (q', r)"
  shows "\<nexists>res b. r = Inr (res, Some b) \<Longrightarrow> heeded q q'" and "queue_inv q'" and "busy q \<Longrightarrow> busy q'"
proof -
  let ?m = "new_message now rnd pl pr d key q"
  have "((\<nexists>res b. r = Inr (res, Some b)) \<longrightarrow> heeded q q') \<and> queue_inv q' \<and> (busy q \<longrightarrow> busy q')"
  proof (cases "checkLocked q = None \<and> dedup_hit now key q = None")
    case False
    then show ?thesis using run inv by (auto simp: Enqueue_def heeded_def split: option.splits)
  next
    case True
    obtain q1 a where ap: "append_log TypeEnqueue (encodeMessage ?m) q = (q1, a)" by (metis prod.exhaust)
    note H = append_heeded [OF ap inv]
    have run': "(case a of Inl e \<Rightarrow> (q1, Inl e) | Inr batch \<Rightarrow> (case applyEnqueue ?m now q1 of Inl e \<Rightarrow> (q1, Inl e)
        | Inr q \<Rightarrow> (bump (\<lambda>c. c\<lparr>n_Enqueued := n_Enqueued c + 1\<rparr>) q,
            Inr (\<lparr>er_ID = m_ID ?m, er_Seq = m_Seq ?m, er_VisibleAt = m_VisibleAt ?m, er_Duplicate = False\<rparr>, Some batch)))) = (q', r)"
      using run True ap by (simp add: Enqueue_def enqueue_new_def Let_def)
    show ?thesis
    proof (cases "\<exists>b q2. a = Inr b \<and> applyEnqueue ?m now q1 = Inr q2")
      case False
      then have "q' = q1" using run' by (cases a; cases "applyEnqueue ?m now q1") auto
      then show ?thesis using H(1) by (simp add: heeded_def)
    next
      case applied: True
      then obtain b q2 where A: "a = Inr b" "applyEnqueue ?m now q1 = Inr q2" by blast
      then have q': "q' = bump (\<lambda>c. c\<lparr>n_Enqueued := n_Enqueued c + 1\<rparr>) q2" "\<exists>res b. r = Inr (res, Some b)"
        using run' by auto
      have inv1: "queue_inv q1" using H(1) by (simp add: heeded_def)
      have "map_of (q_byID q1) (m_ID ?m) = None" using A(2) by (auto simp: applyEnqueue_def split: if_splits)
      from applyEnqueue_spec [OF inv1 this, of now] A(2) have o: "queue_inv q2"
        "only_heaps (upd (q_brk q1) (filed_msg (q_cfg q1) now) (registered ?m q1)) q2" by auto
      have "busy q2 = busy q1"
        using busy_only_heaps [OF o(2)] by (simp add: busy_def checkLocked_def registered_def upd_def)
      then show ?thesis using q' o(1) H(1) by (simp add: heeded_def)
    qed
  qed
  then show "\<nexists>res b. r = Inr (res, Some b) \<Longrightarrow> heeded q q'" "queue_inv q'" "busy q \<Longrightarrow> busy q'" by blast+
qed

lemma waitDurable_heeded:
  assumes "queue_inv q" and "waitDurable b q = Some (q', r)"
  shows "heeded q q'" and "r = None \<or> busy q'"
  using assms
  by (auto simp: waitDurable_def heeded_def busy_def checkLocked_def split: option.splits if_splits)

lemma wait_heeded:
  assumes "queue_inv q"
  shows "Enqueue_wait (res, Some b) q = Some (q', r) \<Longrightarrow> queue_inv q' \<and> busy q'"
    and "Nack_wait b q = Some (q', e) \<Longrightarrow> queue_inv q' \<and> busy q'"
  using waitDurable_heeded [OF assms, of b]
  by (auto simp: Enqueue_wait_def Nack_wait_def heeded_def split: option.splits)

lemma Ack_heeded:
  assumes inv: "queue_inv q" and run: "Ack key q = (q', r)"
  shows "heeded q q'"
proof (cases "checkLocked q")
  case up: None
  obtain q1 a where ap: "append_log TypeAck (bytes_of key) q = (q1, a)" by (metis prod.exhaust)
  note H = append_heeded [OF ap inv]
  have inv1: "queue_inv q1" using H(1) by (simp add: heeded_def)
  consider "q' = q" | "q' = q1"
    | q2 b p where "a = Inr b" "map_of (q_byID q1) key = Some p" "applyAck key q1 = Inr q2"
        "q' = bump (\<lambda>c. c\<lparr>n_Acked := n_Acked c + 1\<rparr>) q2"
    using run up ap append_log_frame(2) [OF ap]
    by (cases "map_of (q_byID q) key"; cases a; cases "applyAck key q1") (auto simp: Ack_def split: if_splits)
  then show ?thesis
  proof cases
    case 3
    from applyAck_spec [OF inv1 3(2)] 3(3) have o: "queue_inv q2"
      "only_heaps (q1\<lparr>q_byID := AList.delete key (q_byID q1)\<rparr>) q2" by auto
    have "busy q2 = busy q1" using busy_only_heaps [OF o(2)] by (simp add: busy_def checkLocked_def)
    moreover have "covers nx (q1\<lparr>q_byID := AList.delete key (q_byID q1)\<rparr>)" if "covers nx q1" for nx
      by (rule covers_mono [OF that]) (auto simp: ptrs_def AList.delete_eq)
    ultimately show ?thesis
      using o(1) H(1) covers_only_heaps [OF o(2)] unfolding heeded_def 3(4) by auto
  qed (use H(1) inv in simp_all)
qed (use run inv in \<open>simp add: Ack_def\<close>)

lemma Nack_heeded:
  assumes inv: "queue_inv q" and run: "Nack now key q = (q', r)"
  shows "r = Inl e \<Longrightarrow> heeded q q'" and "queue_inv q'" and "busy q \<Longrightarrow> busy q'"
proof -
  have "(\<forall>e. r = Inl e \<longrightarrow> heeded q q') \<and> queue_inv q' \<and> (busy q \<longrightarrow> busy q')"
  proof (cases "checkLocked q")
    case up: None
    obtain q1 a where ap: "append_log TypeNack (bytes_of key) q = (q1, a)" by (metis prod.exhaust)
    note H = append_heeded [OF ap inv]
    have inv1: "queue_inv q1" using H(1) by (simp add: heeded_def)
    consider "q' = q" | "q' = q1"
      | q2 d b p where "map_of (q_byID q1) key = Some p" "applyAttempt key now q1 = Inr (q2, d)"
          "q' = bump_dead d (bump (\<lambda>c. c\<lparr>n_Nacked := n_Nacked c + 1\<rparr>) q2)" "r = Inr b"
      using run up ap append_log_frame(2) [OF ap]
      by (cases "map_of (q_byID q) key"; cases a; cases "applyAttempt key now q1") (auto simp: Nack_def split: if_splits)
    then show ?thesis
    proof cases
      case 3
      from applyAttempt_spec [OF inv1 3(1), of now] 3(2) have o: "queue_inv q2"
        "only_heaps (upd p (attempted_msg (q_cfg q1) now) q1) q2" by auto
      have "busy q2 = busy q1" using busy_only_heaps [OF o(2)] by (simp add: busy_def checkLocked_def upd_def)
      then show ?thesis using o(1) H(1) unfolding heeded_def 3(3,4) by auto
    qed (use H(1) inv in \<open>auto simp: heeded_def\<close>)
  qed (use run inv in \<open>simp add: Nack_def\<close>)
  then show "r = Inl e \<Longrightarrow> heeded q q'" "queue_inv q'" "busy q \<Longrightarrow> busy q'" by blast+
qed

lemma Compact_heeded:
  assumes inv: "queue_inv q" and run: "Compact now ids keys env q dir = ((q', dir'), r)"
  shows "heeded q q'"
  using run
proof (cases rule: Compact_outcome)
  case ended
  then show ?thesis
    using inv by (auto simp: abandoned_def swapped_def heeded_def) (simp_all add: busy_def checkLocked_def)
qed (use inv in \<open>auto simp: heeded_def\<close>)

text \<open>Promotion does not change when anything else is due.\<close>

lemma promoteDue_covers:
  assumes inv: "queue_inv q" and none: "q_ready (promoteDue now q) = []" and c: "covers nx q"
  shows "covers nx (promoteDue now q)"
proof -
  note P = promoteDue_spec [OF inv, of now]
  let ?q = "map_msgs (promoted now q) q"
  have state: "m_state (q_mem ?q p) \<noteq> stateReady" if "p \<in> ptrs q" for p
    using inv_holder [of "promoteDue now q" p stateReady] P none that only_heaps_fields(6) [of ?q "promoteDue now q"]
      only_heaps_msg(9) [of ?q "promoteDue now q" p] by (simp add: ptrs_def)
  have same: "q_mem ?q p = q_mem q p" if "p \<in> ptrs q" for p
    using state [OF that] by (auto simp: promoted_def placed_msg_def same_state delayed_state [OF inv])
  have "covers nx ?q" by (rule covers_mono [OF c]) (simp_all add: ptrs_def same [unfolded ptrs_def map_msgs_simps] map_msgs_def)
  then show ?thesis using P covers_only_heaps by blast
qed

lemma Dequeue_heeded:
  assumes inv: "queue_inv q" and run: "Dequeue now mx v q = (q', r)"
  shows "heeded q q'"
proof (cases "checkLocked q")
  case up: None
  let ?n = "if mx \<le> 0 then 1 else mx" and ?v = "if v \<le> 0 then visibilityTimeout (q_cfg (promoteDue now q)) else v"
  note P = promoteDue_spec [OF inv, of now]
  obtain q1 out where loop: "dequeue_loop now ?v ?n (promoteDue now q) = (q1, out)" by (metis prod.exhaust)
  have q': "q' = (if out \<noteq> [] then signal (bump (\<lambda>c. c\<lparr>n_Dequeued := n_Dequeued c + of_nat (length out)\<rparr>) q1)
      else bump (\<lambda>c. c\<lparr>n_Dequeued := n_Dequeued c + of_nat (length out)\<rparr>) q1)"
    using run up loop by (simp add: Dequeue_def Let_def split: if_splits)
  from dequeue_loop_spec [OF _ loop] P obtain ps where D: "dequeued now ?v (promoteDue now q) ps q1"
    "length ps = min (nat ?n) (length (q_ready (promoteDue now q)))" "length out = length ps"
    by (metis length_map)
  have inv1: "queue_inv q1" using D(1) by (simp add: dequeued_def)
  show ?thesis
  proof (cases "out = []")
    case True
    then have ps: "ps = []" "q_ready (promoteDue now q) = []" using D(2,3) by (auto simp: min_def split: if_splits)
    have o: "only_heaps (map_msgs (leased_in {} now ?v) (promoteDue now q)) q1" using D(1) ps(1) by (simp add: dequeued_def)
    have "busy q1 = busy q"
      using busy_only_heaps [OF o] busy_only_heaps [of "map_msgs (promoted now q) q" "promoteDue now q"] P
      by simp
    moreover have "covers nx q1" if "covers nx q" for nx
      by (rule covers_only_heaps [OF o], rule covers_mono [OF promoteDue_covers [OF inv ps(2) that]])
        (simp_all add: ptrs_def leased_in_def map_msgs_def)
    ultimately show ?thesis using inv1 True by (simp add: heeded_def q')
  qed (simp add: heeded_def q' inv1)
qed (use run inv in \<open>simp add: Dequeue_def Let_def\<close>)

section \<open>The deadline a tick finds\<close>

definition none_delayed :: "gotime \<Rightarrow> queue \<Rightarrow> bool" where
  "none_delayed now q \<longleftrightarrow> (\<forall>p \<in> ptrs q. m_state (q_mem q p) = stateDelayed \<longrightarrow> now < m_VisibleAt (q_mem q p))"

lemma expire_none_delayed:
  "expire_loop fuel now b q = Some (q', b') \<Longrightarrow> queue_inv q \<Longrightarrow> none_delayed now q \<Longrightarrow> none_delayed now q'"
proof (induction fuel arbitrary: b q)
  case 0
  then show ?case by (subst (asm) expire_loop.simps) (simp split: if_splits)
next
  case (Suc fuel)
  show ?case
  proof (cases "q_inflight q = [] \<or> m_deadline (q_mem q (hd (q_inflight q))) > now")
    case True
    then have "q' = q" using Suc.prems(1) by (subst (asm) expire_loop.simps) (auto simp: msg_def)
    then show ?thesis using Suc.prems(3) by simp
  next
    case False
    let ?p = "hd (q_inflight q)"
    let ?id = "m_ID (q_mem q ?p)"
    obtain q1 a where ap: "append_log TypeLeaseExpire (bytes_of ?id) q = (q1, a)" by (metis prod.exhaust)
    have same: "none_delayed now q1 = none_delayed now q"
      by (simp add: none_delayed_def ptrs_def append_log_frame [OF ap])
    show ?thesis
    proof (cases a)
      case (Inl e)
      then have "q' = q1" using Suc.prems(1) False ap by (subst (asm) expire_loop.simps) (simp add: msg_def Let_def)
      then show ?thesis using same Suc.prems(3) by simp
    next
      case (Inr batch)
      from expire_round [OF Suc.prems(2) _ ap [unfolded Inr], of now] False obtain q2 d where
        q2: "applyAttempt ?id now q1 = Inr (q2, d)" "queue_inv q2" by auto
      have inv1: "queue_inv q1" by (rule append_log_inv [OF ap Suc.prems(2)])
      obtain p where p: "map_of (q_byID q1) ?id = Some p" using q2(1) by (auto simp: applyAttempt_def split: option.splits)
      from applyAttempt_spec [OF inv1 p, of now] q2(1) have o: "only_heaps (upd p (attempted_msg (q_cfg q1) now) q1) q2" by auto
      have "none_delayed now q2"
        using same Suc.prems(3) attempted_state [of "q_cfg q1" now "q_mem q1 p"]
        by (auto simp: none_delayed_def ptrs_def only_heaps_fields [OF o] only_heaps_msg [OF o])
      then have n: "none_delayed now (bump_dead d (bump (\<lambda>c. c\<lparr>n_Expired := n_Expired c + 1\<rparr>) q2))"
        by (simp add: none_delayed_def ptrs_def bump_dead_def bump_def)
      have "expire_loop fuel now (if batch > b then batch else b)
          (bump_dead d (bump (\<lambda>c. c\<lparr>n_Expired := n_Expired c + 1\<rparr>) q2)) = Some (q', b')"
        using Suc.prems(1) False ap Inr q2(1) by (subst (asm) expire_loop.simps) (simp add: msg_def Let_def)
      from Suc.IH [OF this _ n] q2(2) show ?thesis by simp
    qed
  qed
qed

text \<open>When everything is due after \<open>now\<close>, the next deadline covers it all.\<close>

lemma next_covers:
  assumes inv: "queue_inv q" and later: "covers (now + 1) q" and now: "zero_time \<le> now"
  shows "covers (nextDeadlineLocked q) q"
proof -
  note L = later [unfolded covers_lists [OF inv] not_after_def]
  have "q_delayed q \<noteq> [] \<Longrightarrow> now + 1 \<le> m_VisibleAt (q_mem q (hd (q_delayed q)))"
    "q_inflight q \<noteq> [] \<Longrightarrow> now + 1 \<le> m_deadline (q_mem q (hd (q_inflight q)))"
    using L hd_in_set by blast+
  moreover have "agingInterval (q_cfg q) > 0 \<and> q_ready q \<noteq> [] \<Longrightarrow> now + 1 \<le> q_lastAge q + agingInterval (q_cfg q)"
    "q_dedup q \<noteq> [] \<Longrightarrow> now + 1 \<le> q_lastPurge q + dedupPurgeInterval" using L by blast+
  ultimately have "now + 1 \<le> t" if "t \<in> set (deadlines q)" for t using that by (auto simp: deadlines_def split: if_splits)
  with now have pos: "\<forall>t \<in> set (deadlines q). zero_time < t" by fastforce
  note E = fold_consider_earliest [OF pos, where n = zero_time, folded nextDeadline_fold not_after_def]
  have mem: "q_delayed q \<noteq> [] \<Longrightarrow> m_VisibleAt (q_mem q (hd (q_delayed q))) \<in> set (deadlines q)"
    "q_inflight q \<noteq> [] \<Longrightarrow> m_deadline (q_mem q (hd (q_inflight q))) \<in> set (deadlines q)"
    "agingInterval (q_cfg q) > 0 \<and> q_ready q \<noteq> [] \<Longrightarrow> q_lastAge q + agingInterval (q_cfg q) \<in> set (deadlines q)"
    "q_dedup q \<noteq> [] \<Longrightarrow> q_lastPurge q + dedupPurgeInterval \<in> set (deadlines q)"
    by (simp_all add: deadlines_def)
  have up: "not_after n s \<Longrightarrow> s \<le> t \<Longrightarrow> not_after n t" for n s t by (simp add: not_after_def)
  have "not_after (nextDeadlineLocked q) (m_VisibleAt (q_mem q p))" if p: "p \<in> set (q_delayed q)" for p
    by (rule up [OF E [OF mem(1)] heads_are_earliest(1) [OF inv p]]) (use p in auto)
  moreover have "not_after (nextDeadlineLocked q) (m_deadline (q_mem q p))" if p: "p \<in> set (q_inflight q)" for p
    by (rule up [OF E [OF mem(2)] heads_are_earliest(2) [OF inv p]]) (use p in auto)
  ultimately show ?thesis using E [OF mem(3)] E [OF mem(4)] unfolding covers_lists [OF inv] by blast
qed

lemma interval_passes: "in_i64 iv \<Longrightarrow> time_sub now t < iv \<Longrightarrow> now + 1 \<le> t + iv"
  by (auto simp: time_sub_def in_i64_def)

lemma agePriorities_frame:
  assumes inv: "queue_inv q"
  shows "ptrs (agePriorities now q) = ptrs q \<and> q_cfg (agePriorities now q) = q_cfg q \<and>
    q_failed (agePriorities now q) = q_failed q \<and> q_lastPurge (agePriorities now q) = q_lastPurge q \<and>
    m_state (q_mem (agePriorities now q) p) = m_state (q_mem q p) \<and>
    m_VisibleAt (q_mem (agePriorities now q) p) = m_VisibleAt (q_mem q p) \<and>
    m_deadline (q_mem (agePriorities now q) p) = m_deadline (q_mem q p)"
proof (cases "aging_due now q")
  case True
  note A = agePriorities_due(2) [OF inv True]
  show ?thesis
    using only_heaps_fields(1,6,9,11) [OF A] only_heaps_msg [OF A, of p] by (simp add: ptrs_def aged_in_def aged_def map_msgs_def)
qed (simp add: agePriorities_not_due)

lemma agePriorities_later:
  assumes inv: "queue_inv q" and now: "zero_time \<le> now" and n: "none_delayed now q"
    and l: "\<forall>p \<in> set (q_inflight q). now < m_deadline (q_mem q p)"
  shows "covers (now + 1) (purge_dedup now (agePriorities now q))"
proof -
  let ?q = "agePriorities now q" and ?iv = "agingInterval (q_cfg q)"
  note F = agePriorities_frame [OF inv, of now]
  have lease: "p \<in> ptrs q \<Longrightarrow> m_state (q_mem q p) = stateInFlight \<Longrightarrow> now < m_deadline (q_mem q p)" for p
    using l inv_holder [OF inv, of p stateInFlight] by (simp add: ptrs_def)
  have age: "now + 1 \<le> q_lastAge ?q + ?iv" if p: "p \<in> ptrs q" "m_state (q_mem q p) = stateReady" and iv: "0 < ?iv" for p
  proof (cases "aging_due now q")
    case True
    then have "q_lastAge ?q = now" using only_heaps_fields(10) [OF agePriorities_due(2) [OF inv True]] by (simp add: map_msgs_def)
    then show ?thesis using iv by simp
  next
    case False
    have "q_ready q \<noteq> []" using p inv_holder [OF inv, of p stateReady] by (auto simp: ptrs_def)
    then have "time_sub now (q_lastAge q) < ?iv" using False iv by (auto simp: aging_due_def)
    then show ?thesis using interval_passes [of ?iv] False by (simp add: agePriorities_not_due agingInterval_def millis_def)
  qed
  have purge: "now + 1 \<le> q_lastPurge (purge_dedup now ?q) + dedupPurgeInterval"
    using interval_passes [of dedupPurgeInterval now "q_lastPurge q"]
    by (auto simp: purge_dedup_def dedupPurgeInterval_def in_i64_def min_i64_def max_i64_def F not_le)
  show ?thesis
    unfolding covers_def
  proof (intro conjI ballI)
    fix p assume "p \<in> ptrs (purge_dedup now ?q)"
    then have p: "p \<in> ptrs q" by (simp add: ptrs_def purge_dedup_def F [unfolded ptrs_def] split: if_splits)
    have "q_mem (purge_dedup now ?q) = q_mem ?q" "q_cfg (purge_dedup now ?q) = q_cfg ?q"
      "q_lastAge (purge_dedup now ?q) = q_lastAge ?q" by (simp_all add: purge_dedup_def)
    then show "case m_state (q_mem (purge_dedup now ?q) p) of
        stateReady \<Rightarrow> 0 < agingInterval (q_cfg (purge_dedup now ?q)) \<longrightarrow>
          not_after (now + 1) (q_lastAge (purge_dedup now ?q) + agingInterval (q_cfg (purge_dedup now ?q)))
      | stateDelayed \<Rightarrow> not_after (now + 1) (m_VisibleAt (q_mem (purge_dedup now ?q) p))
      | stateInFlight \<Rightarrow> not_after (now + 1) (m_deadline (q_mem (purge_dedup now ?q) p))
      | stateDead \<Rightarrow> True"
      using n p lease [OF p] age [OF p] now
      by (auto simp: F not_after_def none_delayed_def split: mstate.split)
  qed (use purge now in \<open>simp add: not_after_def\<close>)
qed

lemma tick_covers:
  assumes inv: "queue_inv q" and now: "zero_time \<le> now" and run: "tick now q = Some (q', b, c, nx)"
  shows "queue_inv q'" and "checkLocked q' = None \<Longrightarrow> covers nx q'"
proof -
  have "queue_inv q' \<and> (checkLocked q' = None \<longrightarrow> covers nx q')"
  proof (cases "checkLocked q")
    case (Some e)
    then have "q' = q" using run by (auto simp: tick_def checkLocked_def split: if_splits)
    then show ?thesis using inv Some by simp
  next
    case None
    let ?q = "promoteDue now q"
    note P = promoteDue_spec [OF inv, of now]
    then have invp: "queue_inv ?q" by blast
    have "none_delayed now ?q" using P inv_holder [OF invp, of _ stateDelayed] by (simp add: none_delayed_def ptrs_def)
    from expire_loop_total [OF invp order_refl, of now 0] obtain q1 b1 where
      ex: "expire_loop (length (q_inflight ?q)) now 0 ?q = Some (q1, b1)" and inv1: "queue_inv q1"
      and late: "q_failed q1 = None \<longrightarrow> (\<forall>p \<in> set (q_inflight q1). now < m_deadline (q_mem q1 p))" by auto
    have n: "none_delayed now q1" by (rule expire_none_delayed [OF ex invp \<open>none_delayed now ?q\<close>])
    have q': "q' = purge_dedup now (agePriorities now q1)" "nx = nextDeadlineLocked q'"
      using run ex None by (auto simp: tick_def checkLocked_def Let_def split: if_splits)
    have inv': "queue_inv q'" using agePriorities_inv [OF inv1] by (simp add: q' purge_dedup_def)
    moreover have "covers nx q'" if "checkLocked q' = None"
    proof -
      have "q_failed q1 = None" using that agePriorities_frame [OF inv1, of now] by (auto simp: q' checkLocked_def purge_dedup_def split: if_splits)
      then have "covers (now + 1) q'" unfolding q'(1) by (intro agePriorities_later inv1 now n) (use late in blast)
      then show ?thesis using next_covers [OF inv' _ now] q'(2) by simp
    qed
    ultimately show ?thesis by blast
  qed
  then show "queue_inv q'" "checkLocked q' = None \<Longrightarrow> covers nx q'" by blast+
qed

section \<open>No wake-up is lost\<close>

text \<open>The deadline the goroutine is about to sleep until, or sleeps until.\<close>

fun planned :: "timer \<Rightarrow> gotime option" where
  "planned (Ticked b c nx) = Some nx"
| "planned (Settled c nx) = Some nx"
| "planned (Sleeping nx t) = Some nx"
| "planned _ = None"

definition timer_inv :: "queue \<Rightarrow> timer \<Rightarrow> nat \<Rightarrow> bool" where
  "timer_inv q s k \<longleftrightarrow> queue_inv q \<and> (\<forall>nx. planned s = Some nx \<longrightarrow> busy q \<or> 0 < k \<or> covers nx q)"

lemma heeded_timer_inv: "timer_inv q s k \<Longrightarrow> (queue_inv q \<Longrightarrow> heeded q q') \<Longrightarrow> planned s' = planned s \<Longrightarrow> timer_inv q' s' k"
  by (auto simp: timer_inv_def heeded_def)

text \<open>Calls that return with the queue busy, and calls after which a signal is still to come.\<close>

lemma busy_timer_inv: "timer_inv q s k \<Longrightarrow> (queue_inv q \<Longrightarrow> queue_inv q' \<and> busy q') \<Longrightarrow> timer_inv q' s j"
  by (simp add: timer_inv_def)

lemma owed_timer_inv: "timer_inv q s k \<Longrightarrow> (queue_inv q \<Longrightarrow> queue_inv q') \<Longrightarrow> timer_inv q' s (Suc j)"
  by (simp add: timer_inv_def)

lemma tick_wait_heeded: "queue_inv q \<Longrightarrow> tick_wait b q = Some q' \<Longrightarrow> heeded q q'"
  using waitDurable_heeded(1) [of q b] by (auto simp: tick_wait_def split: if_splits)

lemma run_step_inv:
  assumes "run_step q s q' s'" and inv: "timer_inv q s k"
  shows "timer_inv q' s' k"
  using assms(1)
proof cases
  case (tick now b c nx)
  have "queue_inv q" using inv by (simp add: timer_inv_def)
  from tick_covers [OF this tick(4,3)] show ?thesis using tick(2) by (auto simp: timer_inv_def busy_def)
next
  case (wait b c nx)
  show ?thesis by (rule heeded_timer_inv [OF inv]) (use wait tick_wait_heeded in auto)
next
  case (compact now ids keys env dir dir' r nx)
  show ?thesis by (rule heeded_timer_inv [OF inv]) (use compact Compact_heeded in auto)
qed (use inv in \<open>auto simp: timer_inv_def\<close>)

lemma timed_inv: "timed q s k \<Longrightarrow> timer_inv q s k"
proof (induction rule: timed.induct)
  case (starts q t1 t2)
  then show ?case by (simp add: timer_inv_def start_def)
next
  case (runs q s k q' s')
  then show ?case using run_step_inv by blast
next
  case (enqueued q s k now rnd pl pr d key q' res b)
  show ?case by (rule owed_timer_inv [OF enqueued.IH]) (rule Enqueue_heeded(2) [OF _ enqueued.hyps(2)])
next
  case (enqueue_returns q s k res b q' r)
  show ?case by (rule busy_timer_inv [OF enqueue_returns.IH]) (rule wait_heeded(1) [OF _ enqueue_returns.hyps(2)])
next
  case (duplicate q s k now rnd pl pr d key q' res)
  show ?case by (rule heeded_timer_inv [OF duplicate.IH]) (simp_all add: Enqueue_heeded(1) [OF _ duplicate.hyps(2)])
next
  case (enqueue_refused q s k now rnd pl pr d key q' e)
  show ?case by (rule heeded_timer_inv [OF enqueue_refused.IH]) (simp_all add: Enqueue_heeded(1) [OF _ enqueue_refused.hyps(2)])
next
  case (leased q s k now mx v q' r)
  show ?case by (rule heeded_timer_inv [OF leased.IH]) (simp_all add: Dequeue_heeded [OF _ leased.hyps(2)])
next
  case (acked q s k key q' r)
  show ?case by (rule heeded_timer_inv [OF acked.IH]) (simp_all add: Ack_heeded [OF _ acked.hyps(2)])
next
  case (nacked q s k now key q' b)
  show ?case by (rule owed_timer_inv [OF nacked.IH]) (rule Nack_heeded(2) [OF _ nacked.hyps(2)])
next
  case (nack_returns q s k b q' r)
  show ?case by (rule busy_timer_inv [OF nack_returns.IH]) (rule wait_heeded(2) [OF _ nack_returns.hyps(2)])
next
  case (nack_refused q s k now key q' e)
  show ?case by (rule heeded_timer_inv [OF nack_refused.IH]) (simp_all add: Nack_heeded(1) [OF _ nack_refused.hyps(2)])
next
  case (waited q s k b q' r)
  show ?case by (rule heeded_timer_inv [OF waited.IH]) (simp_all add: waitDurable_heeded(1) [OF _ waited.hyps(2)])
next
  case (compacted q s k now ids keys env dir q' dir' r)
  show ?case by (rule heeded_timer_inv [OF compacted.IH]) (simp_all add: Compact_heeded [OF _ compacted.hyps(2)])
next
  case (threshold q s k n)
  then show ?case by (simp add: timer_inv_def SetCompactThreshold_def)
next
  case (flushed q s k l)
  then show ?case by (simp add: timer_inv_def)
next
  case (closing q s k)
  then show ?case by (simp add: timer_inv_def Close_queue_def busy_def checkLocked_def)
next
  case (log_closing q s k q' r)
  then show ?case by (auto simp: timer_inv_def Close_log_def split: prod.splits)
qed

section \<open>The timer never oversleeps\<close>

lemma wake_at_le: "not_after nx due \<Longrightarrow> wake_at nx t \<le> max due (t + millisecond)"
  by (auto simp: not_after_def wake_at_def sleep_for_def time_add_def time_is_zero_def time_sub_def millisecond_def Let_def
      min_i64_def max_def min_def)

text \<open>C13: the timer never oversleeps. However calls, waits, compactions and ticks interleave, while the timer's goroutine
  sleeps, no signal is pending, no caller is before its signal, and the queue is in working order, it wakes, up
  to the millisecond it always sleeps, no later than the next message becomes visible, the next lease
  expires, the next aging round is due while messages are ready, and the next purge is due while
  deduplication ids are kept. So no wake-up is lost: what brings a deadline forward signals.\<close>

theorem timer_never_oversleeps:
  assumes "timed q (Sleeping nx t) 0" and "\<not> q_wake q" and "checkLocked q = None"
  shows "(\<forall>p \<in> set (q_delayed q). wake_at nx t \<le> max (m_VisibleAt (q_mem q p)) (t + millisecond)) \<and>
    (\<forall>p \<in> set (q_inflight q). wake_at nx t \<le> max (m_deadline (q_mem q p)) (t + millisecond)) \<and>
    (agingInterval (q_cfg q) > 0 \<and> q_ready q \<noteq> [] \<longrightarrow>
       wake_at nx t \<le> max (q_lastAge q + agingInterval (q_cfg q)) (t + millisecond)) \<and>
    (q_dedup q \<noteq> [] \<longrightarrow> wake_at nx t \<le> max (q_lastPurge q + dedupPurgeInterval) (t + millisecond))"
proof -
  have "timer_inv q (Sleeping nx t) 0" by (rule timed_inv [OF assms(1)])
  then have "queue_inv q" "covers nx q" using assms(2,3) by (auto simp: timer_inv_def busy_def)
  then show ?thesis using covers_lists wake_at_le by blast
qed

text \<open>A tick five nanoseconds after the start finds a lease.\<close>

theorem timer_never_oversleeps_witness:
  "timed (start 1600000000000000000 1600000000000000000 (sample_one stateInFlight))
     (Sleeping 1700000000000000009 1600000000000000006) 0 \<and>
   wake_at 1700000000000000009 1600000000000000006 \<le> 1700000000000000009"
proof -
  define q where "q = start 1600000000000000000 1600000000000000000 (sample_one stateInFlight)"
  have f: "q_failed q = None" "q_closed q = False" "q_delayed q = []" "q_inflight q = [0]" "q_ready q = []" "q_dedup q = []"
    "q_cfg q = sample_valid" "m_deadline (q_mem q 0) = 1700000000000000009" "q_lastPurge q = 1600000000000000000"
    "q_log q = fresh_log ''wal.log'' [] 0"
    by (simp_all add: q_def start_def sample_message_def)
  have g: "\<not> q_wake q" "q_compactThreshold q = defaultCompactThreshold"
    by (simp_all add: q_def start_def sample_one_def sample_empty_def newQueue_def)
  have "promoteDue now q = q" for now using f by (subst promoteDue.simps) simp
  moreover have "expire_loop n 1600000000000000005 0 q = Some (q, 0)" for n using f by (subst expire_loop.simps) (simp add: msg_def)
  moreover have "agePriorities now q = q" for now using f by (simp add: agePriorities_def Let_def)
  moreover have "purge_dedup 1600000000000000005 q = q"
    using f by (simp add: purge_dedup_def time_sub_def dedupPurgeInterval_def min_i64_def max_i64_def)
  moreover have "nextDeadlineLocked q = 1700000000000000009"
    using f by (simp add: nextDeadlineLocked_def consider_deadline_def msg_def time_is_zero_def zero_time_def)
  ultimately have "tick 1600000000000000005 q = Some (q, 0, False, 1700000000000000009)"
    using f g by (simp add: tick_def Let_def log_Size_def fresh_log_def defaultCompactThreshold_def)
  then have "run_step q Ticking q (Ticked 0 False 1700000000000000009)" by (rule run_step.tick) (simp add: zero_time_def)
  moreover have "run_step q (Ticked 0 False nx) q (Settled False nx)" for nx by (rule run_step.wait) (simp add: tick_wait_def)
  moreover have "timed q Ticking 0" unfolding q_def by (rule timed.starts [OF sample_one_inv])
  ultimately have "timed q (Sleeping 1700000000000000009 1600000000000000006) 0" by (meson timed.runs run_step.sleep)
  from this timer_never_oversleeps [OF this g(1)] show ?thesis using f by (simp add: q_def checkLocked_def millisecond_def)
qed

end
