(* ===== verification/Sample_Life.thy ===== *)
theory Sample_Life
  imports Queue_Props
begin

text \<open>
  A queue at work, for the witnesses: it is created under \<open>data/jobs\<close>, and its flusher has written the
  META record.
\<close>

definition sample_env :: open_env where
  "sample_env = \<lparr>oe_MkdirAll = None, oe_OpenFile = Inr [], oe_Stat = None, oe_Truncate = None, oe_Sync = None,
     oe_syncDir_open = None, oe_syncDir_sync = None\<rparr>"

definition sample_meta :: "byte list" where
  "sample_meta = encodeConfig sample_valid"

definition sample_made :: queue where
  "sample_made = (newQueue ''data/jobs'')\<lparr>q_cfg := sample_valid, q_path := ''data/jobs/wal.log'',
     q_log := fst (Append TypeMeta sample_meta (fresh_log ''data/jobs/wal.log'' [] 0))\<rparr>"

definition sample_woken :: queue where
  "sample_woken = sample_made\<lparr>q_log := (q_log sample_made)\<lparr>l_signal := False, l_flusher := Starting False\<rparr>\<rparr>"

definition sample_taken :: queue where
  "sample_taken = sample_woken\<lparr>q_log := flush_begin False (q_log sample_woken)\<rparr>"

definition sample_running :: queue where
  "sample_running = sample_taken\<lparr>q_log := flush_end (Encode [] TypeMeta sample_meta) 1 1 False Written 0 (q_log sample_taken)\<rparr>"

lemmas sample_life_defs = sample_made_def sample_woken_def sample_taken_def sample_running_def fresh_log_def
  Append_def kick_def flush_begin_def flush_end_def writeSync_def

lemma sample_Create: "Create_begin ''data'' sample_config False NotExist sample_env = Inr (sample_made, 1)"
  by (simp add: Create_begin_def sample_validates Open_def sample_env_def syncDir_def path_join_def logFileName_def
      sample_life_defs sample_meta_def) (simp add: sample_valid_def Let_def)

lemma sample_life: "life T [] 3 [(1, TypeMeta, sample_meta)] sample_running"
proof -
  have "config_ranges sample_config" "c_NextSeq sample_config = 0"
    by (simp_all add: sample_config_def config_ranges_def in_i64_def min_i64_def max_i64_def)
  from life.created [OF sample_Create this]
  have 0: "life T [] 0 [(1, TypeMeta, sample_meta)] sample_made" by (simp add: sample_made_def sample_meta_def)
  have "flusher_step (q_log sample_made) (q_log sample_woken)"
    using flusher_step.woken [of "q_log sample_made"] by (simp add: sample_life_defs)
  from life.lives [OF 0 op_step.flushed [OF this]]
  have 1: "life T [] 1 [(1, TypeMeta, sample_meta)] sample_woken" by (simp add: sample_woken_def)
  have "flusher_step (q_log sample_woken) (q_log sample_taken)"
    using flusher_step.begun [of "q_log sample_woken" False] by (simp add: sample_taken_def sample_woken_def)
  from life.lives [OF 1 op_step.flushed [OF this]]
  have 2: "life T [] 2 [(1, TypeMeta, sample_meta)] sample_taken" by (simp add: sample_taken_def numeral_2_eq_2)
  have "flusher_step (q_log sample_taken) (q_log sample_running)"
    using flusher_step.written [of "q_log sample_taken" "Encode [] TypeMeta sample_meta" 1 1 False Written 0]
    by (simp add: sample_life_defs)
  from life.lives [OF 2 op_step.flushed [OF this]] show ?thesis
    by (simp add: sample_running_def numeral_2_eq_2 numeral_3_eq_3)
qed

lemma sample_running_log:
  "l_file (q_log sample_running) = Encode [] TypeMeta sample_meta" "Wait 1 (q_log sample_running) = Some None"
  "crash_image (q_log sample_running) (Encode [] TypeMeta sample_meta)"
  by (simp_all add: sample_life_defs Wait_def crash_image_def being_written_def)

lemma sample_running_fields:
  "q_byID sample_running = []" "q_dedup sample_running = []" "q_nextSeq sample_running = 1"
  "checkLocked sample_running = None" "l_fatal (q_log sample_running) = None" "\<not> l_closed (q_log sample_running)"
  "l_nextSeq (q_log sample_running) = 2"
  by (simp_all add: sample_life_defs newQueue_def checkLocked_def)

lemma sample_inv: "queue_inv sample_running"
  using life_accounted [OF sample_life] by (simp add: accounted_def few_records_def max_i64_def)

text \<open>The sample queue with a message in it: its content is \<open>1\<close>, its deduplication id \<open>job\<close>.\<close>

abbreviation sample_queued :: message where
  "sample_queued \<equiv> new_message 100 7 [49] 0 0 ''job'' sample_running"

lemma sample_queued_fits: "storable sample_queued" "length (encodeMessage sample_queued) \<le> MaxRecordSize"
proof -
  have "newID 7 \<noteq> []" using length_newID [of 7] by (metis list.size(3) zero_neq_numeral)
  then show "storable sample_queued"
    by (simp add: storable_def new_message_def zero_message_def time_add_def in_i64_def min_i64_def max_i64_def)
  show "length (encodeMessage sample_queued) \<le> MaxRecordSize"
    by (simp add: encodeMessage_def new_message_def zero_message_def MaxRecordSize_def)
qed

lemma sample_enqueued:
  "\<exists>q1. Enqueue 100 7 [49] 0 0 ''job'' sample_running =
      (q1, Inr (\<lparr>er_ID = newID 7, er_Seq = 1, er_VisibleAt = 100, er_Duplicate = False\<rparr>, Some 2)) \<and>
    op_step T sample_running [(2, TypeEnqueue, encodeMessage sample_queued)] q1 \<and> checkLocked q1 = None"
  if "100 \<le> T"
proof -
  have fresh: "map_of (q_byID sample_running) (newID 7) = None" by (simp add: sample_running_fields)
  from enqueue_new_ok [OF sample_inv sample_running_fields(5,6) fresh refl, of 100 "[49]" 0 0 "''job''"]
  obtain l q2 where q2: "enqueue_new 100 7 [49] 0 0 ''job'' sample_running = (bump (\<lambda>c. c\<lparr>n_Enqueued := n_Enqueued c + 1\<rparr>) q2,
      Inr (\<lparr>er_ID = newID 7, er_Seq = 1, er_VisibleAt = 100, er_Duplicate = False\<rparr>, Some 2))"
    and oh: "only_heaps (upd (q_brk sample_running) (filed_msg (q_cfg sample_running) 100)
      (registered sample_queued (sample_running\<lparr>q_log := l\<rparr>))) q2"
    unfolding sample_running_fields(3,7) by auto
  define q1 where "q1 = bump (\<lambda>c. c\<lparr>n_Enqueued := n_Enqueued c + 1\<rparr>) q2"
  have e: "enqueue_new 100 7 [49] 0 0 ''job'' sample_running =
      (q1, Inr (\<lparr>er_ID = newID 7, er_Seq = 1, er_VisibleAt = 100, er_Duplicate = False\<rparr>, Some 2))"
    using q2 by (simp add: q1_def)
  have up: "q_failed q1 = q_failed sample_running" "q_closed q1 = q_closed sample_running"
    using only_heaps_fields(9,13) [OF oh] by (simp_all add: q1_def bump_def)
  from e have E: "Enqueue 100 7 [49] 0 0 ''job'' sample_running =
      (q1, Inr (\<lparr>er_ID = newID 7, er_Seq = 1, er_VisibleAt = 100, er_Duplicate = False\<rparr>, Some 2))"
    by (simp add: Enqueue_def sample_running_fields dedup_hit_def)
  have "op_step T sample_running [(2, TypeEnqueue, encodeMessage sample_queued)] q1"
    using that by (intro op_step.enqueued [OF E] sample_queued_fits) (simp_all add: sample_running_fields)
  then show ?thesis using E up sample_running_fields(4) by (auto simp: checkLocked_def split: option.splits if_splits)
qed

end
