(* ===== verification/Json_Valid.thy ===== *)
theory Json_Valid
  imports Go_Json
begin

text \<open>
  The strings \<open>encoding/json\<close> writes are JSON: whatever bytes are given to the encoder, the decoder
  reads its output back, with invalid UTF-8 replaced by U+FFFD and everything else as it was.
\<close>

definition json_Valid :: "byte list \<Rightarrow> bool" where
  "json_Valid b \<longleftrightarrow> parse_json (string_of b) \<noteq> None"

text \<open>What a Go string becomes when it is written and read back.\<close>

function sanitize :: "string \<Rightarrow> string" where
  "sanitize s =
     (case s of [] \<Rightarrow> []
      | c # cs \<Rightarrow>
          if code c < 0x80 then c # sanitize cs
          else if utf8_width s = 0 then utf8_encode 0xFFFD @ sanitize cs
          else take (utf8_width s) s @ sanitize (drop (utf8_width s) s))"
  by pat_completeness auto
termination
  by (relation "measure length") auto

declare sanitize.simps [simp del]

lemma utf8_width_front:
  assumes "utf8_width s = w" and "w \<noteq> 0"
  shows "utf8_width (take w s @ r) = w" and "w \<le> length s" and "2 \<le> w"
proof -
  obtain a b t where s: "s = a # b # t" using assms by (cases s; cases "tl s") (auto simp: utf8_width_def)
  consider "t = []" | c where "t = [c]" | c d u where "t = c # d # u" by (cases t; cases "tl t") auto
  then have "utf8_width (take w s @ r) = w \<and> w \<le> length s \<and> 2 \<le> w"
  proof cases
    case 1
    then have "w = 2" using assms s by (auto simp: utf8_width_def split: if_splits)
    then show ?thesis using assms s 1 by (auto simp: utf8_width_def split: if_splits list.splits)
  next
    case 2
    then have "w = 2 \<or> w = 3" using assms s by (auto simp: utf8_width_def split: if_splits)
    then show ?thesis using assms s 2 by (auto simp: utf8_width_def split: if_splits list.splits)
  next
    case 3
    then have "w = 2 \<or> w = 3 \<or> w = 4" using assms s by (auto simp: utf8_width_def split: if_splits)
    then show ?thesis using assms s 3
      by (elim disjE) (auto simp: utf8_width_def numeral_3_eq_3 numeral_2_eq_2 split: if_splits list.splits)
  qed
  then show "utf8_width (take w s @ r) = w" "w \<le> length s" "2 \<le> w" by simp_all
qed

lemma hex_value_low: "n < 16 \<Longrightarrow> hex_value (hex_low n) = Some n"
  by (simp add: less_Suc_eq numeral_eq_Suc) (elim disjE; simp add: hex_low_def hex_value_def is_digit_def)


lemma parse_quote: "parse_str (quote # r) = Some ([], r)"
  by (subst parse_str.simps) simp

lemma parse_escape: "simple_escape e = Some x \<Longrightarrow> parse_str (backslash # e # t) = prepend [x] (parse_str t)"
  by (subst parse_str.simps) (auto simp: simple_escape_def)

lemma parse_u:
  assumes "hex4 (h @ t) = Some r" and "length h = 4" and "r < 0xD800 \<or> 0xDFFF < r"
  shows "parse_str (backslash # CHR ''u'' # h @ t) = prepend (utf8_encode r) (parse_str t)"
  using assms by (subst parse_str.simps) auto

lemma parse_ascii:
  assumes "0x20 \<le> code c" and "code c < 0x80" and "c \<noteq> quote" and "c \<noteq> backslash"
  shows "parse_str (c # t) = prepend [c] (parse_str t)"
  using assms by (subst parse_str.simps) simp

lemma parse_utf8:
  assumes s: "s = c # cs" and c: "0x80 \<le> code c" and w: "utf8_width s \<noteq> 0"
  shows "parse_str (take (utf8_width s) s @ t) = prepend (take (utf8_width s) s) (parse_str t)"
proof -
  let ?w = "utf8_width s"
  note F = utf8_width_front [OF refl w]
  obtain k where k: "?w = Suc k" using w by (cases ?w) auto
  have front: "take ?w s @ t = c # take k cs @ t" using k by (simp add: s)
  have "parse_str (take ?w s @ t) = prepend (take ?w (take ?w s @ t)) (parse_str (drop ?w (take ?w s @ t)))"
    using F(1) [of t] w c unfolding front by (subst parse_str.simps) auto
  moreover have "length (take ?w s) = ?w" using F(2) by simp
  ultimately show ?thesis by simp
qed

lemma utf8_2028 [simp]: "utf8_encode 0x2028 = [CHR 0xE2, CHR 0x80, CHR 0xA8]"
  and utf8_2029 [simp]: "utf8_encode 0x2029 = [CHR 0xE2, CHR 0x80, CHR 0xA9]"
  by (simp_all add: utf8_encode_def) (code_simp)+

lemma width_line_separator:
  assumes "take 3 s = [CHR 0xE2, CHR 0x80, x]" and "cont x"
  shows "utf8_width s = 3"
proof -
  obtain t where "s = CHR 0xE2 # CHR 0x80 # x # t"
    using assms(1) by (cases s; cases "tl s"; cases "tl (tl s)") (auto simp: numeral_3_eq_3)
  then show ?thesis using assms(2) by (cases t) (auto simp: utf8_width_def between_def)
qed

lemma code_controls:
  "code c = 0x08 \<longleftrightarrow> c = CHR 0x08" "code c = 0x09 \<longleftrightarrow> c = CHR 0x09" "code c = 0x0A \<longleftrightarrow> c = CHR 0x0A"
  "code c = 0x0C \<longleftrightarrow> c = CHR 0x0C" "code c = 0x0D \<longleftrightarrow> c = CHR 0x0D"
proof -
  have "code c = code d \<longleftrightarrow> c = d" for d by simp
  from this [of "CHR 0x08"] this [of "CHR 0x09"] this [of "CHR 0x0A"] this [of "CHR 0x0C"] this [of "CHR 0x0D"]
  show "code c = 0x08 \<longleftrightarrow> c = CHR 0x08" "code c = 0x09 \<longleftrightarrow> c = CHR 0x09" "code c = 0x0A \<longleftrightarrow> c = CHR 0x0A"
    "code c = 0x0C \<longleftrightarrow> c = CHR 0x0C" "code c = 0x0D \<longleftrightarrow> c = CHR 0x0D"
    by (simp_all only: of_char_Char) (simp_all)
qed

text \<open>What the encoder writes for the first character, or the first UTF-8 sequence, of a string.\<close>

lemma escape_cases:
  assumes "s = c # cs"
  obtains (simple) x where "simple_escape x = Some c" "escape s = [backslash, x] @ escape cs" "code c < 0x80"
  | (control) "escape s = backslash # CHR ''u'' # [CHR ''0'', CHR ''0'', hex_low (code c div 16), hex_low (code c mod 16)] @ escape cs"
      "code c < 0x80"
  | (ascii) "escape s = [c] @ escape cs" "0x20 \<le> code c" "code c < 0x80" "c \<noteq> quote" "c \<noteq> backslash"
  | (invalid) "escape s = backslash # CHR ''u'' # ''fffd'' @ escape cs" "0x80 \<le> code c" "utf8_width s = 0"
  | (separator) h x where "escape s = backslash # CHR ''u'' # h @ escape (drop 3 s)"
      "h = ''2028'' \<and> x = CHR 0xA8 \<or> h = ''2029'' \<and> x = CHR 0xA9" "take 3 s = [CHR 0xE2, CHR 0x80, x]" "0x80 \<le> code c"
  | (sequence) "escape s = take (utf8_width s) s @ escape (drop (utf8_width s) s)" "0x80 \<le> code c" "utf8_width s \<noteq> 0"
proof -
  note E = escape.simps [of s, unfolded assms list.case, folded assms]
  consider "c = quote \<or> c = backslash" | "c = CHR 0x08" | "c = CHR 0x0C" | "c = CHR 0x0A" | "c = CHR 0x0D" | "c = CHR 0x09"
    | (ctl) "code c < 0x20 \<or> c = CHR ''<'' \<or> c = CHR ''>'' \<or> c = CHR ''&''" "\<not> (c = CHR 0x08 \<or> c = CHR 0x0C \<or> c = CHR 0x0A \<or> c = CHR 0x0D \<or> c = CHR 0x09)" "c \<noteq> quote" "c \<noteq> backslash"
    | (low) "0x20 \<le> code c" "code c < 0x80" "\<not> (c = CHR ''<'' \<or> c = CHR ''>'' \<or> c = CHR ''&'')" "c \<noteq> quote" "c \<noteq> backslash"
    | (high) "0x80 \<le> code c"
    using leI [of "code c" 32] leI [of "code c" 128] by argo
  then show thesis
  proof cases
    case 1
    then show thesis by (intro simple [of c]) (auto simp: simple_escape_def E code_controls)
  next
    case 2
    then show thesis by (intro simple [of "CHR ''b''"]) (auto simp: simple_escape_def E code_controls)
  next
    case 3
    then show thesis by (intro simple [of "CHR ''f''"]) (auto simp: simple_escape_def E code_controls)
  next
    case 4
    then show thesis by (intro simple [of "CHR ''n''"]) (auto simp: simple_escape_def E code_controls)
  next
    case 5
    then show thesis by (intro simple [of "CHR ''r''"]) (auto simp: simple_escape_def E code_controls)
  next
    case 6
    then show thesis by (intro simple [of "CHR ''t''"]) (auto simp: simple_escape_def E code_controls)
  next
    case ctl
    have "code c < 0x80" using ctl(1) by (elim disjE) simp_all
    moreover have "escape s = backslash # ''u00'' @ [hex_low (code c div 16), hex_low (code c mod 16)] @ escape cs"
      unfolding E code_controls using ctl by (simp only: de_Morgan_disj if_True if_False simp_thms)
    ultimately show thesis by (intro control) simp_all
  next
    case low
    then have n: "\<not> code c < 0x20" by simp
    moreover have "c \<noteq> CHR 0x08" "c \<noteq> CHR 0x0C" "c \<noteq> CHR 0x0A" "c \<noteq> CHR 0x0D" "c \<noteq> CHR 0x09"
      using n by (auto simp flip: code_controls)
    ultimately have "escape s = c # escape cs"
      unfolding E code_controls using low by (simp only: de_Morgan_disj if_True if_False simp_thms)
    then show thesis using low by (intro ascii) simp_all
  next
    case high
    have E': "escape s = (if utf8_width s = 0 then backslash # ''ufffd'' @ escape cs
        else if take 3 s = utf8_encode 0x2028 then backslash # ''u2028'' @ escape (drop 3 s)
        else if take 3 s = utf8_encode 0x2029 then backslash # ''u2029'' @ escape (drop 3 s)
        else take (utf8_width s) s @ escape (drop (utf8_width s) s))"
    proof -
      have "\<not> code c < 0x80" "\<not> code c < 0x20" using high by simp_all
      moreover have "c \<noteq> CHR 0x08" "c \<noteq> CHR 0x0C" "c \<noteq> CHR 0x0A" "c \<noteq> CHR 0x0D" "c \<noteq> CHR 0x09" "c \<noteq> quote"
        "c \<noteq> backslash" "c \<noteq> CHR ''<''" "c \<noteq> CHR ''>''" "c \<noteq> CHR ''&''" using high by auto
      ultimately show ?thesis unfolding E code_controls by (simp only: de_Morgan_disj if_True if_False simp_thms)
    qed
    consider "utf8_width s = 0" | "take 3 s = [CHR 0xE2, CHR 0x80, CHR 0xA8]" "utf8_width s \<noteq> 0"
      | "take 3 s = [CHR 0xE2, CHR 0x80, CHR 0xA9]" "utf8_width s \<noteq> 0"
      | "utf8_width s \<noteq> 0" "take 3 s \<noteq> [CHR 0xE2, CHR 0x80, CHR 0xA8]" "take 3 s \<noteq> [CHR 0xE2, CHR 0x80, CHR 0xA9]" by blast
    then show thesis
    proof cases
      case 1
      then show thesis using high E' by (intro invalid) simp_all
    next
      case 2
      then show thesis using high E' by (intro separator [of "''2028''" "CHR 0xA8"]) simp_all
    next
      case 3
      then show thesis using high E' by (intro separator [of "''2029''" "CHR 0xA9"]) simp_all
    next
      case 4
      then show thesis using high E' by (intro sequence) simp_all
    qed
  qed
qed

lemma utf8_bad: "utf8_encode 0xFFFD = utf8_encode 65533"
  by simp

lemma hex4_low: "n < 0x80 \<Longrightarrow> hex4 ([CHR ''0'', CHR ''0'', hex_low (n div 16), hex_low (n mod 16)] @ t) = Some n"
proof -
  have "hex_value (CHR ''0'') = Some 0" by (simp add: hex_value_def is_digit_def)
  moreover assume "n < 0x80"
  ultimately show ?thesis by (simp add: hex_value_low)
qed

lemma hex4_literals:
  "hex4 (''fffd'' @ t) = Some 0xFFFD" "hex4 (''2028'' @ t) = Some 0x2028" "hex4 (''2029'' @ t) = Some 0x2029"
  by (simp_all add: hex_value_def is_digit_def)

lemma parse_str_escape: "parse_str (escape s @ quote # r) = Some (sanitize s, r)"
proof (induction s rule: measure_induct_rule [where f = length])
  case (less s)
  show ?case
  proof (cases s)
    case Nil
    then show ?thesis by (subst escape.simps, subst sanitize.simps) (simp add: parse_quote)
  next
    case (Cons c cs)
    have tl: "parse_str (escape cs @ quote # r) = Some (sanitize cs, r)" using less [of cs] Cons by simp
    have low: "sanitize s = c # sanitize cs" if "code c < 0x80" using that by (subst sanitize.simps) (simp add: Cons)
    from Cons show ?thesis
    proof (cases rule: escape_cases)
      case (simple x)
      then show ?thesis using low tl by (simp add: parse_escape prepend_def)
    next
      case control
      have "utf8_encode (code c) = [c]" using control(2) by (simp add: utf8_encode_def)
      then show ?thesis
        using parse_u [OF hex4_low [OF control(2)], of "escape cs @ quote # r"] control low tl by (simp add: prepend_def)
    next
      case ascii
      then show ?thesis using low tl by (simp add: parse_ascii prepend_def)
    next
      case invalid
      have "sanitize s = utf8_encode 0xFFFD @ sanitize cs" using invalid by (subst sanitize.simps) (simp add: Cons)
      then show ?thesis
        using parse_u [OF hex4_literals(1), of "escape cs @ quote # r"] invalid(1) tl by (simp add: prepend_def)
    next
      case (separator h x)
      have w: "utf8_width s = 3"
        by (rule width_line_separator [OF separator(3)]) (use separator(2) in \<open>auto simp: between_def\<close>)
      have "sanitize s = take 3 s @ sanitize (drop 3 s)" using separator(4) w by (subst sanitize.simps) (simp add: Cons)
      moreover have "parse_str (escape (drop 3 s) @ quote # r) = Some (sanitize (drop 3 s), r)"
        using less [of "drop 3 s"] Cons by simp
      ultimately show ?thesis
        using separator parse_u [OF hex4_literals(2), of "escape (drop 3 s) @ quote # r"]
          parse_u [OF hex4_literals(3), of "escape (drop 3 s) @ quote # r"] by (auto simp: prepend_def)
    next
      case sequence
      let ?w = "utf8_width s"
      have "sanitize s = take ?w s @ sanitize (drop ?w s)" using sequence by (subst sanitize.simps) (simp add: Cons)
      moreover have "parse_str (escape (drop ?w s) @ quote # r) = Some (sanitize (drop ?w s), r)"
        using less [of "drop ?w s"] Cons sequence(3) by simp
      ultimately show ?thesis
        using parse_utf8 [OF Cons sequence(2,3)] sequence(1) by (simp add: prepend_def)
    qed
  qed
qed

lemma parse_show_string: "parse_json (show_string s) = Some (JStr (sanitize s))"
  by (simp add: parse_json_def show_string_def skip_ws_def is_ws_def parse_str_escape)

end
