(* ===== verification/Queue_Inspect.thy ===== *)
theory Queue_Inspect
  imports Queue_Snapshot Json_Valid
begin

text \<open>
  \<open>internal/queue/queue.go\<close>, inspection: \<open>Stats\<close>, message views, \<open>Peek\<close> and \<open>DLQ\<close>. The order in which \<open>Stats\<close>
  ranges over the messages is an argument. The lemmas show what the numbers count, that \<open>Peek\<close> lists
  the ready messages in the order \<open>Dequeue\<close> hands them out, and that every payload is shown as JSON.
\<close>

section \<open>Stats\<close>

text \<open>
  The ratio of records to fsyncs is kept as the two numbers the code divides in floating point.
\<close>

record log_stats =
  ls_SizeBytes :: int
  ls_Records :: u64
  ls_Fsyncs :: u64
  ls_RecordsPerFsync :: "(u64 \<times> u64) option"
  ls_LastBatch :: int
  ls_MaxBatch :: int
  ls_LastSyncUS :: int
  ls_AvgSyncUS :: int
  ls_PendingBytes :: int

record stats =
  st_Name :: string
  st_Ordering :: string
  st_PriorityEnabled :: bool
  st_MaxAttempts :: int
  st_AgingIntervalMS :: int
  st_Ready :: int
  st_Delayed :: int
  st_InFlight :: int
  st_DeadLettered :: int
  st_Total :: int
  st_OldestAgeMS :: int
  st_NextSeq :: u64
  st_Counters :: counters
  st_Log :: log_stats
  st_Healthy :: bool
  st_Error :: "go_error option"
  st_Now :: gotime

definition Milliseconds :: "duration \<Rightarrow> int" where
  "Milliseconds d = d sdiv 1000000"

definition Microseconds :: "duration \<Rightarrow> int" where
  "Microseconds d = d sdiv 1000"

text \<open>The scan for the oldest message that is not dead.\<close>

fun oldest_scan :: "gotime \<Rightarrow> message list \<Rightarrow> gotime" where
  "oldest_scan oldest [] = oldest"
| "oldest_scan oldest (m # ms) =
     (if m_state m = stateDead then oldest_scan oldest ms
      else if time_is_zero oldest \<or> m_CreatedAt m < oldest then oldest_scan (m_CreatedAt m) ms
      else oldest_scan oldest ms)"

definition log_stats_of :: "wal_stats \<Rightarrow> log_stats" where
  "log_stats_of ls =
     (let s = \<lparr>ls_SizeBytes = s_SizeBytes ls, ls_Records = s_Records ls, ls_Fsyncs = s_Batches ls,
                ls_RecordsPerFsync = None, ls_LastBatch = s_LastBatch ls, ls_MaxBatch = s_MaxBatch ls,
                ls_LastSyncUS = Microseconds (s_LastSync ls), ls_AvgSyncUS = 0, ls_PendingBytes = s_PendingBytes ls\<rparr>
      in if s_Batches ls > 0
         then s\<lparr>ls_RecordsPerFsync := Some (s_Records ls, s_Batches ls),
                ls_AvgSyncUS := Microseconds (i64 (s_TotalSync ls sdiv sint (s_Batches ls)))\<rparr>
         else s)"

definition Stats :: "gotime \<Rightarrow> string list \<Rightarrow> queue \<Rightarrow> stats" where
  "Stats now ids q =
     (let oldest = oldest_scan zero_time (map (q_mem q) (List.map_filter (map_of (q_byID q)) ids))
      in \<lparr>st_Name = c_Name (q_cfg q), st_Ordering = c_Ordering (q_cfg q),
          st_PriorityEnabled = c_PriorityEnabled (q_cfg q), st_MaxAttempts = c_MaxAttempts (q_cfg q),
          st_AgingIntervalMS = c_AgingIntervalMS (q_cfg q), st_Ready = int (length (q_ready q)),
          st_Delayed = int (length (q_delayed q)), st_InFlight = int (length (q_inflight q)),
          st_DeadLettered = int (length (q_dlq q)), st_Total = int (length (q_byID q)),
          st_OldestAgeMS = (if \<not> time_is_zero oldest then Milliseconds (time_sub now oldest) else 0),
          st_NextSeq = q_nextSeq q, st_Counters = q_counters q, st_Log = log_stats_of (log_Stats (q_log q)),
          st_Healthy = (q_failed q = None \<and> \<not> q_closed q), st_Error = q_failed q, st_Now = now\<rparr>)"

section \<open>Views\<close>

definition PayloadJSON :: "byte list \<Rightarrow> byte list" where
  "PayloadJSON b = (if length b > 0 \<and> json_Valid b then b else bytes_of (show_string (string_of b)))"

record view =
  v_ID :: string
  v_DedupID :: string
  v_Seq :: u64
  v_Priority :: int
  v_EffPrio :: int
  v_Attempts :: int
  v_State :: string
  v_VisibleAt :: gotime
  v_CreatedAt :: gotime
  v_Deadline :: gotime
  v_Payload :: "byte list"

definition view_of :: "message \<Rightarrow> view" where
  "view_of m =
     \<lparr>v_ID = m_ID m, v_DedupID = m_DedupID m, v_Seq = m_Seq m, v_Priority = m_Priority m,
      v_EffPrio = m_effPriority m, v_Attempts = m_Attempts m, v_State = state_String (m_state m),
      v_VisibleAt = m_VisibleAt m, v_CreatedAt = m_CreatedAt m,
      v_Deadline = (if m_state m = stateInFlight then m_deadline m else zero_time),
      v_Payload = PayloadJSON (m_Payload m)\<rparr>"

definition viewsOf :: "message list \<Rightarrow> int \<Rightarrow> view list" where
  "viewsOf ms limit = map view_of (if int (length ms) > limit then take (nat limit) ms else ms)"

section \<open>Peek and DLQ\<close>

text \<open>\<open>sort.SliceStable\<close>: a sort that keeps the order of elements neither of which is less.\<close>

fun insert_stable :: "('a \<Rightarrow> 'a \<Rightarrow> bool) \<Rightarrow> 'a \<Rightarrow> 'a list \<Rightarrow> 'a list" where
  "insert_stable lt x [] = [x]"
| "insert_stable lt x (y # ys) = (if lt y x then y # insert_stable lt x ys else x # y # ys)"

definition SliceStable :: "('a \<Rightarrow> 'a \<Rightarrow> bool) \<Rightarrow> 'a list \<Rightarrow> 'a list" where
  "SliceStable lt xs = foldr (insert_stable lt) xs []"

definition dead_views :: "int \<Rightarrow> queue \<Rightarrow> view list" where
  "dead_views limit q = viewsOf (SliceStable (\<lambda>a b. m_Seq a < m_Seq b) (map (q_mem q) (q_dlq q))) limit"

definition Peek :: "int \<Rightarrow> queue \<Rightarrow> (string \<times> view list) list" where
  "Peek limit q =
     (let limit = (if limit \<le> 0 then 25 else limit);
          ready = SliceStable (cfg_less (q_cfg q)) (map (q_mem q) (q_ready q));
          delayed = SliceStable (\<lambda>a b. m_VisibleAt a < m_VisibleAt b) (map (q_mem q) (q_delayed q));
          inflight = SliceStable (\<lambda>a b. m_deadline a < m_deadline b) (map (q_mem q) (q_inflight q))
      in [(''ready'', viewsOf ready limit), (''delayed'', viewsOf delayed limit),
          (''in_flight'', viewsOf inflight limit), (''dlq'', dead_views limit q)])"

definition DLQ :: "int \<Rightarrow> queue \<Rightarrow> view list" where
  "DLQ limit q = dead_views (if limit \<le> 0 then 100 else limit) q"

section \<open>What the numbers count\<close>

lemma Min_insert2: "finite S \<Longrightarrow> Min (insert a (insert b S)) = Min (insert (min a b) S)"
  by (cases "S = {}") (simp_all add: min.assoc)

lemma oldest_scan_min:
  assumes "\<forall>m \<in> set ms. m_CreatedAt m \<noteq> zero_time" and "oldest \<noteq> zero_time"
  shows "oldest_scan oldest ms = Min (insert oldest (m_CreatedAt ` {m \<in> set ms. m_state m \<noteq> stateDead}))"
  using assms
proof (induction ms arbitrary: oldest)
  case (Cons m ms)
  let ?S = "m_CreatedAt ` {m \<in> set ms. m_state m \<noteq> stateDead}"
  have "Min (insert oldest (insert (m_CreatedAt m) ?S)) = Min (insert (min oldest (m_CreatedAt m)) ?S)"
    by (rule Min_insert2) simp
  moreover have "{x \<in> set (m # ms). m_state x \<noteq> stateDead} =
      (if m_state m = stateDead then {} else {m}) \<union> {x \<in> set ms. m_state x \<noteq> stateDead}" by auto
  ultimately show ?case using Cons by (auto simp: time_is_zero_def min_def)
qed simp

lemma oldest_scan_first:
  assumes "\<forall>m \<in> set ms. m_CreatedAt m \<noteq> zero_time"
  shows "oldest_scan zero_time ms =
    (if \<exists>m \<in> set ms. m_state m \<noteq> stateDead then Min (m_CreatedAt ` {m \<in> set ms. m_state m \<noteq> stateDead}) else zero_time)"
  using assms
proof (induction ms)
  case (Cons m ms)
  have "{x \<in> set (m # ms). m_state x \<noteq> stateDead} =
      (if m_state m = stateDead then {} else {m}) \<union> {x \<in> set ms. m_state x \<noteq> stateDead}" by auto
  then show ?case using Cons oldest_scan_min [of ms "m_CreatedAt m"] by (auto simp: time_is_zero_def)
qed simp

text \<open>Every message is counted once, under its state.\<close>

lemma holders_count:
  assumes inv: "queue_inv q"
  shows "length (q_ready q) + length (q_delayed q) + length (q_inflight q) + length (q_dlq q) = length (q_byID q)"
proof -
  let ?S = "snd ` set (q_byID q)" and ?h = "\<lambda>st. {p \<in> snd ` set (q_byID q). m_state (q_mem q p) = st}"
  have k: "fst x = m_ID (q_mem q (snd x))" if "x \<in> set (q_byID q)" for x
    using inv that by (auto simp: queue_inv_def ids_ok_def)
  have "inj_on snd (set (q_byID q))" by (intro inj_onI prod_eqI) (simp_all add: k)
  moreover have "distinct (q_byID q)" using inv by (auto simp: queue_inv_def ids_ok_def distinct_map)
  ultimately have n: "card ?S = length (q_byID q)" by (simp add: card_image distinct_card)
  have h: "set (holder st q) = ?h st" for st using inv by (auto simp: queue_inv_def placed_def)
  have len: "length (holder st q) = card (?h st)" for st
    using inv_distinct [OF inv, of st] h by (metis distinct_card)
  have "m_state m = stateReady \<or> m_state m = stateDelayed \<or> m_state m = stateInFlight \<or> m_state m = stateDead" for m
    by (cases "m_state m") simp_all
  then have split: "?S = (?h stateReady \<union> ?h stateDelayed) \<union> (?h stateInFlight \<union> ?h stateDead)" by blast
  have fin: "finite (?h st)" for st by simp
  have dis: "st \<noteq> st' \<Longrightarrow> ?h st \<inter> ?h st' = {}" for st st' by blast
  have "card ?S = (card (?h stateReady) + card (?h stateDelayed)) + (card (?h stateInFlight) + card (?h stateDead))"
    unfolding arg_cong [OF split, of card]
    by (subst card_Un_disjoint; (simp add: Int_Un_distrib Int_Un_distrib2 dis del: Collect_conj_eq)?)
      (simp add: card_Un_disjoint fin dis)
  then show ?thesis using n len [of stateReady] len [of stateDelayed] len [of stateInFlight] len [of stateDead] by simp
qed

section \<open>Stable sorting\<close>

lemma insert_stable_set [simp]: "set (insert_stable lt x ys) = insert x (set ys)"
  by (induction ys) auto

lemma insert_stable_length [simp]: "length (insert_stable lt x ys) = Suc (length ys)"
  by (induction ys) auto

lemma SliceStable_simps [simp]:
  "SliceStable lt [] = []" "SliceStable lt (x # xs) = insert_stable lt x (SliceStable lt xs)"
  by (simp_all add: SliceStable_def)

lemma SliceStable_set [simp]: "set (SliceStable lt xs) = set xs" and SliceStable_length [simp]: "length (SliceStable lt xs) = length xs"
  by (induction xs) simp_all

lemma insert_stable_mset: "mset (insert_stable lt x ys) = add_mset x (mset ys)"
  by (induction ys) auto

lemma SliceStable_mset: "mset (SliceStable lt xs) = mset xs"
  by (induction xs) (simp_all add: insert_stable_mset)

lemma insert_stable_map: "insert_stable lt (f x) (map f ys) = map f (insert_stable (\<lambda>a b. lt (f a) (f b)) x ys)"
  by (induction ys) auto

lemma SliceStable_map: "SliceStable lt (map f xs) = map f (SliceStable (\<lambda>a b. lt (f a) (f b)) xs)"
  by (induction xs) (simp_all add: insert_stable_map)

text \<open>On the orders of the program, the result is sorted, and it is the only sorted arrangement.\<close>

context heap_order
begin

lemma insert_stable_sorted:
  "sorted_wrt (\<lambda>a b. \<not> lt b a) ys \<Longrightarrow> sorted_wrt (\<lambda>a b. \<not> lt b a) (insert_stable lt x ys)"
  by (induction ys) (auto dest: lt_asym lt_negtrans)

lemma SliceStable_sorted: "sorted_wrt (\<lambda>a b. \<not> lt b a) (SliceStable lt xs)"
  by (induction xs) (simp_all add: insert_stable_sorted)

lemma strict_unique: "sorted_wrt lt xs \<Longrightarrow> sorted_wrt lt ys \<Longrightarrow> set xs = set ys \<Longrightarrow> xs = ys"
proof (induction xs arbitrary: ys)
  case (Cons x xs)
  then obtain y ys' where ys: "ys = y # ys'" by (cases ys) auto
  have "x = y \<or> lt y x" "y = x \<or> lt x y" using Cons.prems ys by auto
  then have "x = y" using lt_asym by blast
  moreover have "x \<notin> set xs" "y \<notin> set ys'" using Cons.prems ys by auto
  ultimately have "set xs = set ys'" using Cons.prems(3) ys by auto
  then show ?case using Cons ys \<open>x = y\<close> by simp
qed simp

lemma sorted_strict:
  assumes "sorted_wrt (\<lambda>a b. \<not> lt b a) xs" and "distinct xs"
    and "\<And>a b. a \<in> set xs \<Longrightarrow> b \<in> set xs \<Longrightarrow> a \<noteq> b \<Longrightarrow> lt a b \<or> lt b a"
  shows "sorted_wrt lt xs"
  using assms by (induction xs) auto

lemma sorted_prefix:
  assumes xs: "distinct xs" and ps: "distinct ps" "set ps \<subseteq> set xs" "sorted_wrt (\<lambda>a b. \<not> lt b a) ps"
    and first: "\<forall>p \<in> set ps. \<forall>r \<in> set xs - set ps. \<not> lt r p"
    and total: "\<And>a b. a \<in> set xs \<Longrightarrow> b \<in> set xs \<Longrightarrow> a \<noteq> b \<Longrightarrow> lt a b \<or> lt b a"
  shows "ps = take (length ps) (SliceStable lt xs)"
proof -
  let ?rest = "SliceStable lt (filter (\<lambda>x. x \<notin> set ps) xs)"
  have d: "distinct (SliceStable lt xs)" "distinct ?rest" using xs SliceStable_mset by (metis distinct_filter mset_eq_imp_distinct_iff)+
  have s: "set (ps @ ?rest) = set xs" using ps(2) by auto
  have "sorted_wrt (\<lambda>a b. \<not> lt b a) (ps @ ?rest)"
    using ps(3) first SliceStable_sorted by (auto simp: sorted_wrt_append)
  moreover have "distinct (ps @ ?rest)" using ps(1) d(2) by auto
  ultimately have "sorted_wrt lt (ps @ ?rest)" using total s by (intro sorted_strict) auto
  moreover have "sorted_wrt lt (SliceStable lt xs)" using d(1) total SliceStable_sorted by (intro sorted_strict) auto
  ultimately have "ps @ ?rest = SliceStable lt xs" using s by (intro strict_unique) auto
  then show ?thesis by (metis append_eq_conv_conj)
qed

end

section \<open>Peek shows what Dequeue will do\<close>

lemma dequeue_loop_order:
  assumes inv: "queue_inv q" and dl: "dequeue_loop now v n q = (q', ms)"
    and seqs: "inj_on (\<lambda>p. m_Seq (q_mem q p)) (set (q_ready q))"
  shows "map m_ID ms = take (nat n) (map m_ID (SliceStable (cfg_less (q_cfg q)) (map (q_mem q) (q_ready q))))"
proof -
  let ?lt = "\<lambda>a b. cfg_less (q_cfg q) (q_mem q a) (q_mem q b)"
  have ho: "heap_order ?lt" by (rule heap_order.intro) (erule cfg_less_asym, erule (1) cfg_less_negtrans)
  from dequeue_loop_spec [OF inv dl] obtain ps where ps: "dequeued now v q ps q'"
    and len: "length ps = min (nat n) (length (q_ready q))" and ms: "map strip ms = map (\<lambda>p. strip (leased now v (q_mem q p))) ps"
    by blast
  have d: "distinct (q_ready q)" using inv_distinct [OF inv, of stateReady] by simp
  have "a \<in> set (q_ready q) \<Longrightarrow> b \<in> set (q_ready q) \<Longrightarrow> a \<noteq> b \<Longrightarrow> ?lt a b \<or> ?lt b a" for a b
    using seqs by (intro cfg_less_total) (auto simp: inj_on_def)
  then have "ps = take (length ps) (SliceStable ?lt (q_ready q))"
    using ps by (intro heap_order.sorted_prefix [OF ho d]) (auto simp: dequeued_def)
  also have "\<dots> = take (nat n) (SliceStable ?lt (q_ready q))" unfolding len by (simp add: min_def)
  finally have p: "ps = take (nat n) (SliceStable ?lt (q_ready q))" .
  have "m_ID (strip m) = m_ID m" for m by (simp add: strip_def)
  then have "map m_ID ms = map m_ID (map strip ms)" by (simp add: comp_def)
  also have "\<dots> = map (\<lambda>p. m_ID (q_mem q p)) ps" unfolding ms by (simp add: comp_def strip_def leased_def)
  finally show ?thesis by (simp add: SliceStable_map p take_map comp_def)
qed

lemma promoteDue_none: "\<forall>p \<in> set (q_delayed q). now < m_VisibleAt (q_mem q p) \<Longrightarrow> promoteDue now q = q"
  by (subst promoteDue.simps) (auto simp: msg_def)

lemma view_ID [simp]: "v_ID (view_of m) = m_ID m"
  by (simp add: view_of_def)

lemma viewsOf_IDs: "map v_ID (viewsOf ms limit) = take (nat limit) (map m_ID ms)"
  by (auto simp: viewsOf_def take_map comp_def)

lemma PayloadJSON_Valid: "json_Valid (PayloadJSON b)"
  by (simp add: PayloadJSON_def json_Valid_def parse_show_string)

text \<open>The three kinds of message \<open>Stats\<close> tells apart, counted over the queue's ids.\<close>

definition in_state :: "mstate \<Rightarrow> queue \<Rightarrow> nat" where
  "in_state st q = length (filter (\<lambda>(k, p). m_state (q_mem q p) = st) (q_byID q))"

lemma holder_in_state:
  assumes inv: "queue_inv q"
  shows "length (holder st q) = in_state st q"
proof -
  let ?f = "filter (\<lambda>(k, p). m_state (q_mem q p) = st) (q_byID q)"
  have k: "fst x = m_ID (q_mem q (snd x))" if "x \<in> set (q_byID q)" for x
    using inv that by (auto simp: queue_inv_def ids_ok_def)
  have "distinct (q_byID q)" using inv by (auto simp: queue_inv_def ids_ok_def distinct_map)
  moreover have "inj_on snd (set (q_byID q))" by (intro inj_onI prod_eqI) (simp_all add: k)
  then have "inj_on snd (set ?f)" by (rule inj_on_subset) auto
  ultimately have "distinct (map snd ?f)" by (simp add: distinct_map)
  moreover have "set (map snd ?f) = {p \<in> snd ` set (q_byID q). m_state (q_mem q p) = st}" by force
  then have "set (map snd ?f) = set (holder st q)" using inv_holder [OF inv, of _ st] by blast
  ultimately have "length (map snd ?f) = length (holder st q)"
    using inv_distinct [OF inv, of st] by (metis distinct_card)
  then show ?thesis by (simp add: in_state_def)
qed

lemma scanned_messages:
  assumes "queue_inv q" and "ranges ids (q_byID q)"
  shows "set (map (q_mem q) (List.map_filter (map_of (q_byID q)) ids)) = q_mem q ` snd ` set (q_byID q)"
proof -
  have "m_ID (q_mem q p) = k" if "map_of (q_byID q) k = Some p" for k p
    using assms(1) map_of_SomeD [OF that] by (auto simp: queue_inv_def ids_ok_def)
  from map_filter_ranges(1) [OF assms(2) this] assms(1) show ?thesis
    by (simp add: ran_distinct queue_inv_def ids_ok_def)
qed

end
