(* ===== verification/Inspect_Props.thy ===== *)
theory Inspect_Props
  imports Sample_Life Queue_Inspect
begin

text \<open>The properties of the inspection endpoints of a queue.\<close>

text \<open>In a queue that the program has built, no two messages share a sequence number.\<close>

lemma distinct_seqs:
  assumes inv: "queue_inv q" and seqs: "seqs_ok (absq q)"
  shows "inj_on (\<lambda>p. m_Seq (q_mem q p)) (set (q_ready q))"
proof (rule inj_onI)
  fix p p' assume p: "p \<in> set (q_ready q)" and p': "p' \<in> set (q_ready q)" and eq: "m_Seq (q_mem q p) = m_Seq (q_mem q p')"
  have get: "map_of (q_byID q) (m_ID (q_mem q r)) = Some r" if "r \<in> set (q_ready q)" for r
  proof -
    have "r \<in> snd ` set (q_byID q)" using inv_holder [OF inv, of r stateReady] that by simp
    then show ?thesis using inv by (auto simp: queue_inv_def ids_ok_def)
  qed
  then have msg: "a_msgs (absq q) (m_ID (q_mem q r)) = Some (durable (q_mem q r))" if "r \<in> set (q_ready q)" for r
    using that by (simp add: absq_def)
  have "m_Seq (durable (q_mem q p)) = m_Seq (durable (q_mem q p'))" using eq by simp
  moreover have "\<forall>k m k' m'. a_msgs (absq q) k = Some m \<longrightarrow> a_msgs (absq q) k' = Some m' \<longrightarrow> m_Seq m = m_Seq m' \<longrightarrow> k = k'"
    using seqs by (simp add: seqs_ok_def)
  ultimately have "m_ID (q_mem q p) = m_ID (q_mem q p')" using msg [OF p] msg [OF p'] by metis
  then have "Some p = Some p'" by (simp only: get [OF p, symmetric] get [OF p', symmetric])
  then show "p = p'" by simp
qed

text \<open>C31: \<open>Peek\<close> shows the future. At any moment of the life of a queue in service: once the messages that are
  due have been promoted, as the timer does and every dequeue does first, the list of ready messages \<open>Peek\<close>
  shows is, id by id, what a call of \<open>Dequeue\<close> at that time hands out, in that order: the sort of the listing
  and the heap of the queue agree. When no delayed message is due there is nothing to promote, and this is
  the list \<open>Peek\<close> shows of the queue as it stands.\<close>

theorem peek_shows_dequeue_order:
  assumes life: "life T bes n es q" and room: "few_records (length bes + length es)" and up: "checkLocked q = None"
    and k: "0 < k" "k \<le> limit" and dq: "Dequeue now k v q = (q', Inr ms)"
  shows "map m_ID ms = take (nat k) (map v_ID (the (map_of (Peek limit (promoteDue now q)) ''ready''))) \<and>
    ((\<forall>p \<in> set (q_delayed q). now < m_VisibleAt (q_mem q p)) \<longrightarrow> Peek limit (promoteDue now q) = Peek limit q)"
proof
  have inv: "queue_inv q" and "a_ok T (absq q)" using life_accounted [OF life room] by (simp_all add: accounted_def)
  then have seqs: "seqs_ok (absq (promoteDue now q))" using promoteDue_absq [OF inv, of now] by (simp add: a_ok_def)
  have invp: "queue_inv (promoteDue now q)" using promoteDue_spec [OF inv] by blast
  obtain q1 v' where "dequeue_loop now v' k (promoteDue now q) = (q1, ms)"
    using dq up k(1) by (auto simp: Dequeue_def Let_def split: prod.splits if_splits)
  from dequeue_loop_order [OF invp this distinct_seqs [OF invp seqs]]
  show "map m_ID ms = take (nat k) (map v_ID (the (map_of (Peek limit (promoteDue now q)) ''ready'')))"
    using k by (simp add: Peek_def Let_def viewsOf_IDs nat_mono min_absorb1)
  show "(\<forall>p \<in> set (q_delayed q). now < m_VisibleAt (q_mem q p)) \<longrightarrow> Peek limit (promoteDue now q) = Peek limit q"
    using promoteDue_none by fastforce
qed

text \<open>The sample queue, once a message has been enqueued.\<close>

theorem peek_shows_dequeue_order_witness:
  "\<exists>q1 q' ms. Enqueue 100 7 [49] 0 0 ''job'' sample_running =
      (q1, Inr (\<lparr>er_ID = newID 7, er_Seq = 1, er_VisibleAt = 100, er_Duplicate = False\<rparr>, Some 2)) \<and>
    Dequeue 101 1 9 q1 = (q', Inr ms) \<and>
    map m_ID ms = take 1 (map v_ID (the (map_of (Peek 10 (promoteDue 101 q1)) ''ready'')))"
proof -
  from sample_enqueued [of 200] obtain q1 where q1: "Enqueue 100 7 [49] 0 0 ''job'' sample_running =
      (q1, Inr (\<lparr>er_ID = newID 7, er_Seq = 1, er_VisibleAt = 100, er_Duplicate = False\<rparr>, Some 2))"
    "op_step 200 sample_running [(2, TypeEnqueue, encodeMessage sample_queued)] q1" "checkLocked q1 = None" by auto
  note life = life.lives [OF sample_life q1(2)]
  have room: "few_records (length [] + length ([(1 :: u64, TypeMeta, sample_meta)] @ [(2, TypeEnqueue, encodeMessage sample_queued)]))"
    by (simp add: few_records_def max_i64_def)
  obtain q' ms where dq: "Dequeue 101 1 9 q1 = (q', Inr ms)"
    using q1(3) by (cases "dequeue_loop 101 9 1 (promoteDue 101 q1)") (simp add: Dequeue_def Let_def)
  from peek_shows_dequeue_order [OF life room q1(3) _ _ dq, of 10] q1(1) dq show ?thesis by auto
qed

text \<open>C32: the numbers of \<open>Stats\<close>. Ready, delayed, in flight and dead count the messages in that state, each
  message once, so that they add up to the total; the age is that of the oldest message that is
  not dead, in whatever order the messages are scanned, and zero when there is none; healthy is
  what the operations check before they do anything.\<close>

theorem stats_count_messages:
  assumes inv: "queue_inv q" and ids: "ranges ids (q_byID q)"
    and made: "\<forall>(k, p) \<in> set (q_byID q). m_CreatedAt (q_mem q p) \<noteq> zero_time"
  shows "let s = Stats now ids q; live = {m \<in> q_mem q ` snd ` set (q_byID q). m_state m \<noteq> stateDead}
    in st_Ready s = int (in_state stateReady q) \<and> st_Delayed s = int (in_state stateDelayed q) \<and>
       st_InFlight s = int (in_state stateInFlight q) \<and> st_DeadLettered s = int (in_state stateDead q) \<and>
       st_Ready s + st_Delayed s + st_InFlight s + st_DeadLettered s = st_Total s \<and>
       st_OldestAgeMS s = (if live = {} then 0 else Milliseconds (time_sub now (Min (m_CreatedAt ` live)))) \<and>
       (st_Healthy s \<longleftrightarrow> checkLocked q = None)"
proof -
  let ?ms = "map (q_mem q) (List.map_filter (map_of (q_byID q)) ids)"
  let ?live = "{m \<in> q_mem q ` snd ` set (q_byID q). m_state m \<noteq> stateDead}"
  have ms: "set ?ms = q_mem q ` snd ` set (q_byID q)" by (rule scanned_messages [OF inv ids])
  then have nz: "\<forall>m \<in> set ?ms. m_CreatedAt m \<noteq> zero_time" using made by auto
  have old: "oldest_scan zero_time ?ms = (if ?live = {} then zero_time else Min (m_CreatedAt ` ?live))"
    using oldest_scan_first [OF nz] unfolding ms by auto
  have "Min (m_CreatedAt ` ?live) \<noteq> zero_time" if "?live \<noteq> {}"
  proof -
    have "Min (m_CreatedAt ` ?live) \<in> m_CreatedAt ` ?live" using that by (intro Min_in) auto
    then show ?thesis using nz unfolding ms by (metis (no_types, lifting) imageE mem_Collect_eq)
  qed
  moreover have "st_OldestAgeMS (Stats now ids q) = (if \<not> time_is_zero (oldest_scan zero_time ?ms)
      then Milliseconds (time_sub now (oldest_scan zero_time ?ms)) else 0)" by (simp add: Stats_def Let_def)
  ultimately have age: "st_OldestAgeMS (Stats now ids q) =
      (if ?live = {} then 0 else Milliseconds (time_sub now (Min (m_CreatedAt ` ?live))))"
    unfolding old time_is_zero_def by presburger
  show ?thesis
    using age holders_count [OF inv] holder_in_state [OF inv, of stateReady] holder_in_state [OF inv, of stateDelayed]
      holder_in_state [OF inv, of stateInFlight] holder_in_state [OF inv, of stateDead]
    by (simp add: Let_def) (simp add: Stats_def Let_def checkLocked_def)
qed

theorem stats_count_messages_witness:
  "let s = Stats 1600000005000000000 [''0a1b''] (sample_one stateDelayed)
   in st_Delayed s = 1 \<and> st_Total s = 1 \<and> st_Healthy s \<and> st_OldestAgeMS s = 5000"
proof -
  have r: "ranges [''0a1b''] (q_byID (sample_one stateDelayed))" by (simp add: ranges_def)
  have m: "{m \<in> q_mem (sample_one stateDelayed) ` snd ` set (q_byID (sample_one stateDelayed)). m_state m \<noteq> stateDead}
      = {sample_message\<lparr>m_state := stateDelayed, m_index := 0\<rparr>}" by auto
  have "in_state stateDelayed (sample_one stateDelayed) = 1" by (simp add: in_state_def sample_message_def)
  moreover have "\<forall>(k, p) \<in> set (q_byID (sample_one stateDelayed)). m_CreatedAt (q_mem (sample_one stateDelayed) p) \<noteq> zero_time"
    by (simp add: sample_message_def zero_time_def)
  moreover have "st_Total (Stats t ids (sample_one stateDelayed)) = 1" for t ids by (simp add: Stats_def Let_def)
  ultimately show ?thesis
    using stats_count_messages [OF sample_one_inv r, of 1600000005000000000] unfolding m Let_def
    by (simp add: checkLocked_def Milliseconds_def time_sub_def sample_message_def min_i64_def max_i64_def)
qed

text \<open>C33: whatever bytes a message carries, an inspection shows a JSON value: the payload itself when it
  is JSON, and otherwise a string that reads back as the payload, with bytes that are not UTF-8
  replaced. No stored payload can make the server emit malformed JSON.\<close>

theorem payload_shown_as_json:
  "json_Valid (v_Payload (view_of m)) \<and>
   parse_json (string_of (v_Payload (view_of m))) =
     (if m_Payload m \<noteq> [] \<and> json_Valid (m_Payload m) then parse_json (string_of (m_Payload m))
      else Some (JStr (sanitize (string_of (m_Payload m)))))"
  using PayloadJSON_Valid [of "m_Payload m"] by (simp add: view_of_def PayloadJSON_def parse_show_string)

end
