(* ===== verification/Manager.thy ===== *)
theory Manager
  imports Queue_Recovery Queue_Inspect
begin

text \<open>
  \<open>internal/queue/manager.go\<close>: the registry of the queues under one data directory. What the operating
  system says about each entry of the directory is part of the entry; the order in which Go ranges
  over the map of queues is an argument, a list of names.
\<close>

section \<open>The registry\<close>

record manager =
  mg_root :: string
  mg_queues :: "(string \<times> queue) list"

text \<open>An entry of the data directory: its name and kind, whether its log can be stat'ed, and what \<open>Load\<close> meets there.\<close>

record dir_entry =
  de_Name :: string
  de_IsDir :: bool
  de_stat_ok :: bool
  de_file :: opened
  de_env :: open_env
  de_clock :: "nat \<Rightarrow> gotime"
  de_now1 :: gotime
  de_now2 :: gotime

abbreviation load_entry :: "string \<Rightarrow> dir_entry \<Rightarrow> go_error + queue" where
  "load_entry root e \<equiv> Load root (de_Name e) (de_file e) (de_env e) (de_clock e) (de_now1 e) (de_now2 e)"

text \<open>\<open>errors.Is(err, ErrIncompleteQueue)\<close>.\<close>

fun is_incomplete :: "go_error \<Rightarrow> bool" where
  "is_incomplete (Wrapped _ e) = is_incomplete e"
| "is_incomplete (ErrIncompleteQueue _) = True"
| "is_incomplete _ = False"

text \<open>The loop of \<open>OpenManager\<close> over the entries.\<close>

fun load_queues :: "string \<Rightarrow> dir_entry list \<Rightarrow> (string \<times> queue) list \<Rightarrow> go_error + (string \<times> queue) list" where
  "load_queues root [] qs = Inr qs"
| "load_queues root (e # es) qs =
     (if \<not> de_IsDir e then load_queues root es qs
      else if \<not> de_stat_ok e then load_queues root es qs
      else case load_entry root e of
             Inl err \<Rightarrow>
               if is_incomplete err then load_queues root es qs
               else Inl (Wrapped ''loading queue'' err)
           | Inr q \<Rightarrow> load_queues root es (AList.update (de_Name e) q qs))"

definition OpenManager ::
  "string \<Rightarrow> go_error option \<Rightarrow> go_error + dir_entry list \<Rightarrow> go_error + manager" where
  "OpenManager root mkdir entries =
     (case mkdir of Some e \<Rightarrow> Inl e | None \<Rightarrow>
      bindE entries (\<lambda>es. bindE (load_queues root es []) (\<lambda>qs. Inr \<lparr>mg_root = root, mg_queues = qs\<rparr>)))"

text \<open>\<open>Create\<close> up to the wait for the META record, and from there, with the manager's mutex held throughout.\<close>

definition Manager_Create_begin ::
  "config \<Rightarrow> bool \<Rightarrow> opened \<Rightarrow> open_env \<Rightarrow> manager \<Rightarrow> go_error + queue \<times> u64" where
  "Manager_Create_begin cfg stat_ok f env m =
     bindE (Validate cfg) (\<lambda>cfg.
     if map_of (mg_queues m) (c_Name cfg) \<noteq> None then Inl (ErrQueueExists (c_Name cfg))
     else Create_begin (mg_root m) cfg stat_ok f env)"

definition Manager_Create_wait ::
  "gotime \<Rightarrow> gotime \<Rightarrow> string \<Rightarrow> u64 \<Rightarrow> queue \<Rightarrow> manager \<Rightarrow> (manager \<times> (go_error + queue)) option" where
  "Manager_Create_wait now1 now2 name batch q m =
     (case Create_wait now1 now2 batch q of
        None \<Rightarrow> None
      | Some (Inl e) \<Rightarrow> Some (m, Inl e)
      | Some (Inr q) \<Rightarrow> Some (m\<lparr>mg_queues := AList.update name q (mg_queues m)\<rparr>, Inr q))"

definition Get :: "string \<Rightarrow> manager \<Rightarrow> queue option" where
  "Get name m = map_of (mg_queues m) name"

text \<open>Each queue's \<open>Stats\<close> reads the clock and ranges over its messages by itself.\<close>

definition List_stats ::
  "string list \<Rightarrow> (string \<Rightarrow> gotime) \<Rightarrow> (string \<Rightarrow> string list) \<Rightarrow> manager \<Rightarrow> stats list" where
  "List_stats names now ids m =
     sort_key st_Name
       (List.map_filter (\<lambda>k. map_option (Stats (now k) (ids k)) (map_of (mg_queues m) k)) names)"

definition Names :: "manager \<Rightarrow> string list" where
  "Names m = sort (map fst (mg_queues m))"

text \<open>\<open>Close\<close>, with what each queue's own \<open>Close\<close> returns.\<close>

definition Manager_Close :: "string list \<Rightarrow> (string \<Rightarrow> go_error option) \<Rightarrow> manager \<Rightarrow> manager \<times> go_error option" where
  "Manager_Close names errs m =
     (m\<lparr>mg_queues := []\<rparr>,
      foldl (\<lambda>first k. if errs k \<noteq> None \<and> first = None then errs k else first) None names)"

section \<open>Opening\<close>

abbreviation has_log :: "dir_entry \<Rightarrow> bool" where
  "has_log e \<equiv> de_IsDir e \<and> de_stat_ok e"

abbreviation load_fails :: "string \<Rightarrow> dir_entry \<Rightarrow> bool" where
  "load_fails root e \<equiv> has_log e \<and> (\<exists>err. load_entry root e = Inl err \<and> \<not> is_incomplete err)"

lemma load_queues_keeps:
  "load_queues root es qs = Inr qs' \<Longrightarrow> k \<notin> de_Name ` set es \<Longrightarrow> map_of qs' k = map_of qs k"
  by (induction es arbitrary: qs) (auto simp: update_conv' split: if_splits sum.splits)

lemma load_queues_Inr:
  assumes "load_queues root es qs = Inr qs'" and "distinct (map de_Name es)" and "e \<in> set es" and "has_log e"
  shows "(\<exists>q. load_entry root e = Inr q \<and> map_of qs' (de_Name e) = Some q) \<or>
    (\<exists>err. load_entry root e = Inl err \<and> is_incomplete err \<and> map_of qs' (de_Name e) = map_of qs (de_Name e))"
  using assms
proof (induction es arbitrary: qs)
  case (Cons d es)
  show ?case
  proof (cases "e = d")
    case True
    have new: "de_Name d \<notin> de_Name ` set es" using Cons.prems(2) by simp
    show ?thesis
    proof (cases "load_entry root d")
      case (Inl err)
      then have "is_incomplete err" "load_queues root es qs = Inr qs'"
        using Cons.prems(1,4) True by (simp_all split: if_splits)
      then show ?thesis using load_queues_keeps [OF _ new] Inl True by auto
    next
      case (Inr q)
      then have "load_queues root es (AList.update (de_Name d) q qs) = Inr qs'" using Cons.prems(1,4) True by simp
      then show ?thesis using load_queues_keeps [OF _ new] Inr True by (auto simp: update_conv')
    qed
  next
    case False
    then have e: "e \<in> set es" "de_Name e \<noteq> de_Name d" using Cons.prems(2,3) by (auto simp: image_iff)
    have "\<exists>qs1. load_queues root es qs1 = Inr qs' \<and> map_of qs1 (de_Name e) = map_of qs (de_Name e)"
      using Cons.prems(1) e(2) by (auto simp: update_conv' split: if_splits sum.splits)
    then obtain qs1 where q1: "load_queues root es qs1 = Inr qs'" "map_of qs1 (de_Name e) = map_of qs (de_Name e)" by blast
    show ?thesis using Cons.IH [OF q1(1) _ e(1) Cons.prems(4)] Cons.prems(2) q1(2) by simp
  qed
qed simp

lemma load_queues_ok: "\<not> (\<exists>e \<in> set es. load_fails root e) \<Longrightarrow> \<exists>qs'. load_queues root es qs = Inr qs'"
proof (induction es arbitrary: qs)
  case (Cons e es)
  then have IH: "\<exists>qs'. load_queues root es qs = Inr qs'" for qs by simp
  have "\<not> load_fails root e" using Cons.prems by simp
  then show ?case using IH by (cases "load_entry root e") auto
qed simp

lemma load_queues_Inl:
  "load_queues root es qs = Inl err \<Longrightarrow>
   \<exists>e x. e \<in> set es \<and> has_log e \<and> load_entry root e = Inl x \<and> \<not> is_incomplete x \<and> err = Wrapped ''loading queue'' x"
proof (induction es arbitrary: qs)
  case (Cons e es)
  show ?case
  proof (cases "load_fails root e")
    case True
    then obtain x where x: "has_log e" "load_entry root e = Inl x" "\<not> is_incomplete x" by blast
    then have "err = Wrapped ''loading queue'' x" using Cons.prems by simp
    then show ?thesis using x by auto
  next
    case False
    then have "\<exists>qs1. load_queues root es qs1 = Inl err"
      using Cons.prems by (cases "load_entry root e") (auto split: if_splits)
    then show ?thesis using Cons.IH by fastforce
  qed
qed simp

section \<open>Recovering every queue\<close>

text \<open>
  An entry whose log is what a crash left of the log of the queue \<open>q\<close>, after a life in which it was
  given the records \<open>bes\<close> and \<open>es\<close>.
\<close>

definition survived :: "gotime \<Rightarrow> entry list \<Rightarrow> nat \<Rightarrow> (u64 \<times> entry) list \<Rightarrow> queue \<Rightarrow> dir_entry \<Rightarrow> bool" where
  "survived T bes n es q e \<longleftrightarrow> has_log e \<and>
     (\<exists>img. de_file e = Opened img no_io \<and> env_ok img (de_env e) \<and> crash_image (q_log q) img) \<and>
     life T bes n es q \<and> n < 2 ^ 64 - 2 \<and> few_records (length bes + length es) \<and>
     (bes \<noteq> [] \<or> (\<exists>i < length es. Wait (fst (es ! i)) (q_log q) = Some None))"

text \<open>What comes back of it: the state of a prefix of the records, with all that were acknowledged.\<close>

definition restored :: "entry list \<Rightarrow> (u64 \<times> entry) list \<Rightarrow> queue \<Rightarrow> queue \<Rightarrow> bool" where
  "restored bes es q q' \<longleftrightarrow> queue_inv q' \<and>
     (\<exists>k \<le> length es. a_run (bes @ map snd (take k es)) a_init = Inr (absq q') \<and>
        (\<forall>i < length es. Wait (fst (es ! i)) (q_log q) = Some None \<longrightarrow> i < k))"

lemma survived_loads:
  assumes "survived T bes n es q e"
  shows "\<exists>q'. load_entry root e = Inr q' \<and> restored bes es q q'"
proof -
  from assms obtain img where f: "de_file e = Opened img no_io" "env_ok img (de_env e)" "crash_image (q_log q) img"
    by (auto simp: survived_def)
  have "life T bes n es q" "n < 2 ^ 64 - 2" "few_records (length bes + length es)"
    "bes \<noteq> [] \<or> (\<exists>i < length es. Wait (fst (es ! i)) (q_log q) = Some None)"
    using assms by (simp_all add: survived_def)
  from recovery [OF this(1-3) f(3,2) this(4)] show ?thesis unfolding f(1) restored_def by blast
qed

lemma OpenManager_survivors:
  assumes names: "distinct (map de_Name entries)"
    and past: "\<And>e. e \<in> set entries \<Longrightarrow> survived T (bes e) (n e) (es e) (q e) e"
  shows "\<exists>m. OpenManager root None (Inr entries) = Inr m \<and>
    (\<forall>e \<in> set entries. \<exists>q'. Get (de_Name e) m = Some q' \<and> restored (bes e) (es e) (q e) q')"
proof -
  have loads: "\<exists>q'. load_entry root e = Inr q' \<and> restored (bes e) (es e) (q e) q'" if "e \<in> set entries" for e
    by (rule survived_loads [OF past [OF that]])
  then have "\<not> (\<exists>e \<in> set entries. load_fails root e)" by fastforce
  from load_queues_ok [OF this, where qs = "[]"] obtain qs where qs: "load_queues root entries [] = Inr qs" by blast
  have "\<exists>q'. map_of qs (de_Name e) = Some q' \<and> restored (bes e) (es e) (q e) q'" if e: "e \<in> set entries" for e
    using load_queues_Inr [OF qs names e] loads [OF e] past [OF e] by (auto simp: survived_def)
  then show ?thesis using qs by (simp add: OpenManager_def Get_def)
qed

text \<open>All or nothing: a log that cannot be loaded keeps the server from starting.\<close>

lemma OpenManager_iff:
  assumes names: "distinct (map de_Name entries)"
  shows "(\<exists>m. OpenManager root None (Inr entries) = Inr m) \<longleftrightarrow> \<not> (\<exists>e \<in> set entries. load_fails root e)"
proof
  assume "\<exists>m. OpenManager root None (Inr entries) = Inr m"
  then obtain qs where "load_queues root entries [] = Inr qs" by (auto simp: OpenManager_def bindE_eq_Inr)
  from load_queues_Inr [OF this names] show "\<not> (\<exists>e \<in> set entries. load_fails root e)" by fastforce
next
  assume "\<not> (\<exists>e \<in> set entries. load_fails root e)"
  from load_queues_ok [OF this, where qs = "[]"] show "\<exists>m. OpenManager root None (Inr entries) = Inr m"
    by (auto simp: OpenManager_def)
qed

lemma OpenManager_error:
  assumes "OpenManager root None (Inr entries) = Inl err"
  shows "\<exists>e x. e \<in> set entries \<and> has_log e \<and> load_entry root e = Inl x \<and> \<not> is_incomplete x \<and>
    err = Wrapped ''loading queue'' x"
  using assms load_queues_Inl [of root entries "[]" err]
  by (cases "load_queues root entries []") (auto simp: OpenManager_def)

section \<open>Registering\<close>

lemma Get_put [simp]: "Get k (m\<lparr>mg_queues := AList.update name q (mg_queues m)\<rparr>) = (if k = name then Some q else Get k m)"
  by (simp add: Get_def update_conv')

lemma Names_sorted: "sorted (Names m)" "set (Names m) = {k. Get k m \<noteq> None}"
  by (auto simp: Names_def Get_def map_of_eq_None_iff)

end
