(* ===== verification/Api.thy ===== *)
theory Api
  imports Manager
begin

text \<open>
  \<open>internal/api/server.go\<close>: the HTTP handlers over the registry. A request is its path values, its body and
  its query value; a response is the status and a value of \<open>body\<close>, whose rendering as JSON is left out.
  A handler whose queue operation waits for durability is two definitions, as the operation is.
\<close>

section \<open>Request bodies\<close>

definition MaxPayloadBytes :: nat where
  "MaxPayloadBytes = 262144"

text \<open>The members of the object at the front of a text, each with its value and with the text of its value.\<close>

fun raw_members :: "nat \<Rightarrow> string \<Rightarrow> (string \<times> json \<times> string) list option" where
  "raw_members 0 s = None"
| "raw_members (Suc n) s =
     (case eat quote (skip_ws s) of None \<Rightarrow> None
      | Some cs \<Rightarrow>
          (case parse_str cs of None \<Rightarrow> None
           | Some (k, r) \<Rightarrow>
               (case eat (CHR '':'') (skip_ws r) of None \<Rightarrow> None
                | Some r1 \<Rightarrow>
                    (case parse_value n 1 (skip_ws r1) of None \<Rightarrow> None
                     | Some (v, r2) \<Rightarrow>
                         let m = (k, v, take (length (skip_ws r1) - length r2) (skip_ws r1))
                         in case eat (CHR '','') (skip_ws r2) of
                              Some r3 \<Rightarrow> map_option (Cons m) (raw_members n r3)
                            | None \<Rightarrow> map_option (\<lambda>_. [m]) (eat (CHR ''}'') (skip_ws r2))))))"

definition raw_object :: "string \<Rightarrow> (string \<times> json \<times> string) list option" where
  "raw_object s =
     (case skip_ws s of [] \<Rightarrow> None
      | c # cs \<Rightarrow> if eat (CHR ''}'') (skip_ws cs) \<noteq> None then Some [] else raw_members (Suc (length s)) cs)"

text \<open>Fields are set member by member; an unknown name or a value of the wrong type is an error.\<close>

fun set_fields :: "(string \<times> json \<times> string \<Rightarrow> 'a \<Rightarrow> 'a option) \<Rightarrow> (string \<times> json \<times> string) list \<Rightarrow> 'a \<Rightarrow> 'a option" where
  "set_fields f [] x = Some x"
| "set_fields f (m # ms) x = (case f m x of None \<Rightarrow> None | Some y \<Rightarrow> set_fields f ms y)"

datatype 'a decoded = Decoded 'a | BodyEOF | BodyInvalid

text \<open>
  The decoder over the limited reader, with unknown fields disallowed: the first JSON value of the
  body counts, and what follows it is not read.
\<close>

definition decode_body :: "(string \<times> json \<times> string \<Rightarrow> 'a \<Rightarrow> 'a option) \<Rightarrow> 'a \<Rightarrow> byte list \<Rightarrow> 'a decoded" where
  "decode_body f zero body =
     (let s = string_of (take (MaxPayloadBytes + 4096) body)
      in if skip_ws s = [] then BodyEOF
         else case parse_value (Suc (length s)) 0 s of
                None \<Rightarrow> BodyInvalid
              | Some (v, r) \<Rightarrow>
                  (case v of
                     JNull \<Rightarrow> Decoded zero
                   | JObj ms \<Rightarrow>
                       (case raw_object s of None \<Rightarrow> BodyInvalid
                        | Some ms \<Rightarrow> (case set_fields f ms zero of None \<Rightarrow> BodyInvalid | Some x \<Rightarrow> Decoded x))
                   | _ \<Rightarrow> BodyInvalid))"

text \<open>\<open>createQueueRequest\<close> has the members of a configuration but the sequence counter.\<close>

definition set_create_field :: "string \<times> json \<times> string \<Rightarrow> config \<Rightarrow> config option" where
  "set_create_field m c =
     (if fold_key (fst m) \<in> {''name'', ''ordering'', ''priority_enabled'', ''max_attempts'',
           ''default_visibility_timeout_ms'', ''aging_interval_ms'', ''aging_max_boost'', ''dedup_window_ms''}
      then set_member (fst m, fst (snd m)) c else None)"

record enqueueRequest =
  eq_Payload :: "byte list"
  eq_Priority :: int
  eq_DelayMS :: int
  eq_DedupID :: string

definition zero_enqueue :: enqueueRequest where
  "zero_enqueue = \<lparr>eq_Payload = [], eq_Priority = 0, eq_DelayMS = 0, eq_DedupID = ''''\<rparr>"

definition set_enqueue_field :: "string \<times> json \<times> string \<Rightarrow> enqueueRequest \<Rightarrow> enqueueRequest option" where
  "set_enqueue_field m r =
     (case m of (name, v, raw) \<Rightarrow>
      let k = fold_key name
      in if k = ''payload'' then Some (r\<lparr>eq_Payload := bytes_of raw\<rparr>)
      else if k = ''priority'' then map_option (\<lambda>x. r\<lparr>eq_Priority := x\<rparr>) (json_int v (eq_Priority r))
      else if k = ''delay_ms'' then map_option (\<lambda>x. r\<lparr>eq_DelayMS := x\<rparr>) (json_int v (eq_DelayMS r))
      else if k = ''dedup_id'' then map_option (\<lambda>x. r\<lparr>eq_DedupID := x\<rparr>) (json_string v (eq_DedupID r))
      else None)"

record dequeueRequest =
  dq_MaxMessages :: int
  dq_VisibilityTimeoutMS :: int

definition set_dequeue_field :: "string \<times> json \<times> string \<Rightarrow> dequeueRequest \<Rightarrow> dequeueRequest option" where
  "set_dequeue_field m r =
     (case m of (name, v, raw) \<Rightarrow>
      let k = fold_key name
      in if k = ''max_messages'' then map_option (\<lambda>x. r\<lparr>dq_MaxMessages := x\<rparr>) (json_int v (dq_MaxMessages r))
      else if k = ''visibility_timeout_ms''
           then map_option (\<lambda>x. r\<lparr>dq_VisibilityTimeoutMS := x\<rparr>) (json_int v (dq_VisibilityTimeoutMS r))
      else None)"

text \<open>\<open>intParam\<close>, with \<open>strconv.Atoi\<close>.\<close>

definition Atoi :: "string \<Rightarrow> int option" where
  "Atoi s =
     (case s of [] \<Rightarrow> None
      | c # cs \<Rightarrow>
          (let ds = (if c = CHR ''-'' \<or> c = CHR ''+'' then cs else s);
               v = (if c = CHR ''-'' then - int (digits_value ds) else int (digits_value ds))
           in if ds \<noteq> [] \<and> list_all is_digit ds \<and> in_i64 v then Some v else None))"

definition intParam :: "string \<Rightarrow> int \<Rightarrow> int" where
  "intParam v def =
     (if v \<noteq> '''' then (case Atoi v of Some n \<Rightarrow> if n > 0 then n else def | None \<Rightarrow> def) else def)"

section \<open>Responses\<close>

record leased_view =
  lv_ID :: string
  lv_Seq :: u64
  lv_Priority :: int
  lv_Attempts :: int
  lv_CreatedAt :: gotime
  lv_Deadline :: gotime
  lv_Payload :: "byte list"

datatype api_error =
    NoSuchQueue string
  | InvalidBody
  | PayloadRequired
  | PayloadTooLarge nat
  | NegativeDelay
  | DedupIDTooLong
  | NegativeVisibility
  | EngineError go_error

datatype body =
    StatsBody stats
  | QueuesBody "stats list"
  | EnqueuedBody enqueueResult
  | LeasedBody "leased_view list"
  | AckedBody string
  | NackedBody string
  | ViewsBody "view list"
  | PeekBody "(string \<times> view list) list"
  | CompactBody int int
  | HealthBody bool "string list"
  | ErrorBody api_error

record response =
  rs_status :: nat
  rs_body :: body

abbreviation StatusOK :: nat where "StatusOK \<equiv> 200"
abbreviation StatusCreated :: nat where "StatusCreated \<equiv> 201"
abbreviation StatusBadRequest :: nat where "StatusBadRequest \<equiv> 400"
abbreviation StatusNotFound :: nat where "StatusNotFound \<equiv> 404"
abbreviation StatusConflict :: nat where "StatusConflict \<equiv> 409"
abbreviation StatusRequestEntityTooLarge :: nat where "StatusRequestEntityTooLarge \<equiv> 413"
abbreviation StatusServiceUnavailable :: nat where "StatusServiceUnavailable \<equiv> 503"

definition writeJSON :: "nat \<Rightarrow> body \<Rightarrow> response" where
  "writeJSON status v = \<lparr>rs_status = status, rs_body = v\<rparr>"

definition writeError :: "nat \<Rightarrow> api_error \<Rightarrow> response" where
  "writeError status err = writeJSON status (ErrorBody err)"

definition writeQueueError :: "go_error \<Rightarrow> response" where
  "writeQueueError err =
     (if error_root err = ErrNotFound then writeError StatusNotFound (EngineError err)
      else if error_root err = ErrNotInFlight then writeError StatusConflict (EngineError err)
      else if error_root err = ErrClosed then writeError StatusServiceUnavailable (EngineError err)
      else writeError StatusServiceUnavailable (EngineError err))"

definition queueFor :: "string \<Rightarrow> manager \<Rightarrow> response + queue" where
  "queueFor name m =
     (case Get name m of
        None \<Rightarrow> Inl (writeError StatusNotFound (NoSuchQueue name))
      | Some q \<Rightarrow> Inr q)"

definition decode :: "(string \<times> json \<times> string \<Rightarrow> 'a \<Rightarrow> 'a option) \<Rightarrow> 'a \<Rightarrow> byte list \<Rightarrow> response + 'a" where
  "decode f zero body =
     (case decode_body f zero body of
        Decoded x \<Rightarrow> Inr x
      | _ \<Rightarrow> Inl (writeError StatusBadRequest InvalidBody))"

definition decodeOptional :: "(string \<times> json \<times> string \<Rightarrow> 'a \<Rightarrow> 'a option) \<Rightarrow> 'a \<Rightarrow> byte list \<Rightarrow> response + 'a" where
  "decodeOptional f zero body =
     (case decode_body f zero body of
        Decoded x \<Rightarrow> Inr x
      | BodyEOF \<Rightarrow> Inr zero
      | BodyInvalid \<Rightarrow> Inl (writeError StatusBadRequest InvalidBody))"

section \<open>Handlers\<close>

text \<open>A queue is shared by reference: the registry sees what an operation does to it.\<close>

definition put_queue :: "string \<Rightarrow> queue \<Rightarrow> manager \<Rightarrow> manager" where
  "put_queue name q m = m\<lparr>mg_queues := AList.update name q (mg_queues m)\<rparr>"

text \<open>\<open>errors.Is(err, ErrQueueExists)\<close>.\<close>

fun is_exists :: "go_error \<Rightarrow> bool" where
  "is_exists (Wrapped _ e) = is_exists e"
| "is_exists (ErrQueueExists _) = True"
| "is_exists _ = False"

definition create_error :: "go_error \<Rightarrow> response" where
  "create_error err =
     (if is_exists err then writeError StatusConflict (EngineError err)
      else writeError StatusBadRequest (EngineError err))"

definition createQueue_begin ::
  "byte list \<Rightarrow> bool \<Rightarrow> opened \<Rightarrow> open_env \<Rightarrow> manager \<Rightarrow> response + string \<times> queue \<times> u64" where
  "createQueue_begin body stat_ok f env m =
     (case decode set_create_field zero_config body of
        Inl r \<Rightarrow> Inl r
      | Inr cfg \<Rightarrow>
          (case Manager_Create_begin cfg stat_ok f env m of
             Inl err \<Rightarrow> Inl (create_error err)
           | Inr (q, batch) \<Rightarrow> Inr (c_Name cfg, q, batch)))"

definition createQueue_finish ::
  "gotime \<Rightarrow> gotime \<Rightarrow> gotime \<Rightarrow> string list \<Rightarrow> string \<Rightarrow> u64 \<Rightarrow> queue \<Rightarrow> manager \<Rightarrow> (manager \<times> response) option" where
  "createQueue_finish now1 now2 now ids name batch q m =
     (case Manager_Create_wait now1 now2 name batch q m of
        None \<Rightarrow> None
      | Some (m, Inl err) \<Rightarrow> Some (m, create_error err)
      | Some (m, Inr q) \<Rightarrow> Some (m, writeJSON StatusCreated (StatsBody (Stats now ids q))))"

definition listQueues :: "string list \<Rightarrow> (string \<Rightarrow> gotime) \<Rightarrow> (string \<Rightarrow> string list) \<Rightarrow> manager \<Rightarrow> response" where
  "listQueues names now ids m = writeJSON StatusOK (QueuesBody (List_stats names now ids m))"

text \<open>The checks of \<open>enqueue\<close> on a decoded request.\<close>

definition check_enqueue :: "enqueueRequest \<Rightarrow> response option" where
  "check_enqueue req =
     (if length (eq_Payload req) = 0 then Some (writeError StatusBadRequest PayloadRequired)
      else if length (eq_Payload req) > MaxPayloadBytes
           then Some (writeError StatusRequestEntityTooLarge (PayloadTooLarge (length (eq_Payload req))))
      else if eq_DelayMS req < 0 then Some (writeError StatusBadRequest NegativeDelay)
      else if length (eq_DedupID req) > 256 then Some (writeError StatusBadRequest DedupIDTooLong)
      else None)"

definition api_enqueue ::
  "gotime \<Rightarrow> u64 \<Rightarrow> string \<Rightarrow> byte list \<Rightarrow> manager \<Rightarrow> manager \<times> (response + enqueueResult \<times> u64 option)" where
  "api_enqueue now random name body m =
     (case queueFor name m of Inl r \<Rightarrow> (m, Inl r) | Inr q \<Rightarrow>
      case decode set_enqueue_field zero_enqueue body of Inl r \<Rightarrow> (m, Inl r) | Inr req \<Rightarrow>
      case check_enqueue req of Some r \<Rightarrow> (m, Inl r) | None \<Rightarrow>
      case Enqueue now random (eq_Payload req) (eq_Priority req) (millis (eq_DelayMS req)) (eq_DedupID req) q of
        (q, Inl err) \<Rightarrow> (put_queue name q m, Inl (writeQueueError err))
      | (q, Inr rb) \<Rightarrow> (put_queue name q m, Inr rb))"

definition api_enqueue_finish :: "enqueueResult \<times> u64 option \<Rightarrow> queue \<Rightarrow> (queue \<times> response) option" where
  "api_enqueue_finish rb q =
     (case Enqueue_wait rb q of
        None \<Rightarrow> None
      | Some (q, Inl err) \<Rightarrow> Some (q, writeQueueError err)
      | Some (q, Inr res) \<Rightarrow>
          Some (q, writeJSON (if er_Duplicate res then StatusOK else StatusCreated) (EnqueuedBody res)))"

definition leased_of :: "message \<Rightarrow> leased_view" where
  "leased_of m = \<lparr>lv_ID = m_ID m, lv_Seq = m_Seq m, lv_Priority = m_Priority m, lv_Attempts = m_Attempts m,
     lv_CreatedAt = m_CreatedAt m, lv_Deadline = Deadline m, lv_Payload = PayloadJSON (m_Payload m)\<rparr>"

definition api_dequeue :: "gotime \<Rightarrow> string \<Rightarrow> byte list \<Rightarrow> manager \<Rightarrow> manager \<times> response" where
  "api_dequeue now name body m =
     (case queueFor name m of Inl r \<Rightarrow> (m, r) | Inr q \<Rightarrow>
      case decodeOptional set_dequeue_field \<lparr>dq_MaxMessages = 0, dq_VisibilityTimeoutMS = 0\<rparr> body of
        Inl r \<Rightarrow> (m, r)
      | Inr req \<Rightarrow>
          let mx = (if dq_MaxMessages req \<le> 0 then 1 else dq_MaxMessages req);
              mx = (if mx > 1000 then 1000 else mx)
          in if dq_VisibilityTimeoutMS req < 0 then (m, writeError StatusBadRequest NegativeVisibility)
             else case Dequeue now mx (millis (dq_VisibilityTimeoutMS req)) q of
                    (q, Inl err) \<Rightarrow> (put_queue name q m, writeQueueError err)
                  | (q, Inr msgs) \<Rightarrow> (put_queue name q m, writeJSON StatusOK (LeasedBody (map leased_of msgs))))"

definition api_ack :: "string \<Rightarrow> string \<Rightarrow> manager \<Rightarrow> manager \<times> (response + u64)" where
  "api_ack name mid m =
     (case queueFor name m of Inl r \<Rightarrow> (m, Inl r) | Inr q \<Rightarrow>
      case Ack mid q of
        (q, Inl err) \<Rightarrow> (put_queue name q m, Inl (writeQueueError err))
      | (q, Inr batch) \<Rightarrow> (put_queue name q m, Inr batch))"

definition api_ack_finish :: "string \<Rightarrow> u64 \<Rightarrow> queue \<Rightarrow> (queue \<times> response) option" where
  "api_ack_finish mid batch q =
     (case Ack_wait batch q of
        None \<Rightarrow> None
      | Some (q, Some err) \<Rightarrow> Some (q, writeQueueError err)
      | Some (q, None) \<Rightarrow> Some (q, writeJSON StatusOK (AckedBody mid)))"

definition api_nack :: "gotime \<Rightarrow> string \<Rightarrow> string \<Rightarrow> manager \<Rightarrow> manager \<times> (response + u64)" where
  "api_nack now name mid m =
     (case queueFor name m of Inl r \<Rightarrow> (m, Inl r) | Inr q \<Rightarrow>
      case Nack now mid q of
        (q, Inl err) \<Rightarrow> (put_queue name q m, Inl (writeQueueError err))
      | (q, Inr batch) \<Rightarrow> (put_queue name q m, Inr batch))"

definition api_nack_finish :: "string \<Rightarrow> u64 \<Rightarrow> queue \<Rightarrow> (queue \<times> response) option" where
  "api_nack_finish mid batch q =
     (case Nack_wait batch q of
        None \<Rightarrow> None
      | Some (q, Some err) \<Rightarrow> Some (q, writeQueueError err)
      | Some (q, None) \<Rightarrow> Some (q, writeJSON StatusOK (NackedBody mid)))"

definition api_stats :: "gotime \<Rightarrow> string list \<Rightarrow> string \<Rightarrow> manager \<Rightarrow> response" where
  "api_stats now ids name m =
     (case queueFor name m of Inl r \<Rightarrow> r | Inr q \<Rightarrow> writeJSON StatusOK (StatsBody (Stats now ids q)))"

definition api_dlq :: "string \<Rightarrow> string \<Rightarrow> manager \<Rightarrow> response" where
  "api_dlq name limit m =
     (case queueFor name m of Inl r \<Rightarrow> r | Inr q \<Rightarrow> writeJSON StatusOK (ViewsBody (DLQ (intParam limit 100) q)))"

definition api_peek :: "string \<Rightarrow> string \<Rightarrow> manager \<Rightarrow> response" where
  "api_peek name limit m =
     (case queueFor name m of Inl r \<Rightarrow> r | Inr q \<Rightarrow> writeJSON StatusOK (PeekBody (Peek (intParam limit 25) q)))"

text \<open>No response while \<open>Compact\<close> waits for the flusher.\<close>

definition api_compact ::
  "gotime \<Rightarrow> string list \<Rightarrow> string list \<Rightarrow> compact_env \<Rightarrow> string \<Rightarrow> manager \<Rightarrow> fsdir \<Rightarrow>
   (manager \<times> fsdir) \<times> response option" where
  "api_compact now ids keys env name m dir =
     (case queueFor name m of Inl r \<Rightarrow> ((m, dir), Some r) | Inr q \<Rightarrow>
      let before = ls_SizeBytes (st_Log (Stats now ids q))
      in case Compact now ids keys env q dir of
           ((q, dir), None) \<Rightarrow> ((put_queue name q m, dir), None)
         | ((q, dir), Some (Some err)) \<Rightarrow> ((put_queue name q m, dir), Some (writeQueueError err))
         | ((q, dir), Some None) \<Rightarrow>
             ((put_queue name q m, dir),
              Some (writeJSON StatusOK (CompactBody before (ls_SizeBytes (st_Log (Stats now ids q)))))))"

definition healthz :: "string list \<Rightarrow> (string \<Rightarrow> gotime) \<Rightarrow> (string \<Rightarrow> string list) \<Rightarrow> manager \<Rightarrow> response" where
  "healthz names now ids m =
     (if \<not> list_all st_Healthy (List_stats names now ids m)
      then writeJSON StatusServiceUnavailable (HealthBody False [])
      else writeJSON StatusOK (HealthBody True (Names m)))"

end
