(* ===== verification/Api_Steps.thy ===== *)
theory Api_Steps
  imports Api
begin

text \<open>
  The handlers as steps of a queue's life: what the decoder and the checks let through fits the log, and
  every request that reaches a queue is one of its steps.
\<close>

section \<open>What a decoded request can be\<close>

lemma set_fields_inv:
  assumes "\<And>m x y. f m x = Some y \<Longrightarrow> P x \<Longrightarrow> P y"
  shows "set_fields f ms x = Some y \<Longrightarrow> P x \<Longrightarrow> P y"
  by (induction ms arbitrary: x) (auto split: option.splits intro: assms)

lemma decode_inv:
  assumes step: "\<And>m x y. f m x = Some y \<Longrightarrow> P x \<Longrightarrow> P y" and zero: "P zero"
    and ok: "decode f zero body = Inr x"
  shows "P x"
proof -
  have "decode_body f zero body = Decoded x" using ok by (auto simp: decode_def split: decoded.splits)
  then have "x = zero \<or> (\<exists>ms. set_fields f ms zero = Some x)"
    by (auto simp: decode_body_def Let_def split: if_splits option.splits json.splits)
  then show ?thesis using set_fields_inv [of f P] step zero by blast
qed

lemma parse_int_lit_range: "parse_int_lit s = Some x \<Longrightarrow> in_i64 x"
  by (auto simp: parse_int_lit_def Let_def in_i64_def min_i64_def max_i64_def split: if_splits list.splits option.splits)

definition request_ranges :: "enqueueRequest \<Rightarrow> bool" where
  "request_ranges r \<longleftrightarrow> in_i64 (eq_Priority r) \<and> in_i64 (eq_DelayMS r)"

lemma set_enqueue_field_ranges: "set_enqueue_field m x = Some y \<Longrightarrow> request_ranges x \<Longrightarrow> request_ranges y"
  by (auto simp: set_enqueue_field_def request_ranges_def Let_def dest: json_int_range split: prod.splits if_splits)

lemma decoded_enqueue: "decode set_enqueue_field zero_enqueue body = Inr req \<Longrightarrow> request_ranges req"
  by (rule decode_inv [of set_enqueue_field, OF set_enqueue_field_ranges])
    (simp_all add: request_ranges_def zero_enqueue_def in_i64_def min_i64_def max_i64_def)

lemma check_enqueue_None:
  "check_enqueue req = None \<longleftrightarrow> 0 < length (eq_Payload req) \<and> length (eq_Payload req) \<le> 262144 \<and>
     0 \<le> eq_DelayMS req \<and> length (eq_DedupID req) \<le> 256"
  by (auto simp: check_enqueue_def MaxPayloadBytes_def)

section \<open>What reaches the log fits it\<close>

lemma length_encodeMessage: "length (encodeMessage m) = 46 + length (m_ID m) + length (m_DedupID m) + length (m_Payload m)"
  by (simp add: encodeMessage_def)

text \<open>
  What an accepted request relies on: the id drawn names no message the queue remembers, a sequence
  number is left, and the log can record the two instants of the message: the clock and the visible
  time are nanoseconds since 1970 in 64 bits (the years 1678 to 2262). The server checks no upper bound
  of a delay, so the last of these is a condition on the request: \<open>delay_past_2262_wraps\<close> is
  what happens without it.
\<close>

definition enqueue_ok :: "gotime \<Rightarrow> gotime \<Rightarrow> u64 \<Rightarrow> int \<Rightarrow> queue \<Rightarrow> bool" where
  "enqueue_ok T now random delayMS q \<longleftrightarrow> now \<le> T \<and> in_i64 now \<and>
     in_i64 (time_add now (millis delayMS)) \<and> q_nextSeq q + 1 \<noteq> 0 \<and> map_of (q_byID q) (newID random) = None \<and>
     list_all (\<lambda>(k, e). e_MessageID e \<noteq> newID random) (q_dedup q)"

abbreviation request_message :: "gotime \<Rightarrow> u64 \<Rightarrow> enqueueRequest \<Rightarrow> queue \<Rightarrow> message" where
  "request_message now random req q \<equiv>
     new_message now random (eq_Payload req) (eq_Priority req) (millis (eq_DelayMS req)) (eq_DedupID req) q"

lemma request_message_fits:
  assumes ok: "enqueue_ok T now random (eq_DelayMS req) q" and checked: "check_enqueue req = None"
    and rng: "request_ranges req"
  shows "storable (request_message now random req q)"
    and "length (encodeMessage (request_message now random req q)) \<le> MaxRecordSize"
proof -
  note c = checked [unfolded check_enqueue_None]
  have "newID random \<noteq> []" using length_newID [of random] by (metis list.size(3) zero_neq_numeral)
  then show "storable (request_message now random req q)"
    using ok c rng by (simp add: storable_def new_message_def zero_message_def enqueue_ok_def request_ranges_def)
  show "length (encodeMessage (request_message now random req q)) \<le> MaxRecordSize"
    using c by (simp add: length_encodeMessage new_message_def MaxRecordSize_def)
qed

section \<open>Handlers are steps\<close>

text \<open>A handler touches the queue its path names, and no other.\<close>

definition served :: "gotime \<Rightarrow> string \<Rightarrow> manager \<Rightarrow> (u64 \<times> entry) list \<Rightarrow> manager \<Rightarrow> bool" where
  "served T name m new m' \<longleftrightarrow> (\<forall>k. k \<noteq> name \<longrightarrow> Get k m' = Get k m) \<and>
     (case Get name m of
        None \<Rightarrow> m' = m \<and> new = []
      | Some q \<Rightarrow> \<exists>q'. Get name m' = Some q' \<and> op_step T q new q')"

lemma op_step_idle: "op_step T q [] q"
  using op_step.threshold [of T q "q_compactThreshold q"] by (simp add: SetCompactThreshold_def)

lemma served_idle: "served T name m [] m"
  by (auto simp: served_def intro: op_step_idle split: option.splits)

lemma Get_put_queue [simp]: "Get k (put_queue name q m) = (if k = name then Some q else Get k m)"
  by (simp add: put_queue_def)

lemma served_put: "Get name m = Some q \<Longrightarrow> op_step T q new q' \<Longrightarrow> served T name m new (put_queue name q' m)"
  by (auto simp: served_def)

lemma queueFor_Inr: "queueFor name m = Inr q \<longleftrightarrow> Get name m = Some q"
  by (auto simp: queueFor_def split: option.splits)

text \<open>The record an accepted enqueue appends.\<close>

definition enqueue_records :: "gotime \<Rightarrow> u64 \<Rightarrow> string \<Rightarrow> byte list \<Rightarrow> manager \<Rightarrow> (u64 \<times> entry) list" where
  "enqueue_records now random name body m =
     (case (queueFor name m, decode set_enqueue_field zero_enqueue body, snd (api_enqueue now random name body m)) of
        (Inr q, Inr req, Inr (res, Some b)) \<Rightarrow>
          [(b, TypeEnqueue, encodeMessage (request_message now random req q))]
      | _ \<Rightarrow> [])"

lemma api_enqueue_served:
  assumes "\<And>q req. Get name m = Some q \<Longrightarrow> decode set_enqueue_field zero_enqueue body = Inr req \<Longrightarrow>
      check_enqueue req = None \<Longrightarrow> enqueue_ok T now random (eq_DelayMS req) q"
  shows "served T name m (enqueue_records now random name body m) (fst (api_enqueue now random name body m))"
proof (cases "queueFor name m")
  case (Inl r)
  then show ?thesis by (simp add: api_enqueue_def enqueue_records_def served_idle)
next
  case q: (Inr q)
  show ?thesis
  proof (cases "decode set_enqueue_field zero_enqueue body")
    case (Inl r)
    then show ?thesis using q by (simp add: api_enqueue_def enqueue_records_def served_idle)
  next
    case req: (Inr req)
    show ?thesis
    proof (cases "check_enqueue req")
      case (Some r)
      then show ?thesis using q req by (simp add: api_enqueue_def enqueue_records_def served_idle)
    next
      case None
      have ok: "enqueue_ok T now random (eq_DelayMS req) q" using assms q req None by (simp add: queueFor_Inr)
      note fits = request_message_fits [OF ok None decoded_enqueue [OF req]]
      obtain q' r where E: "Enqueue now random (eq_Payload req) (eq_Priority req) (millis (eq_DelayMS req))
          (eq_DedupID req) q = (q', r)" by force
      have api: "api_enqueue now random name body m = (put_queue name q' m, map_sum writeQueueError id r)"
        using q req None E by (cases r) (simp_all add: api_enqueue_def)
      have "op_step T q (enqueue_records now random name body m) q'"
      proof (cases r)
        case (Inl e)
        then show ?thesis using op_step.enqueue_refused [OF E [unfolded Inl]] ok q req
          by (simp add: enqueue_records_def api enqueue_ok_def)
      next
        case r: (Inr rb)
        obtain res b where rb: "rb = (res, b)" by force
        show ?thesis
        proof (cases b)
          case None
          then show ?thesis using op_step.duplicate [OF E [unfolded r rb None]] q req r rb
            by (simp add: enqueue_records_def api)
        next
          case (Some c)
          then show ?thesis using op_step.enqueued [OF E [unfolded r rb Some] fits] ok q req r rb
            by (simp add: enqueue_records_def api enqueue_ok_def)
        qed
      qed
      then show ?thesis using q by (auto simp: api queueFor_Inr intro: served_put)
    qed
  qed
qed

lemma api_dequeue_served: "served T name m [] (fst (api_dequeue now name body m))"
  by (auto simp: api_dequeue_def Let_def served_idle queueFor_Inr intro: served_put op_step.leased
      split: sum.splits prod.splits)

abbreviation id_records :: "rtype \<Rightarrow> string \<Rightarrow> 'e + u64 \<Rightarrow> (u64 \<times> entry) list" where
  "id_records t mid r \<equiv> (case r of Inl _ \<Rightarrow> [] | Inr b \<Rightarrow> [(b, t, bytes_of mid)])"

lemma api_ack_served: "api_ack name mid m = (m', r) \<Longrightarrow> served T name m (id_records TypeAck mid r) m'"
  by (auto simp: api_ack_def served_idle queueFor_Inr intro: served_put op_step.acked op_step.ack_refused
      split: sum.splits prod.splits)

lemma api_nack_served: "api_nack now name mid m = (m', r) \<Longrightarrow> served T name m (id_records TypeNack mid r) m'"
  by (auto simp: api_nack_def served_idle queueFor_Inr intro: served_put op_step.nacked op_step.nack_refused
      split: sum.splits prod.splits)

section \<open>After the answer\<close>

text \<open>Steps in a row, with the records they append.\<close>

inductive op_steps :: "gotime \<Rightarrow> nat \<Rightarrow> queue \<Rightarrow> (u64 \<times> entry) list \<Rightarrow> queue \<Rightarrow> bool" for T :: gotime where
  none_yet: "op_steps T 0 q [] q"
| one_more: "op_steps T n q new q1 \<Longrightarrow> op_step T q1 new' q2 \<Longrightarrow> op_steps T (Suc n) q (new @ new') q2"

lemma op_steps_one: "op_step T q new q' \<Longrightarrow> op_steps T 1 q new q'"
  using op_steps.one_more [OF op_steps.none_yet] by fastforce

lemma op_steps_trans: "op_steps T k q2 ys q3 \<Longrightarrow> op_steps T n q1 xs q2 \<Longrightarrow> op_steps T (n + k) q1 (xs @ ys) q3"
proof (induction rule: op_steps.induct)
  case (one_more k q2 new q3 new' q4)
  from op_steps.one_more [OF one_more.IH [OF one_more.prems] one_more.hyps(2)] show ?case by simp
qed simp

lemma op_steps_flush:
  "op_steps T n q new q1 \<Longrightarrow> flusher_step (q_log q1) l \<Longrightarrow> op_steps T (Suc n) q new (q1\<lparr>q_log := l\<rparr>)"
  using op_steps.one_more [OF _ op_step.flushed] by fastforce

lemma life_steps: "op_steps T k q new q' \<Longrightarrow> life T bes n es q \<Longrightarrow> life T bes (n + k) (es @ new) q'"
  by (induction rule: op_steps.induct) (auto intro: life.lives simp flip: append_assoc)

text \<open>Whatever happens later, the part of the file that is on disk stays there.\<close>

abbreviation on_platter :: "wlog \<Rightarrow> byte list" where
  "on_platter l \<equiv> take (l_synced l) (l_file l)"

lemma flush_end_keeps: "prefix (on_platter l) (on_platter (flush_end data r b f out t l))"
  by (cases out) (auto simp: flush_end_def writeSync_def Let_def take_is_prefix intro: prefix_prefix)

lemma flusher_keeps: "flusher_step l l' \<Longrightarrow> prefix (on_platter l) (on_platter l')"
  by (induction rule: flusher_step.induct) (auto simp: flush_begin_def flush_end_keeps)

lemma Append_keeps: "Append t p l = (l', r) \<Longrightarrow> on_platter l' = on_platter l"
  by (auto simp: Append_def kick_def Let_def split: if_splits option.splits)

lemma appends_keeps: "appends l new l' \<Longrightarrow> on_platter l' = on_platter l"
  by (induction rule: appends.induct) (auto dest: Append_keeps)

lemma log_move_keeps: "log_move l l' \<Longrightarrow> prefix (on_platter l) (on_platter l')"
  by (auto simp: log_move_def Close_begin_def Sync_def reopen_failed_def Reopen_def kick_def Let_def flusher_keeps
      split: if_splits option.splits sum.splits prod.splits)

lemma life_keeps:
  assumes "op_steps T k q new q'" and "life T bes n es q" and "few_records (length bes + length (es @ new))"
  shows "prefix (on_platter (q_log q)) (on_platter (q_log q'))"
  using assms
proof (induction rule: op_steps.induct)
  case (one_more k q new q1 new' q2)
  from one_more.prems(2) have room: "few_records (length bes + length (es @ new))" by (simp add: few_records_def)
  from life_accounted [OF life_steps [OF one_more.hyps(1) one_more.prems(1)] room] one_more.hyps(2) room
  have "prefix (on_platter (q_log q1)) (on_platter (q_log q2))"
    by (cases rule: accounted_cases) (auto simp: accounts_def appends_keeps log_move_keeps)
  with one_more.IH [OF one_more.prems(1) room] show ?case by (rule prefix_order.trans)
qed simp

lemma crash_image_platter: "crash_image l (on_platter l)"
  by (simp add: crash_image_def take_is_prefix prefix_prefix)

text \<open>A record whose wait has returned nil is recovered after any later crash.\<close>

lemma answered_record_survives:
  assumes life: "life T bes n es q" and i: "i < length es" and waited: "Wait (fst (es ! i)) (q_log q) = Some None"
    and later: "op_steps T k q new q'" and steps: "n + k < 2 ^ 64 - 2"
    and room: "few_records (length bes + length (es @ new))"
    and img: "crash_image (q_log q') img" and env: "env_ok img env"
  shows "\<exists>j q2. i < j \<and> j \<le> length (es @ new) \<and> Load root name (Opened img no_io) env clock t1 t2 = Inr q2 \<and>
    queue_inv q2 \<and> a_run (bes @ map snd (take j (es @ new))) a_init = Inr (absq q2)"
proof -
  have room': "few_records (length bes + length es)" using room by (simp add: few_records_def)
  have "n < 2 ^ 64 - 2" using steps by simp
  from records_on_disk [OF life this room'] obtain j where j: "j \<le> length es" "i < j"
    and disk: "\<forall>img. crash_image (q_log q) img \<longrightarrow> prefix (encode_all (bes @ map snd (take j es))) img"
    using i waited by blast
  have "prefix (encode_all (bes @ map snd (take j es))) (on_platter (q_log q))"
    using disk crash_image_platter by blast
  also have "prefix \<dots> (on_platter (q_log q'))" by (rule life_keeps [OF later life room])
  also have "prefix \<dots> img" using img by (simp add: crash_image_def)
  finally have "length (encode_all (bes @ map snd (take j (es @ new)))) \<le> length img"
    using j(1) by (auto dest: prefix_length_le)
  from recovery_upto [OF life_steps [OF later life] steps room img env this, of root name clock t1 t2] j
  obtain m q2 where "j \<le> m" "m \<le> length (es @ new)" "Load root name (Opened img no_io) env clock t1 t2 = Inr q2"
    "queue_inv q2" "a_run (bes @ map snd (take m (es @ new))) a_init = Inr (absq q2)" by auto
  then show ?thesis using j(2) by (intro exI [of _ m] exI [of _ q2]) simp
qed

text \<open>A step is taken, its record is waited for, and the queue goes on until a crash.\<close>

lemma answered_step_survives:
  assumes life: "life T bes n es q" and step: "op_step T q [(b, e)] q1"
    and meanwhile: "op_steps T k q1 new q2" and waited: "Wait b (q_log q2) = Some None"
    and later: "op_steps T k' q2 new' q3"
    and steps: "n + k + k' < 2 ^ 64 - 3" and room: "few_records (length bes + length es + 1 + length new + length new')"
    and crash: "crash_image (q_log q3) img" "env_ok img env"
  shows "\<exists>q' es'. Load root name (Opened img no_io) env clock t1 t2 = Inr q' \<and> queue_inv q' \<and>
    prefix es' (map snd (new @ new')) \<and> a_run (bes @ map snd es @ e # es') a_init = Inr (absq q')"
proof -
  from life_steps [OF meanwhile life.lives [OF life step]]
  have l2: "life T bes (Suc n + k) (es @ (b, e) # new) q2" by simp
  have w: "Wait (fst ((es @ (b, e) # new) ! length es)) (q_log q2) = Some None" using waited by simp
  have "Suc n + k + k' < 2 ^ 64 - 2" "few_records (length bes + length ((es @ (b, e) # new) @ new'))"
    using steps room by (simp_all add: few_records_def)
  from answered_record_survives [OF l2 _ w later this crash, of root name clock t1 t2]
  obtain i q' where i: "length es < i" "Load root name (Opened img no_io) env clock t1 t2 = Inr q'" "queue_inv q'"
    "a_run (bes @ map snd (take i ((es @ (b, e) # new) @ new'))) a_init = Inr (absq q')" by auto
  obtain d where "i = length es + Suc d" using i(1) by (auto simp: less_iff_Suc_add)
  then have "take i ((es @ (b, e) # new) @ new') = es @ (b, e) # take d (new @ new')" by simp
  then show ?thesis using i
    by (intro exI [of _ q'] exI [of _ "map snd (take d (new @ new'))"])
      (simp add: take_is_prefix flip: take_map del: take_append)
qed

section \<open>Answered requests\<close>

text \<open>
  A request that changes a queue and is answered with success: its critical section turns the registry
  \<open>m\<close> into \<open>m1\<close> and appends the record \<open>e\<close>; when the queue has become \<open>q2\<close> the handler answers and leaves \<open>q3\<close>.
\<close>

inductive answered :: "gotime \<Rightarrow> string \<Rightarrow> manager \<Rightarrow> entry \<Rightarrow> manager \<Rightarrow> queue \<Rightarrow> queue \<Rightarrow> bool"
  for T :: gotime and name :: string where
  enqueue: "Get name m = Some q \<Longrightarrow> decode set_enqueue_field zero_enqueue body = Inr req \<Longrightarrow>
    enqueue_ok T now random (eq_DelayMS req) q \<Longrightarrow>
    api_enqueue now random name body m = (m1, Inr (res, Some b)) \<Longrightarrow>
    api_enqueue_finish (res, Some b) q2 = Some (q3, r) \<Longrightarrow> rs_status r = StatusCreated \<Longrightarrow>
    answered T name m (TypeEnqueue, encodeMessage (request_message now random req q)) m1 q2 q3"
| ack: "api_ack name mid m = (m1, Inr b) \<Longrightarrow> api_ack_finish mid b q2 = Some (q3, r) \<Longrightarrow>
    rs_status r = StatusOK \<Longrightarrow> answered T name m (TypeAck, bytes_of mid) m1 q2 q3"
| nack: "api_nack now name mid m = (m1, Inr b) \<Longrightarrow> api_nack_finish mid b q2 = Some (q3, r) \<Longrightarrow>
    rs_status r = StatusOK \<Longrightarrow> answered T name m (TypeNack, bytes_of mid) m1 q2 q3"

lemmas answer_defs = api_enqueue_finish_def Enqueue_wait_def api_ack_finish_def Ack_wait_def api_nack_finish_def
  Nack_wait_def waitDurable_def writeQueueError_def writeError_def writeJSON_def

lemma waited_steps:
  assumes "Wait b (q_log q) = Some None"
  shows "op_steps T 1 q [] q" and "op_steps T 2 q [] (signal q)"
proof -
  have "waitDurable b q = Some (q, None)" using assms by (simp add: waitDurable_def)
  from op_steps_one [OF op_step.waited [OF this]] show one: "op_steps T 1 q [] q" .
  show "op_steps T 2 q [] (signal q)" using op_steps.one_more [OF one op_step.signalled] by (simp add: numeral_2_eq_2)
qed

lemma answered_step:
  assumes "answered T name m e m1 q2 q3" and q: "Get name m = Some q" and q1: "Get name m1 = Some q1"
  shows "\<exists>b. op_step T q [(b, e)] q1 \<and> Wait b (q_log q2) = Some None \<and> (\<exists>j \<le> 2. op_steps T j q2 [] q3)"
  using assms(1)
proof cases
  case (enqueue q' body req now random res b r)
  have "served T name m (enqueue_records now random name body m) (fst (api_enqueue now random name body m))"
    by (rule api_enqueue_served) (use enqueue in auto)
  then have "op_step T q [(b, e)] q1" using q q1 enqueue(1-3,5) by (auto simp: served_def enqueue_records_def queueFor_def)
  moreover have w: "Wait b (q_log q2) = Some None" "q3 = signal q2"
    using enqueue(6,7) by (auto simp: answer_defs split: option.splits if_splits)
  ultimately show ?thesis using waited_steps(2) [OF w(1)] by blast
next
  case (ack mid b r)
  have "op_step T q [(b, e)] q1" using api_ack_served [OF ack(2), of T] q q1 ack(1) by (auto simp: served_def)
  moreover have w: "Wait b (q_log q2) = Some None" "q3 = q2"
    using ack(3,4) by (auto simp: answer_defs split: option.splits if_splits)
  ultimately show ?thesis using op_steps.none_yet by blast
next
  case (nack now mid b r)
  have "op_step T q [(b, e)] q1" using api_nack_served [OF nack(2), of T] q q1 nack(1) by (auto simp: served_def)
  moreover have w: "Wait b (q_log q2) = Some None" "q3 = signal q2"
    using nack(3,4) by (auto simp: answer_defs split: option.splits if_splits)
  ultimately show ?thesis using waited_steps(2) [OF w(1)] by blast
qed

end
