(* ===== verification/Queue_Retry.thy ===== *)
theory Queue_Retry
  imports Api_Steps Sample_Life
begin

text \<open>
  Enqueues with a deduplication id: what a producer gets that tries again. The entry an accepted enqueue
  leaves stays in the queue until its window is over, whatever the queue does meanwhile; it is neither
  purged early nor overwritten, and a replay of the log brings it back.
\<close>

section \<open>Records that leave an entry alone\<close>

definition leaves :: "string \<Rightarrow> entry \<Rightarrow> bool" where
  "leaves key e \<longleftrightarrow> fst e \<noteq> TypeDedup \<and>
     (fst e = TypeEnqueue \<longrightarrow> (case decodeMessage (snd e) of Inl _ \<Rightarrow> True | Inr m \<Rightarrow> m_DedupID m \<noteq> key))"

lemma leaves_apply: "a_apply e a = Inr a' \<Longrightarrow> leaves key e \<Longrightarrow> a_dedup a' key = a_dedup a key"
  by (auto simp: a_apply_def Let_def leaves_def bindE_eq_Inr a_meta_def a_ack_def a_attempt_def
      dest!: a_enqueue_Inr(4) split: if_splits option.splits)

lemma leaves_run: "a_run es a = Inr a' \<Longrightarrow> list_all (leaves key) es \<Longrightarrow> a_dedup a' key = a_dedup a key"
proof (induction es arbitrary: a)
  case (Cons e es)
  then obtain a1 where "a_apply e a = Inr a1" "a_run es a1 = Inr a'" by (auto simp: bindE_eq_Inr)
  then show ?case using Cons leaves_apply [of e a a1 key] by simp
qed simp

text \<open>Agreement keeps entries whose window is open.\<close>

lemma sim_entry: "a_sim T a b \<Longrightarrow> a_dedup a key = Some e \<Longrightarrow> T < e_ExpiresAt e \<Longrightarrow> a_dedup b key = Some e"
  unfolding a_rel_def dedup_sim_def expired_opt_def by (metis option.simps(5) not_less)

lemma sim_sym: "a_sim T a b \<Longrightarrow> a_sim T b a"
  unfolding a_rel_def dedup_sim_def same_cfg_def by metis

section \<open>Steps keep an open entry\<close>

abbreviation entry_of :: "queue \<Rightarrow> string \<Rightarrow> dedupEntry option" where
  "entry_of q \<equiv> map_of (q_dedup q)"

lemma absq_entry: "a_dedup (absq q) = entry_of q"
  by (simp add: absq_def)

lemma op_step_leaves:
  assumes step: "op_step T q new q'" and key: "key \<noteq> ''''" and e: "entry_of q key = Some e" "T < e_ExpiresAt e"
  shows "list_all (leaves key) (map snd new)"
  using step
proof cases
  case (enqueued now rnd pl pr d k res b)
  have "dedup_hit now k q = None" using enqueued(2) by (auto simp: Enqueue_def split: option.splits)
  then have "k \<noteq> key" using e key enqueued(5) by (auto simp: dedup_hit_def split: if_splits)
  then show ?thesis
    using decodeMessage_encodeMessage [OF enqueued(3)] enqueued(1)
    by (simp add: leaves_def rtype_defs) (simp add: new_message_def zero_message_def)
next
  case (ticked now b c nx)
  have "list_all (\<lambda>x. fst (snd x) = TypeLeaseExpire) new"
    using expire_records_types by (simp add: ticked(1) tick_records_def Let_def)
  then show ?thesis by (auto simp: list_all_iff leaves_def rtype_defs)
qed (simp_all add: leaves_def rtype_defs)

lemma op_step_entry:
  assumes acc: "accounted T bes n es q" and room: "few_records (length bes + length es)" and step: "op_step T q new q'"
    and key: "key \<noteq> ''''" and e: "entry_of q key = Some e" "T < e_ExpiresAt e"
  shows "entry_of q' key = Some e"
  using acc step room
proof (cases rule: accounted_cases)
  case op
  then obtain a where a: "a_run (map snd new) (absq q) = Inr a" "a_purged T (absq q') a" by (auto simp: accounts_def)
  have "a_dedup a key = Some e"
    using leaves_run [OF a(1) op_step_leaves [OF step key e]] e(1) by (simp add: absq_entry)
  from sim_entry [OF sim_sym [OF purged_sim [OF a(2)]] this e(2)] show ?thesis by (simp add: absq_entry)
qed (use e in simp)

lemma op_steps_entry:
  assumes "op_steps T k q new q'" and "life T bes n es q" and "few_records (length bes + length es + length new)"
    and "key \<noteq> ''''" and "entry_of q key = Some e" and "T < e_ExpiresAt e"
  shows "entry_of q' key = Some e \<and> list_all (leaves key) (map snd new)"
  using assms
proof (induction rule: op_steps.induct)
  case (one_more k q new q1 new' q2)
  have few: "few_records (length bes + length es + length new)" "few_records (length bes + length (es @ new))"
    using one_more.prems(2) by (simp_all add: few_records_def)
  from one_more.IH [OF one_more.prems(1) few(1) one_more.prems(3-5)]
  have q1: "entry_of q1 key = Some e" "list_all (leaves key) (map snd new)" by simp_all
  have "accounted T bes (n + k) (es @ new) q1"
    by (rule life_accounted [OF life_steps [OF one_more.hyps(1) one_more.prems(1)] few(2)])
  from op_step_entry [OF this few(2) one_more.hyps(2) one_more.prems(3) q1(1) one_more.prems(5)]
    op_step_leaves [OF one_more.hyps(2) one_more.prems(3) q1(1) one_more.prems(5)]
  show ?case using q1(2) by simp
qed simp

section \<open>A queue is loaded in service\<close>

abbreviation in_service_as :: "queue \<Rightarrow> queue \<Rightarrow> bool" where
  "in_service_as q q' \<equiv> q_failed q' = q_failed q \<and> q_closed q' = q_closed q"

lemma place_status: "in_service_as q (place p now q)"
  by (simp add: place_def push_delayed_def push_ready_def Let_def upd_def split: prod.splits)

lemma detach_status: "in_service_as q (detach p q)"
  by (simp add: detach_def detach_from_def remove_ready_def remove_delayed_def remove_inflight_def Let_def upd_def
      split: prod.splits mstate.splits)

lemma apply_status:
  "applyEnqueue m now q = Inr q' \<Longrightarrow> in_service_as q q'"
  "applyAck k q = Inr q' \<Longrightarrow> in_service_as q q'"
  "applyAttempt k now q = Inr (q', dead) \<Longrightarrow> in_service_as q q'"
  "apply_meta b q = Inr q' \<Longrightarrow> in_service_as q q'"
proof -
  show "in_service_as q q'" if "applyEnqueue m now q = Inr q'"
    using that by (auto simp: applyEnqueue_def Let_def place_status upd_def simp del: fun_upd_apply split: if_splits)
  show "in_service_as q q'" if "applyAck k q = Inr q'"
    using that by (auto simp: applyAck_def Let_def detach_status split: option.splits)
  show "in_service_as q q'" if "apply_meta b q = Inr q'"
  proof -
    from that obtain cfg where "q' = (if c_NextSeq cfg > q_nextSeq q then q\<lparr>q_cfg := cfg, q_nextSeq := c_NextSeq cfg\<rparr>
        else q\<lparr>q_cfg := cfg\<rparr>)"
      unfolding apply_meta_def Let_def bindE_eq_Inr by force
    then show ?thesis by simp
  qed
  assume a: "applyAttempt k now q = Inr (q', dead)"
  then obtain p where p: "map_of (q_byID q) k = Some p" by (auto simp: applyAttempt_def split: option.splits)
  have "in_service_as q (upd p f (detach p q))" for f using detach_status [of p q] by (simp add: upd_def)
  then show "in_service_as q q'" using a p
    by (simp add: applyAttempt_def Let_def split: if_splits) (auto simp: place_status upd_def simp del: fun_upd_apply)
qed

lemma apply_record_status: "apply_record now rec q = Inr q' \<Longrightarrow> in_service_as q q'"
  by (auto simp: apply_record_def Let_def bindE_eq_Inr dest: apply_status split: if_splits)

lemma load_step_status: "load_step clock s rec = Inr s' \<Longrightarrow> in_service_as (snd s) (snd s')"
  by (auto simp: load_step_def Let_def bindE_eq_Inr dest: apply_record_status split: prod.splits if_splits)

lemma feed_status: "feed (load_step clock) off es s = Inr s' \<Longrightarrow> in_service_as (snd s) (snd s')"
proof (induction es arbitrary: off s)
  case (Cons e es)
  obtain t p where "e = (t, p)" by (cases e)
  then show ?case using Cons by (auto simp: bindE_eq_Inr dest!: load_step_status)
qed simp

lemma Load_in_service:
  assumes "Load root name (Opened data io) env clock t1 t2 = Inr q"
  shows "checkLocked q = None"
proof -
  let ?path = "path_join (path_join root name) logFileName"
  let ?q = "(newQueue (path_join root name))\<lparr>q_path := ?path\<rparr>"
  obtain res saw q1 er where R: "Replay ?path (Opened data io) (load_step clock) (False, ?q) = (res, (saw, q1), er)"
    by (metis prod_cases3 surj_pair)
  then have er: "er = None" and q: "in_service_as q1 q"
    using assms by (auto simp: Load_def Let_def bindE_eq_Inr start_def split: option.splits if_splits)
  have "replay_loop ?path data io (load_step clock) 0 empty_result (False, ?q) = (res, (saw, q1), None)"
    using R er by (simp add: Replay_def)
  from replay_loop_sound [OF _ this] obtain es where "feed (load_step clock) 0 es (False, ?q) = Inr (saw, q1)" by auto
  from feed_status [OF this] show ?thesis using q by (simp add: newQueue_def checkLocked_def)
qed

section \<open>Retries\<close>

text \<open>
  What a producer gets that enqueues under \<open>key\<close> again: before \<open>until\<close> the id of the first message, with
  only the count of duplicates changed, and from then on a message of its own.
\<close>

definition answers_retry :: "string \<Rightarrow> string \<Rightarrow> gotime \<Rightarrow> queue \<Rightarrow> bool" where
  "answers_retry key mid until q \<longleftrightarrow> (\<forall>t rnd payload priority delay.
     if t < until
     then Enqueue t rnd payload priority delay key q =
       (q\<lparr>q_counters := (q_counters q)\<lparr>n_Duplicates := n_Duplicates (q_counters q) + 1\<rparr>\<rparr>,
        Inr (\<lparr>er_ID = mid, er_Seq = 0, er_VisibleAt = zero_time, er_Duplicate = True\<rparr>, None))
     else log_refusal (q_log q) = None \<longrightarrow> map_of (q_byID q) (newID rnd) = None \<longrightarrow>
       (\<exists>q' res b. Enqueue t rnd payload priority delay key q = (q', Inr (res, Some b)) \<and>
          er_ID res = newID rnd \<and> \<not> er_Duplicate res))"

lemma answers_retryD:
  assumes "answers_retry key mid until q" and "t < until"
  shows "Enqueue t rnd payload priority delay key q =
    (q\<lparr>q_counters := (q_counters q)\<lparr>n_Duplicates := n_Duplicates (q_counters q) + 1\<rparr>\<rparr>,
     Inr (\<lparr>er_ID = mid, er_Seq = 0, er_VisibleAt = zero_time, er_Duplicate = True\<rparr>, None))"
  using assms(1) [unfolded answers_retry_def, rule_format, of t rnd payload priority delay] assms(2) by simp

lemma entry_answers:
  assumes inv: "queue_inv q" and up: "checkLocked q = None" and key: "key \<noteq> ''''" and e: "entry_of q key = Some e"
  shows "answers_retry key (e_MessageID e) (e_ExpiresAt e) q"
proof -
  have "\<exists>q' res b. Enqueue t rnd pl pr d key q = (q', Inr (res, Some b)) \<and> er_ID res = newID rnd \<and> \<not> er_Duplicate res"
    if "\<not> t < e_ExpiresAt e" "l_fatal (q_log q) = None" "\<not> l_closed (q_log q)" "map_of (q_byID q) (newID rnd) = None"
    for t rnd pl pr d
    using enqueue_new_ok [OF inv that(2-4) refl, of t pl pr d key] that(1) up key e
    by (auto simp: Enqueue_def dedup_hit_def)
  then show ?thesis
    using up key e unfolding answers_retry_def
    by (auto simp: Enqueue_def dedup_hit_def bump_def log_refusal_None)
qed

text \<open>The entry an accepted enqueue leaves, in the queue and in a replay of its log.\<close>

lemma enqueue_entry:
  assumes acc: "accounted T bes n es q" and room: "few_records (length bes + length es)"
    and M: "M = new_message now rnd pl pr d key q" and st: "storable M"
    and step: "op_step T q [(b, TypeEnqueue, encodeMessage M)] q1" and key: "key \<noteq> ''''"
    and window: "T < time_add now (dedupWindow (q_cfg q))"
  shows "entry_of q1 key = Some (dedup_of (q_cfg q) M)"
    and "a_run (bes @ map snd es @ (TypeEnqueue, encodeMessage M) # es') a_init = Inr a' \<Longrightarrow> list_all (leaves key) es' \<Longrightarrow>
      a_dedup a' key = Some (dedup_of (q_cfg q) M)"
proof -
  let ?rec = "(TypeEnqueue, encodeMessage M)"
  have M': "m_DedupID M = key" "m_CreatedAt M = now" by (simp_all add: M new_message_def zero_message_def)
  then have open_entry: "T < e_ExpiresAt (dedup_of (q_cfg q) M)" using window by (simp add: dedup_of_def)
  have put: "a_dedup c key = Some (dedup_of (a_cfg a) M)" if "a_apply ?rec a = Inr c" for a c
    using that key M'(1) by (auto simp: a_apply_def rtype_defs decodeMessage_encodeMessage [OF st] dest!: a_enqueue_Inr(4))
  show "entry_of q1 key = Some (dedup_of (q_cfg q) M)"
    using acc step room
  proof (cases rule: accounted_cases)
    case op
    then obtain a where a: "a_apply ?rec (absq q) = Inr a" "a_purged T (absq q1) a"
      by (auto simp: accounts_def bindE_eq_Inr)
    have "a_dedup a key = Some (dedup_of (q_cfg q) M)" using put [OF a(1)] by (simp add: absq_def)
    from sim_entry [OF sim_sym [OF purged_sim [OF a(2)]] this open_entry] show ?thesis by (simp add: absq_entry)
  qed simp
  assume run: "a_run (bes @ map snd es @ ?rec # es') a_init = Inr a'" and quiet: "list_all (leaves key) es'"
  from acc obtain a where a: "a_run (bes @ map snd es) a_init = Inr a" "a_sim T (absq q) a" by (auto simp: accounted_def)
  have "a_run ((bes @ map snd es) @ ?rec # es') a_init = Inr a'" using run by simp
  then have "a_run (?rec # es') a = Inr a'" unfolding a_run_append [of "bes @ map snd es"] a(1) by (simp only: bindE_simps)
  then obtain c where c: "a_apply ?rec a = Inr c" "a_run es' c = Inr a'" by (auto simp only: a_run.simps bindE_eq_Inr)
  have "dedup_of (a_cfg a) M = dedup_of (q_cfg q) M"
    using a(2) same_cfg_uses(1) [of "q_cfg q" "a_cfg a" M] by (simp add: a_rel_def absq_def)
  then show "a_dedup a' key = Some (dedup_of (q_cfg q) M)" using leaves_run [OF c(2) quiet] put [OF c(1)] by simp
qed

text \<open>C34: enqueues with a deduplication id are idempotent, so that a producer may try again when it gets no
  answer. Once a message has been enqueued under an id, and whatever calls, ticks of the timer and moves of
  the flusher follow (the message may be delivered and acknowledged meanwhile; a compaction that succeeds,
  which writes the entry anew, is not among these steps), every further enqueue under
  the id that comes before the window closes is answered with the first message's id, and changes nothing but
  the count of duplicates; from the moment the window closes the id is free again. The same holds of the
  queue a restart finds after a crash, when the producer's first enqueue was on disk. It takes what every
  enqueue takes to be recorded as it is: the message fits its record, its id is new and a sequence number is
  left; the clocks of the steps in between lie within the window; and there are fewer than \<open>2\<^sup>6\<^sup>2\<close> records.\<close>

theorem retries_are_idempotent:
  assumes life: "life T bes n es q" and key: "key \<noteq> ''''"
    and first: "Enqueue now rnd pl pr d key q = (q1, Inr (res, Some b))"
    and M: "M = new_message now rnd pl pr d key q" "storable M" "length (encodeMessage M) \<le> MaxRecordSize"
    and new: "q_nextSeq q + 1 \<noteq> 0" "list_all (\<lambda>(k, e). e_MessageID e \<noteq> newID rnd) (q_dedup q)"
    and window: "now \<le> T" "T < time_add now (dedupWindow (q_cfg q))"
    and meanwhile: "op_steps T k q1 new q2" and later: "op_steps T k' q2 new' q3"
    and steps: "n + k + k' < 2 ^ 64 - 3" and room: "few_records (length bes + length es + 1 + length new + length new')"
  shows "er_ID res = newID rnd \<and>
    (checkLocked q2 = None \<longrightarrow> answers_retry key (er_ID res) (time_add now (dedupWindow (q_cfg q))) q2) \<and>
    (Wait b (q_log q2) = Some None \<longrightarrow> crash_image (q_log q3) img \<longrightarrow> env_ok img env \<longrightarrow>
      (\<exists>q4. Load root name (Opened img no_io) env clock t1 t2 = Inr q4 \<and>
         answers_retry key (er_ID res) (time_add now (dedupWindow (q_cfg q))) q4))"
proof -
  let ?rec = "(TypeEnqueue, encodeMessage M)" and ?e = "dedup_of (q_cfg q) M"
  have step: "op_step T q [(b, ?rec)] q1"
    using op_step.enqueued [OF first, of T] M window(1) new by simp
  have id: "er_ID res = newID rnd"
    using first by (auto simp: Enqueue_def enqueue_new_def Let_def new_message_def zero_message_def
        split: option.splits prod.splits sum.splits)
  have e: "e_MessageID ?e = newID rnd" "e_ExpiresAt ?e = time_add now (dedupWindow (q_cfg q))"
    by (simp_all add: M(1) dedup_of_def new_message_def zero_message_def)
  have few: "few_records (length bes + length es)" using room by (simp add: few_records_def)
  note entry = enqueue_entry [OF life_accounted [OF life few] few M(1,2) step key window(2)]
  have life1: "life T bes (Suc n) (es @ [(b, ?rec)]) q1" using life.lives [OF life step] .
  have life2: "life T bes (Suc n + k) ((es @ [(b, ?rec)]) @ new) q2" by (rule life_steps [OF meanwhile life1])
  have until: "T < e_ExpiresAt ?e" using window(2) e(2) by simp
  have f1: "few_records (length bes + length (es @ [(b, ?rec)]) + length new)"
    and f2: "few_records (length bes + length ((es @ [(b, ?rec)]) @ new) + length new')"
    and f3: "few_records (length bes + length ((es @ [(b, ?rec)]) @ new))"
    using room by (simp_all add: few_records_def)
  note q2 = op_steps_entry [OF meanwhile life1 f1 key entry(1) until]
  note q3 = op_steps_entry [OF later life2 f2 key conjunct1 [OF q2] until]
  have "queue_inv q2" using life_accounted [OF life2 f3] by (simp add: accounted_def)
  then have now_on: "checkLocked q2 = None \<Longrightarrow> answers_retry key (newID rnd) (time_add now (dedupWindow (q_cfg q))) q2"
    using entry_answers [OF _ _ key conjunct1 [OF q2]] unfolding e by blast
  have "\<exists>q4. Load root name (Opened img no_io) env clock t1 t2 = Inr q4 \<and>
      answers_retry key (newID rnd) (time_add now (dedupWindow (q_cfg q))) q4"
    if "Wait b (q_log q2) = Some None" "crash_image (q_log q3) img" "env_ok img env"
  proof -
    from answered_step_survives [OF life step meanwhile that(1) later steps room that(2,3), of root name clock t1 t2]
    obtain q4 es' where q4: "Load root name (Opened img no_io) env clock t1 t2 = Inr q4" "queue_inv q4"
      "prefix es' (map snd (new @ new'))" "a_run (bes @ map snd es @ ?rec # es') a_init = Inr (absq q4)" by blast
    have all: "list_all (leaves key) (map snd (new @ new'))" using q2 q3 by simp
    obtain rest where "map snd (new @ new') = es' @ rest" using q4(3) unfolding prefix_def by blast
    with all have "list_all (leaves key) es'" by (metis list_all_append)
    from entry(2) [OF q4(4) this] have "entry_of q4 key = Some ?e" by (simp add: absq_entry)
    from entry_answers [OF q4(2) Load_in_service [OF q4(1)] key this] q4(1) show ?thesis unfolding e by blast
  qed
  then show ?thesis using now_on by (simp add: id)
qed

text \<open>The sample queue: a second enqueue under \<open>job\<close>, 50 ns after the first.\<close>

theorem retries_are_idempotent_witness:
  "\<exists>q1 q2. Enqueue 100 7 [49] 0 0 ''job'' sample_running =
      (q1, Inr (\<lparr>er_ID = newID 7, er_Seq = 1, er_VisibleAt = 100, er_Duplicate = False\<rparr>, Some 2)) \<and>
    Enqueue 150 8 [50] 0 0 ''job'' q1 =
      (q2, Inr (\<lparr>er_ID = newID 7, er_Seq = 0, er_VisibleAt = zero_time, er_Duplicate = True\<rparr>, None))"
proof -
  from sample_enqueued [of 200] obtain q1 where q1: "Enqueue 100 7 [49] 0 0 ''job'' sample_running =
      (q1, Inr (\<lparr>er_ID = newID 7, er_Seq = 1, er_VisibleAt = 100, er_Duplicate = False\<rparr>, Some 2))" "checkLocked q1 = None"
    by auto
  have window: "(200 :: int) < time_add 100 (dedupWindow (q_cfg sample_running))"
    by (simp add: sample_life_defs newQueue_def sample_valid_def dedupWindow_def time_add_def millis_def in_i64_def
        min_i64_def max_i64_def)
  have few: "few_records (length [] + length [(1 :: u64, TypeMeta, sample_meta)] + 1 + length [] + length [])"
    by (simp add: few_records_def max_i64_def)
  have new: "q_nextSeq sample_running + 1 \<noteq> 0" "list_all (\<lambda>(k, e). e_MessageID e \<noteq> newID 7) (q_dedup sample_running)"
    by (simp_all add: sample_running_fields)
  from retries_are_idempotent [OF sample_life _ q1(1) refl sample_queued_fits new _ window op_steps.none_yet op_steps.none_yet _ few]
    q1(2) have "answers_retry ''job'' (newID 7) (time_add 100 (dedupWindow (q_cfg sample_running))) q1" by simp
  then have "Enqueue 150 8 [50] 0 0 ''job'' q1 =
      (q1\<lparr>q_counters := (q_counters q1)\<lparr>n_Duplicates := n_Duplicates (q_counters q1) + 1\<rparr>\<rparr>,
       Inr (\<lparr>er_ID = newID 7, er_Seq = 0, er_VisibleAt = zero_time, er_Duplicate = True\<rparr>, None))"
    by (rule answers_retryD) (use window in simp)
  then show ?thesis using q1(1) by blast
qed

end
