(* ===== verification/Api_Props.thy ===== *)
theory Api_Props
  imports Api_Steps Sample_Life
begin

text \<open>
  The properties of the registry and of the HTTP handlers: opening a data directory, requests as steps
  of the queues, answers that survive a crash, refusals and outages.
\<close>

section \<open>Opening a data directory\<close>

definition sample_entry :: dir_entry where
  "sample_entry = \<lparr>de_Name = ''jobs'', de_IsDir = True, de_stat_ok = True,
     de_file = Opened (Encode [] TypeMeta sample_meta) no_io,
     de_env = sample_env\<lparr>oe_OpenFile := Inr (Encode [] TypeMeta sample_meta)\<rparr>,
     de_clock = (\<lambda>_. 0), de_now1 = 0, de_now2 = 0\<rparr>"

text \<open>C9: recovery of a whole server. When every queue directory holds what a crash left of a queue's log,
  \<open>OpenManager\<close> succeeds and finds every one of them, each in the state of a prefix of its records that
  contains all that were acknowledged.\<close>

theorem open_manager_recovers:
  assumes names: "distinct (map de_Name entries)"
    and past: "\<And>e. e \<in> set entries \<Longrightarrow> survived T (bes e) (n e) (es e) (q e) e"
  shows "\<exists>m. OpenManager root None (Inr entries) = Inr m \<and>
    (\<forall>e \<in> set entries. \<exists>q'. Get (de_Name e) m = Some q' \<and> queue_inv q' \<and>
       (\<exists>k \<le> length (es e). a_run (bes e @ map snd (take k (es e))) a_init = Inr (absq q') \<and>
          (\<forall>i < length (es e). Wait (fst (es e ! i)) (q_log (q e)) = Some None \<longrightarrow> i < k)))"
  using OpenManager_survivors [OF assms, of root] by (simp add: restored_def)

theorem open_manager_recovers_witness:
  "\<exists>m q'. OpenManager ''data'' None (Inr [sample_entry]) = Inr m \<and> Get ''jobs'' m = Some q' \<and> queue_inv q'"
proof -
  have s: "survived 0 [] 3 [(1, TypeMeta, sample_meta)] sample_running e" if "e \<in> set [sample_entry]" for e
    using that sample_life [of 0] sample_running_log(2,3)
    by (simp add: survived_def sample_entry_def env_ok_def sample_env_def few_records_def max_i64_def)
  have "distinct (map de_Name [sample_entry])" by simp
  from open_manager_recovers [OF this s, of "''data''"] show ?thesis by (auto simp: sample_entry_def)
qed

text \<open>C38: \<open>OpenManager\<close> is all or nothing. It succeeds exactly when no queue directory fails to load, where a
  directory without a log and a queue whose creation was interrupted do not count; then exactly the
  loaded queues are registered. Otherwise the error is that of such a directory.\<close>

theorem open_manager_all_or_nothing:
  assumes names: "distinct (map de_Name entries)"
  shows "case OpenManager root None (Inr entries) of
      Inr m \<Rightarrow> (\<forall>e \<in> set entries. de_IsDir e \<and> de_stat_ok e \<longrightarrow>
        (case load_entry root e of Inr q \<Rightarrow> Get (de_Name e) m = Some q
         | Inl err \<Rightarrow> is_incomplete err \<and> Get (de_Name e) m = None))
    | Inl err \<Rightarrow> (\<exists>e \<in> set entries. \<exists>x. de_IsDir e \<and> de_stat_ok e \<and> load_entry root e = Inl x \<and>
        \<not> is_incomplete x \<and> err = Wrapped ''loading queue'' x)"
proof (cases "OpenManager root None (Inr entries)")
  case (Inl err)
  then show ?thesis using OpenManager_error by fastforce
next
  case (Inr m)
  then obtain qs where qs: "load_queues root entries [] = Inr qs" and m: "m = \<lparr>mg_root = root, mg_queues = qs\<rparr>"
    by (auto simp: OpenManager_def bindE_eq_Inr)
  have "case load_entry root e of Inr q \<Rightarrow> Get (de_Name e) m = Some q
      | Inl err \<Rightarrow> is_incomplete err \<and> Get (de_Name e) m = None"
    if "e \<in> set entries" "has_log e" for e
    using load_queues_Inr [OF qs names that] by (auto simp: Get_def m)
  then show ?thesis using Inr by simp
qed

theorem open_manager_all_or_nothing_witness:
  "case OpenManager ''data'' None (Inr [sample_entry, sample_entry\<lparr>de_Name := ''mail'', de_file := OpenError (ErrOS ''io'')\<rparr>]) of
     Inr m \<Rightarrow> False | Inl err \<Rightarrow> error_root err = ErrOS ''io''"
proof -
  let ?bad = "sample_entry\<lparr>de_Name := ''mail'', de_file := OpenError (ErrOS ''io'')\<rparr>"
  have bad: "load_entry ''data'' ?bad = Inl (ErrOS ''io'')" by (simp add: Load_def Replay_def Let_def)
  have "survived 0 [] 3 [(1, TypeMeta, sample_meta)] sample_running sample_entry"
    using sample_life [of 0] sample_running_log(2,3)
    by (simp add: survived_def sample_entry_def env_ok_def sample_env_def few_records_def max_i64_def)
  from survived_loads [OF this] obtain q where good: "load_entry ''data'' sample_entry = Inr q" by blast
  have "distinct (map de_Name [sample_entry, ?bad])" by (simp add: sample_entry_def)
  from open_manager_all_or_nothing [OF this, of "''data''"] bad good show ?thesis
    by (auto simp: sample_entry_def split: sum.splits)
qed

section \<open>Requests\<close>


definition sample_manager :: manager where
  "sample_manager = \<lparr>mg_root = ''data'', mg_queues = [(''jobs'', sample_running)]\<rparr>"

definition sample_text :: string where
  "sample_text = [CHR ''{'', quote] @ ''payload'' @ [quote, CHR '':'', CHR ''1'', CHR ''}'']"

definition sample_body :: "byte list" where
  "sample_body = bytes_of sample_text"

definition sample_random :: u64 where
  "sample_random = 7"

lemma sample_key: "parse_str ([CHR ''p'', CHR ''a'', CHR ''y'', CHR ''l'', CHR ''o'', CHR ''a'', CHR ''d'', quote] @ r) = Some (''payload'', r)"
  using parse_str_plain [of "''payload''" r] by (simp add: plain_def)

lemma sample_number: "parse_value (Suc n) d ''1}'' = Some (JNum ''1'', ''}'')"
  by (simp add: skip_ws_def is_ws_def parse_num_def and_then_def parse_int_part_def parse_frac_def parse_exp_def
      prepend_def span_def is_digit_def parse_digits1_def)

lemma sample_parsed: "parse_value (Suc (Suc (Suc n))) 0 sample_text = Some (JObj [(''payload'', JNum ''1'')], '''')"
  using sample_key [of "'':1}''"] sample_number [of n]
  by (subst parse_value.simps)
    (simp add: sample_text_def max_depth_def skip_ws_def is_ws_def del: parse_value.simps(2))

lemma sample_raw: "raw_members (Suc (Suc n)) (tl sample_text) = Some [(''payload'', JNum ''1'', ''1'')]"
  using sample_key [of "'':1}''"] sample_number [of n]
  by (simp add: sample_text_def skip_ws_def is_ws_def del: parse_value.simps(2))

lemma sample_decoded: "decode set_enqueue_field zero_enqueue sample_body = Inr (zero_enqueue\<lparr>eq_Payload := [49]\<rparr>)"
proof -
  have len: "Suc (length sample_text) = Suc (Suc (Suc 11))" by (simp add: sample_text_def)
  have s: "string_of (take (MaxPayloadBytes + 4096) sample_body) = sample_text"
    using len by (simp add: MaxPayloadBytes_def sample_body_def)
  have ws: "skip_ws sample_text = sample_text" by (simp add: sample_text_def skip_ws_def is_ws_def)
  have "raw_object sample_text = Some [(''payload'', JNum ''1'', ''1'')]"
    using sample_raw [of "Suc 11"]
    by (simp add: raw_object_def ws len) (simp add: sample_text_def skip_ws_def is_ws_def eval_nat_numeral del: raw_members.simps)
  moreover have "parse_value (Suc (length sample_text)) 0 sample_text = Some (JObj [(''payload'', JNum ''1'')], '''')"
    unfolding len by (rule sample_parsed)
  moreover have "sample_text \<noteq> []" by (simp add: sample_text_def)
  ultimately show ?thesis
    unfolding decode_def decode_body_def s Let_def ws
    by (simp add: set_enqueue_field_def bytes_of_def del: parse_value.simps)
qed

lemma sample_Get: "Get ''jobs'' sample_manager = Some sample_running"
  by (simp add: sample_manager_def Get_def)

lemma sample_enqueue_ok: "enqueue_ok 100 100 sample_random 0 sample_running"
  by (simp add: enqueue_ok_def sample_running_fields in_i64_def min_i64_def max_i64_def time_add_def millis_def)



lemma zero_enqueue_fields:
  "eq_Payload zero_enqueue = []" "eq_Priority zero_enqueue = 0" "eq_DelayMS zero_enqueue = 0" "eq_DedupID zero_enqueue = ''''"
  by (simp_all add: zero_enqueue_def)

definition sample_record :: "byte list" where
  "sample_record = encodeMessage (request_message 100 sample_random (zero_enqueue\<lparr>eq_Payload := [49]\<rparr>) sample_running)"

text \<open>The sample request, until its record is on disk.\<close>

lemma sample_answered:
  "\<exists>m1 res q1 q2. api_enqueue 100 sample_random ''jobs'' sample_body sample_manager = (m1, Inr (res, Some 2)) \<and>
    Get ''jobs'' m1 = Some q1 \<and> op_steps 100 3 q1 [] q2 \<and> Wait 2 (q_log q2) = Some None \<and> \<not> er_Duplicate res \<and>
    crash_image (q_log q2) (Encode [] TypeMeta sample_meta @ Encode [] TypeEnqueue sample_record)"
proof -
  let ?req = "zero_enqueue\<lparr>eq_Payload := [49]\<rparr>"
  have "map_of (q_byID sample_running) (newID sample_random) = None" by (simp add: sample_running_fields)
  from enqueue_new_ok [OF sample_inv sample_running_fields(5,6) this refl, of 100 "[49]" 0 0 "''''"]
  obtain l p res where e: "enqueue_new 100 sample_random [49] 0 0 '''' sample_running = (p, Inr (res, Some 2))"
    and l: "Append TypeEnqueue sample_record (q_log sample_running) = (l, Inr 2)" "q_log p = l" "\<not> er_Duplicate res"
    by (auto simp: sample_running_fields sample_record_def zero_enqueue_def millis_def bump_def registered_def
        dest: only_heaps_fields(4))
  have "check_enqueue ?req = None" by (simp add: check_enqueue_None zero_enqueue_def)
  then have api: "api_enqueue 100 sample_random ''jobs'' sample_body sample_manager =
      (put_queue ''jobs'' p sample_manager, Inr (res, Some 2))"
    using e by (simp add: api_enqueue_def queueFor_def sample_Get sample_decoded Enqueue_def sample_running_fields
        dedup_hit_def zero_enqueue_fields millis_def)
  define l1 where "l1 = l\<lparr>l_signal := False, l_flusher := Starting False\<rparr>"
  define l2 where "l2 = flush_begin False l1"
  define l3 where "l3 = flush_end (Encode [] TypeEnqueue sample_record) 1 2 False Written 0 l2"
  have "l_flusher l = Idle" "l_signal l" "l_buf l = Encode [] TypeEnqueue sample_record" "l_pending l = 1"
    "l_nextSeq l = 2" "l_fatal l = None" "l_file l = Encode [] TypeMeta sample_meta"
    "l_synced l = length (Encode [] TypeMeta sample_meta)"
    using l(1) by (auto simp: sample_life_defs)
  note L = this
  have ne: "Encode [] TypeEnqueue sample_record \<noteq> []" by (simp add: Encode_def Let_def)
  have "flusher_step l l1" "flusher_step l1 l2" using L by (auto simp: l1_def l2_def intro: flusher_step.intros)
  moreover have "flusher_step l2 l3"
    unfolding l3_def by (rule flusher_step.written) (use L ne in \<open>simp add: l2_def l1_def flush_begin_def\<close>)
  ultimately have "op_steps 100 (Suc (Suc (Suc 0))) p [] (p\<lparr>q_log := l1, q_log := l2, q_log := l3\<rparr>)"
    using l(2) by (intro op_steps_flush op_steps.none_yet) simp_all
  then have "op_steps 100 3 p [] (p\<lparr>q_log := l3\<rparr>)" by (simp add: numeral_3_eq_3)
  moreover have "Wait 2 l3 = Some None" "crash_image l3 (Encode [] TypeMeta sample_meta @ Encode [] TypeEnqueue sample_record)"
    using L ne by (simp_all add: l3_def l2_def l1_def flush_begin_def flush_end_def writeSync_def Wait_def crash_image_def
        being_written_def)
  ultimately show ?thesis using api l(3)
    by (intro exI [of _ "put_queue ''jobs'' p sample_manager"] exI [of _ res] exI [of _ p] exI [of _ "p\<lparr>q_log := l3\<rparr>"]) simp
qed


end
