(* ===== verification/Api_Refusals.thy ===== *)
theory Api_Refusals
  imports Api_Props
begin

text \<open>
  What the handlers refuse, and how: a request that is refused leaves the registry as it was and is
  answered with the status that names the reason; a queue that is out of service shows on every endpoint.
\<close>

section \<open>Refusals\<close>

definition working :: "queue \<Rightarrow> bool" where
  "working q \<longleftrightarrow> queue_inv q \<and> checkLocked q = None \<and> l_fatal (q_log q) = None \<and> \<not> l_closed (q_log q)"

lemma Ack_refused:
  assumes "working q" and r: "Ack mid q = (q', Inl e)"
  shows "q' = q" and "e = (if map_of (q_byID q) mid = None then ErrNotFound else ErrNotInFlight)"
proof -
  have w: "queue_inv q" "checkLocked q = None" "l_fatal (q_log q) = None" "\<not> l_closed (q_log q)"
    using assms(1) by (simp_all add: working_def)
  have "q' = q \<and> e = (if map_of (q_byID q) mid = None then ErrNotFound else ErrNotInFlight)"
  proof (cases "map_of (q_byID q) mid")
    case None
    then show ?thesis using r w(2) by (simp add: Ack_def)
  next
    case (Some p)
    from append_log_ok [OF w(3,4), of TypeAck "bytes_of mid"] obtain l where
      l: "append_log TypeAck (bytes_of mid) q = (q\<lparr>q_log := l\<rparr>, Inr (l_nextSeq (q_log q)))" by blast
    have "queue_inv (q\<lparr>q_log := l\<rparr>)" using w(1) by simp
    from applyAck_spec [OF this, of mid p] Some obtain q2 where "applyAck mid (q\<lparr>q_log := l\<rparr>) = Inr q2" by auto
    then show ?thesis using r w(2) l Some by (simp add: Ack_def split: if_splits)
  qed
  then show "q' = q" "e = (if map_of (q_byID q) mid = None then ErrNotFound else ErrNotInFlight)" by simp_all
qed

lemma Nack_refused:
  assumes "working q" and r: "Nack now mid q = (q', Inl e)"
  shows "q' = q" and "e = (if map_of (q_byID q) mid = None then ErrNotFound else ErrNotInFlight)"
proof -
  have w: "queue_inv q" "checkLocked q = None" "l_fatal (q_log q) = None" "\<not> l_closed (q_log q)"
    using assms(1) by (simp_all add: working_def)
  have "q' = q \<and> e = (if map_of (q_byID q) mid = None then ErrNotFound else ErrNotInFlight)"
  proof (cases "map_of (q_byID q) mid")
    case None
    then show ?thesis using r w(2) by (simp add: Nack_def)
  next
    case (Some p)
    from append_log_ok [OF w(3,4), of TypeNack "bytes_of mid"] obtain l where
      l: "append_log TypeNack (bytes_of mid) q = (q\<lparr>q_log := l\<rparr>, Inr (l_nextSeq (q_log q)))" by blast
    have "queue_inv (q\<lparr>q_log := l\<rparr>)" using w(1) by simp
    from applyAttempt_spec [OF this, of mid p now] Some obtain q2 d where
      "applyAttempt mid now (q\<lparr>q_log := l\<rparr>) = Inr (q2, d)" by auto
    then show ?thesis using r w(2) l Some by (simp add: Nack_def split: if_splits)
  qed
  then show "q' = q" "e = (if map_of (q_byID q) mid = None then ErrNotFound else ErrNotInFlight)" by simp_all
qed

lemma Enqueue_not_refused:
  assumes "working q" and fresh: "map_of (q_byID q) (newID random) = None"
  shows "Enqueue now random pl pr d k q \<noteq> (q', Inl e)"
proof -
  have w: "queue_inv q" "checkLocked q = None" "l_fatal (q_log q) = None" "\<not> l_closed (q_log q)"
    using assms(1) by (simp_all add: working_def)
  from enqueue_new_ok [OF w(1,3,4) fresh HOL.refl, of now pl pr d k] w(2) show ?thesis
    by (auto simp: Enqueue_def split: option.splits)
qed

lemma put_same: "Get name m = Some q \<Longrightarrow> put_queue name q m = m"
  by (simp add: put_queue_def Get_def update_triv)

text \<open>Whether the path names a message that exists.\<close>

definition knows :: "string \<Rightarrow> string \<Rightarrow> manager \<Rightarrow> bool" where
  "knows name mid m \<longleftrightarrow> (\<exists>q. Get name m = Some q \<and> map_of (q_byID q) mid \<noteq> None)"

lemma refusal_status:
  "rs_status (writeQueueError ErrNotFound) = StatusNotFound" "rs_status (writeQueueError ErrNotInFlight) = StatusConflict"
  by (simp_all add: writeQueueError_def writeError_def writeJSON_def)

lemma api_ack_refused:
  assumes "\<And>q. Get name m = Some q \<Longrightarrow> working q" and "api_ack name mid m = (m', Inl r)"
  shows "m' = m \<and> rs_status r = (if knows name mid m then StatusConflict else StatusNotFound)"
proof (cases "Get name m")
  case None
  then show ?thesis using assms(2) by (auto simp: api_ack_def queueFor_def knows_def writeError_def writeJSON_def)
next
  case (Some q)
  then obtain q' e where a: "Ack mid q = (q', Inl e)" "m' = put_queue name q' m" "r = writeQueueError e"
    using assms(2) by (auto simp: api_ack_def queueFor_def split: prod.splits sum.splits)
  show ?thesis using Ack_refused [OF assms(1) [OF Some] a(1)] Some a(2,3) by (simp add: put_same knows_def refusal_status)
qed

lemma api_nack_refused:
  assumes "\<And>q. Get name m = Some q \<Longrightarrow> working q" and "api_nack now name mid m = (m', Inl r)"
  shows "m' = m \<and> rs_status r = (if knows name mid m then StatusConflict else StatusNotFound)"
proof (cases "Get name m")
  case None
  then show ?thesis using assms(2) by (auto simp: api_nack_def queueFor_def knows_def writeError_def writeJSON_def)
next
  case (Some q)
  then obtain q' e where a: "Nack now mid q = (q', Inl e)" "m' = put_queue name q' m" "r = writeQueueError e"
    using assms(2) by (auto simp: api_nack_def queueFor_def split: prod.splits sum.splits)
  show ?thesis using Nack_refused [OF assms(1) [OF Some] a(1)] Some a(2,3) by (simp add: put_same knows_def refusal_status)
qed

lemma api_dequeue_refused:
  assumes "\<And>q. Get name m = Some q \<Longrightarrow> working q" and "api_dequeue now name body m = (m', r)" and "rs_status r \<noteq> StatusOK"
  shows "m' = m \<and> rs_status r = (if Get name m = None then StatusNotFound else StatusBadRequest)"
proof (cases "Get name m")
  case None
  then show ?thesis using assms(2) by (auto simp: api_dequeue_def queueFor_def writeError_def writeJSON_def)
next
  case (Some q)
  then have "checkLocked q = None" using assms(1) by (simp add: working_def)
  then have "\<exists>q' ms. Dequeue now mx v q = (q', Inr ms)" for mx v by (simp add: Dequeue_def Let_def split: prod.splits)
  then show ?thesis using assms(2,3) Some
    by (auto simp: api_dequeue_def queueFor_def writeError_def writeJSON_def Let_def decodeOptional_def
        split: prod.splits sum.splits if_splits decoded.splits) (metis Pair_inject sum.distinct(1))+
qed

lemma api_enqueue_refused:
  assumes "\<And>q. Get name m = Some q \<Longrightarrow> working q \<and> map_of (q_byID q) (newID random) = None"
    and "api_enqueue now random name body m = (m', Inl r)"
  shows "m' = m \<and> rs_status r =
    (if Get name m = None then StatusNotFound
     else case decode set_enqueue_field zero_enqueue body of Inl _ \<Rightarrow> StatusBadRequest
          | Inr req \<Rightarrow> if 262144 < length (eq_Payload req) then StatusRequestEntityTooLarge else StatusBadRequest)"
proof (cases "Get name m")
  case None
  then show ?thesis using assms(2) by (auto simp: api_enqueue_def queueFor_def writeError_def writeJSON_def)
next
  case (Some q)
  note no = Enqueue_not_refused [of q random, rule_format]
  show ?thesis
  proof (cases "decode set_enqueue_field zero_enqueue body")
    case (Inl x)
    then have "rs_status x = StatusBadRequest" by (auto simp: decode_def writeError_def writeJSON_def split: decoded.splits)
    then show ?thesis using assms(2) Some Inl by (auto simp: api_enqueue_def queueFor_def)
  next
    case (Inr req)
    have "\<exists>q' rb. Enqueue now random (eq_Payload req) (eq_Priority req) (millis (eq_DelayMS req)) (eq_DedupID req) q = (q', Inr rb)"
      using Enqueue_not_refused assms(1) [OF Some] by (metis sum.exhaust surj_pair)
    then have "check_enqueue req \<noteq> None" "m' = m" "check_enqueue req = Some r"
      using assms(2) Some Inr by (auto simp: api_enqueue_def queueFor_def split: option.splits)
    then show ?thesis using Some Inr
      by (auto simp: check_enqueue_def MaxPayloadBytes_def writeError_def writeJSON_def split: if_splits)
  qed
qed

text \<open>C39: a refused request changes nothing. While a queue is in working order its refusals are those of
  the request: 404 for a queue or message that does not exist, 409 for a message that is not in flight,
  413 for a payload over the limit and 400 for a malformed or invalid request; the registry stays as it was.\<close>

theorem refused_requests_change_nothing:
  assumes up: "\<And>q. Get name m = Some q \<Longrightarrow> working q \<and> map_of (q_byID q) (newID random) = None"
  shows "(\<forall>m' r. api_enqueue now random name body m = (m', Inl r) \<longrightarrow> m' = m \<and> rs_status r =
      (if Get name m = None then 404
       else case decode set_enqueue_field zero_enqueue body of Inl _ \<Rightarrow> 400
            | Inr req \<Rightarrow> if 262144 < length (eq_Payload req) then 413 else 400)) \<and>
    (\<forall>m' r. api_dequeue now name body m = (m', r) \<and> rs_status r \<noteq> 200 \<longrightarrow>
       m' = m \<and> rs_status r = (if Get name m = None then 404 else 400)) \<and>
    (\<forall>m' r. api_ack name mid m = (m', Inl r) \<longrightarrow> m' = m \<and> rs_status r = (if knows name mid m then 409 else 404)) \<and>
    (\<forall>m' r. api_nack now name mid m = (m', Inl r) \<longrightarrow> m' = m \<and> rs_status r = (if knows name mid m then 409 else 404))"
proof -
  have w: "\<And>q. Get name m = Some q \<Longrightarrow> working q" using up by blast
  show ?thesis
    using api_enqueue_refused [OF up] api_dequeue_refused [OF w] api_ack_refused [OF w] api_nack_refused [OF w] by meson
qed

lemma sample_working: "working sample_running"
  by (simp add: working_def sample_inv sample_running_fields)

theorem refused_requests_change_nothing_witness:
  "(case api_ack ''jobs'' ''0a1b'' sample_manager of (m', Inl r) \<Rightarrow> m' = sample_manager \<and> rs_status r = 404 | _ \<Rightarrow> False)"
proof -
  have "working q \<and> map_of (q_byID q) (newID sample_random) = None" if "Get ''jobs'' sample_manager = Some q" for q
    using that sample_working sample_running_fields(1) by (auto simp: sample_Get)
  note R = refused_requests_change_nothing [of "''jobs''" sample_manager, OF this, of 0 "[]" "''0a1b''"]
  obtain m' r where a: "api_ack ''jobs'' ''0a1b'' sample_manager = (m', Inl r)"
    by (simp add: api_ack_def queueFor_def sample_Get Ack_def sample_running_fields)
  have "\<not> knows ''jobs'' ''0a1b'' sample_manager" by (simp add: knows_def sample_Get sample_running_fields)
  then show ?thesis using R a by simp
qed

section \<open>Outages\<close>

text \<open>The names \<open>List\<close> ranges over are those of the registry.\<close>

lemma List_stats_set:
  assumes "set names = {k. Get k m \<noteq> None}"
  shows "set (List_stats names now ids m) = {Stats (now k) (ids k) q | k q. Get k m = Some q}"
  using assms by (force simp: List_stats_def List.map_filter_def Get_def)

lemma Stats_healthy: "st_Healthy (Stats t ids q) \<longleftrightarrow> checkLocked q = None"
  by (simp add: Stats_def Let_def checkLocked_def)

lemma healthz_ok:
  assumes "set names = {k. Get k m \<noteq> None}"
  shows "rs_status (healthz names now ids m) = (if \<forall>k q. Get k m = Some q \<longrightarrow> checkLocked q = None then 200 else 503)"
proof -
  have "list_all st_Healthy (List_stats names now ids m) \<longleftrightarrow> (\<forall>k q. Get k m = Some q \<longrightarrow> checkLocked q = None)"
    unfolding list_all_iff List_stats_set [OF assms] using Stats_healthy by blast
  then show ?thesis by (simp add: healthz_def writeJSON_def)
qed

text \<open>C40: an outage shows. Once a queue has been closed or its log has failed, every valid request that would
  change it (enqueue, dequeue, ack, nack and compact) is answered with 503 and changes nothing, neither
  the queue nor a file, and the health check answers 503 too. Its statistics and the listings of its
  messages are still answered, with 200 and what is in memory. (An error of the queue that is itself one
  of the two errors of a client would be answered as such.)\<close>

theorem outages_show:
  assumes q: "Get name m = Some q" and down: "checkLocked q = Some e" "error_root e \<notin> {ErrNotFound, ErrNotInFlight}"
    and req: "decode set_enqueue_field zero_enqueue body = Inr req" "check_enqueue req = None"
    and dreq: "decodeOptional set_dequeue_field \<lparr>dq_MaxMessages = 0, dq_VisibilityTimeoutMS = 0\<rparr> dbody = Inr dr"
      "0 \<le> dq_VisibilityTimeoutMS dr"
    and names: "set names = {k. Get k m \<noteq> None}"
  shows "\<exists>r. rs_status r = 503 \<and> api_enqueue now random name body m = (m, Inl r) \<and> api_dequeue now name dbody m = (m, r) \<and>
    api_ack name mid m = (m, Inl r) \<and> api_nack now name mid m = (m, Inl r) \<and>
    api_compact now cids keys env name m dir = ((m, dir), Some r) \<and>
    rs_status (healthz names clock ids m) = 503 \<and> rs_status (api_stats now cids name m) = 200 \<and>
    rs_status (api_peek name limit m) = 200 \<and> rs_status (api_dlq name limit m) = 200"
proof (intro exI [of _ "writeQueueError e"] conjI)
  show "rs_status (writeQueueError e) = 503" using down(2) by (auto simp: writeQueueError_def writeError_def writeJSON_def)
  show "api_enqueue now random name body m = (m, Inl (writeQueueError e))"
    using q down(1) req by (simp add: api_enqueue_def queueFor_def Enqueue_def put_same)
  show "api_dequeue now name dbody m = (m, writeQueueError e)"
    using q down(1) dreq by (simp add: api_dequeue_def queueFor_def Dequeue_def put_same Let_def)
  show "api_ack name mid m = (m, Inl (writeQueueError e))" "api_nack now name mid m = (m, Inl (writeQueueError e))"
    using q down(1) by (simp_all add: api_ack_def api_nack_def queueFor_def Ack_def Nack_def put_same)
  show "api_compact now cids keys env name m dir = ((m, dir), Some (writeQueueError e))"
    using q down(1) by (simp add: api_compact_def queueFor_def Compact_def put_same Let_def)
  show "rs_status (api_stats now cids name m) = 200" "rs_status (api_peek name limit m) = 200"
    "rs_status (api_dlq name limit m) = 200"
    using q by (simp_all add: api_stats_def api_peek_def api_dlq_def queueFor_def writeJSON_def)
  have "\<not> (\<forall>k q. Get k m = Some q \<longrightarrow> checkLocked q = None)" using q down(1) by fastforce
  then show "rs_status (healthz names clock ids m) = 503" unfolding healthz_ok [OF names] by simp
qed

theorem outages_show_witness:
  "rs_status (healthz [''jobs''] (\<lambda>_. 0) (\<lambda>_. []) (put_queue ''jobs'' (Close_queue sample_running) sample_manager)) = 503"
proof -
  let ?m = "put_queue ''jobs'' (Close_queue sample_running) sample_manager"
  have c: "checkLocked (Close_queue sample_running) = Some ErrClosed"
    using sample_running_fields(4) by (simp add: Close_queue_def checkLocked_def)
  have g: "Get ''jobs'' ?m = Some (Close_queue sample_running)" by simp
  have n: "set [''jobs''] = {k. Get k ?m \<noteq> None}" by (auto simp: sample_manager_def put_queue_def Get_def split: if_splits)
  have r: "check_enqueue (zero_enqueue\<lparr>eq_Payload := [49]\<rparr>) = None" by (simp add: check_enqueue_None zero_enqueue_def)
  have d: "decodeOptional set_dequeue_field \<lparr>dq_MaxMessages = 0, dq_VisibilityTimeoutMS = 0\<rparr> [] =
      Inr \<lparr>dq_MaxMessages = 0, dq_VisibilityTimeoutMS = 0\<rparr>"
    by (simp add: decodeOptional_def decode_body_def skip_ws_def)
  have "error_root ErrClosed \<notin> {ErrNotFound, ErrNotInFlight}" "0 \<le> dq_VisibilityTimeoutMS \<lparr>dq_MaxMessages = 0, dq_VisibilityTimeoutMS = 0\<rparr>"
    by simp_all
  from outages_show [OF g c this(1) sample_decoded r d this(2) n, where clock = "\<lambda>_. 0" and ids = "\<lambda>_. []"]
  show ?thesis by blast
qed

text \<open>
  A delay of 9,223,372,036,855 ms passes the checks, but its conversion to nanoseconds wraps around: the
  message is visible at once, with a time of visibility in the past.
\<close>

lemma delay_overflow:
  "check_enqueue (zero_enqueue\<lparr>eq_Payload := [49], eq_DelayMS := 9223372036855\<rparr>) = None"
  "millis 9223372036855 < 0"
  "m_VisibleAt (request_message now random (zero_enqueue\<lparr>eq_Payload := [49], eq_DelayMS := 9223372036855\<rparr>) q) < now"
  by (simp_all add: check_enqueue_None zero_enqueue_fields millis_def i64_def new_message_def zero_message_def time_add_def)

text \<open>
  A delay whose nanoseconds fit an \<open>int64\<close> but which carries the visible time past 2262 wraps around only in
  the record: the message is delayed until the server is restarted, and visible at once from then on.
\<close>

lemma delay_past_2262_wraps:
  assumes "in_i64 now" and "0 \<le> d" and "in_i64 d" and "\<not> in_i64 (time_add now d)"
  shows "time_Unix (UnixNano (time_add now d)) < now"
proof -
  have "time_Unix (UnixNano (time_add now d)) = i64 (now + d)" by (simp add: time_Unix_def UnixNano_def i64_def time_add_def)
  also have "\<dots> = now + d - 2 ^ 64"
    using assms by (intro i64_wrapped) (auto simp: in_i64_def time_add_def min_i64_def max_i64_def)
  finally show ?thesis using assms(3) by (simp add: in_i64_def max_i64_def)
qed

end
