(* ===== verification/Client.thy ===== *)
theory Client
  imports Api
begin

text \<open>
  \<open>internal/demo/client.go\<close>, the demo's client of the HTTP API, and the routes of \<open>internal/api/server.go\<close> its
  requests take. A request is its method, its path and the text of its body; a response carries a \<open>body\<close>, as
  the handlers produce it. The network is an argument: a function from requests to what comes back.
\<close>

section \<open>Routes\<close>

datatype path_part = Lit string | Wildcard

datatype handler =
    CreateQueueHandler | ListQueuesHandler | EnqueueHandler | DequeueHandler | AckHandler | NackHandler
  | StatsHandler | DLQHandler | PeekHandler | CompactHandler | HealthzHandler

definition Routes :: "(string \<times> path_part list \<times> handler) list" where
  "Routes =
     [(''POST'', [Lit ''queues''], CreateQueueHandler),
      (''GET'', [Lit ''queues''], ListQueuesHandler),
      (''POST'', [Lit ''queues'', Wildcard, Lit ''messages''], EnqueueHandler),
      (''POST'', [Lit ''queues'', Wildcard, Lit ''dequeue''], DequeueHandler),
      (''POST'', [Lit ''queues'', Wildcard, Lit ''messages'', Wildcard, Lit ''ack''], AckHandler),
      (''POST'', [Lit ''queues'', Wildcard, Lit ''messages'', Wildcard, Lit ''nack''], NackHandler),
      (''GET'', [Lit ''queues'', Wildcard, Lit ''stats''], StatsHandler),
      (''GET'', [Lit ''queues'', Wildcard, Lit ''dlq''], DLQHandler),
      (''GET'', [Lit ''queues'', Wildcard, Lit ''peek''], PeekHandler),
      (''POST'', [Lit ''queues'', Wildcard, Lit ''compact''], CompactHandler),
      (''GET'', [Lit ''healthz''], HealthzHandler)]"

text \<open>The values of the wildcards, when the parts of a path match a pattern.\<close>

fun match_path :: "path_part list \<Rightarrow> string list \<Rightarrow> string list option" where
  "match_path [] [] = Some []"
| "match_path (Lit l # ps) (s # ss) = (if l = s then match_path ps ss else None)"
| "match_path (Wildcard # ps) (s # ss) = (if s = '''' then None else map_option (Cons s) (match_path ps ss))"
| "match_path _ _ = None"

text \<open>A pattern for GET also serves HEAD; a path that only other methods have is answered with 405.\<close>

abbreviation serves_method :: "string \<Rightarrow> string \<Rightarrow> bool" where
  "serves_method m m' \<equiv> m = m' \<or> m = ''GET'' \<and> m' = ''HEAD''"

datatype routed = Handler handler "string list" | NoRoute nat

fun find_route :: "(string \<times> path_part list \<times> handler) list \<Rightarrow> string \<Rightarrow> string list \<Rightarrow> nat \<Rightarrow> routed" where
  "find_route [] meth ss status = NoRoute status"
| "find_route ((m, ps, h) # rs) meth ss status =
     (case match_path ps ss of
        None \<Rightarrow> find_route rs meth ss status
      | Some vs \<Rightarrow> if serves_method m meth then Handler h vs else find_route rs meth ss 405)"

definition route :: "string \<Rightarrow> string list \<Rightarrow> routed" where
  "route meth ss = find_route Routes meth ss StatusNotFound"

text \<open>
  The parts of a path between its slashes, and its query. Paths are clean and free of escapes here: names and
  ids are made of letters, digits, dots, dashes and underscores.
\<close>

fun split_on :: "char \<Rightarrow> string \<Rightarrow> string list" where
  "split_on d [] = [[]]"
| "split_on d (c # s) =
     (if c = d then [] # split_on d s
      else case split_on d s of [] \<Rightarrow> [[c]] | x # xs \<Rightarrow> (c # x) # xs)"

definition path_parts :: "string \<Rightarrow> string list" where
  "path_parts path = tl (split_on (CHR ''/'') (takeWhile (\<lambda>c. c \<noteq> CHR ''?'') path))"

definition path_query :: "string \<Rightarrow> string" where
  "path_query path = drop 1 (dropWhile (\<lambda>c. c \<noteq> CHR ''?'') path)"

section \<open>One exchange\<close>

record http_request =
  hr_Method :: string
  hr_Path :: string
  hr_Body :: string

text \<open>
  What comes back: nothing, or a status with a body, whether the body is longer than the 8 MiB that are read of
  it, and an error that cuts the reading short.
\<close>

datatype exchange = NoAnswer go_error | Answer nat body bool "go_error option"

text \<open>The errors of \<open>do\<close>; the body of an \<open>apiError\<close> is the response's.\<close>

datatype client_error =
    TransportError go_error
  | apiError nat body
  | UnmarshalError body

definition client_do :: "(http_request \<Rightarrow> exchange) \<Rightarrow> http_request \<Rightarrow> client_error + body \<times> bool" where
  "client_do http rq =
     (case http rq of
        NoAnswer e \<Rightarrow> Inl (TransportError e)
      | Answer status raw long (Some e) \<Rightarrow> Inl (TransportError e)
      | Answer status raw long None \<Rightarrow> if status \<ge> 400 then Inl (apiError status raw) else Inr (raw, long))"

text \<open>
  Where \<open>out\<close> is not nil the body is decoded, which takes the whole text. A body that no answer to the call has
  counts as not decodable.
\<close>

definition unmarshal :: "(body \<Rightarrow> 'a option) \<Rightarrow> client_error + body \<times> bool \<Rightarrow> client_error + 'a" where
  "unmarshal out r =
     bindE r (\<lambda>(raw, long). if long then Inl (UnmarshalError raw)
                           else case out raw of None \<Rightarrow> Inl (UnmarshalError raw) | Some x \<Rightarrow> Inr x)"

text \<open>\<open>json.NewEncoder(&buf).Encode(body)\<close> ends the text with a newline.\<close>

definition json_object :: "(string \<times> string) list \<Rightarrow> string" where
  "json_object ms = CHR ''{'' # show_members ms"

definition json_Encode :: "(string \<times> string) list \<Rightarrow> string" where
  "json_Encode ms = json_object ms @ [CHR 0x0A]"

definition post :: "string \<Rightarrow> string \<Rightarrow> http_request" where
  "post path txt = \<lparr>hr_Method = ''POST'', hr_Path = path, hr_Body = txt\<rparr>"

definition get :: "string \<Rightarrow> http_request" where
  "get path = \<lparr>hr_Method = ''GET'', hr_Path = path, hr_Body = ''''\<rparr>"

text \<open>\<open>omitempty\<close>.\<close>

definition omit_int :: "string \<Rightarrow> int \<Rightarrow> (string \<times> string) list" where
  "omit_int k i = (if i = 0 then [] else [(k, show_int i)])"

definition omit_string :: "string \<Rightarrow> string \<Rightarrow> (string \<times> string) list" where
  "omit_string k s = (if s = '''' then [] else [(k, show_string s)])"

section \<open>The calls\<close>

record QueueConfig =
  qc_Name :: string
  qc_Ordering :: string
  qc_PriorityEnabled :: bool
  qc_MaxAttempts :: int
  qc_DefaultVisibilityTimeoutMS :: int
  qc_AgingIntervalMS :: int
  qc_AgingMaxBoost :: int
  qc_DedupWindowMS :: int

definition QueueConfig_members :: "QueueConfig \<Rightarrow> (string \<times> string) list" where
  "QueueConfig_members c =
     [(''name'', show_string (qc_Name c)), (''ordering'', show_string (qc_Ordering c)),
      (''priority_enabled'', show_bool (qc_PriorityEnabled c))] @
     omit_int ''max_attempts'' (qc_MaxAttempts c) @
     omit_int ''default_visibility_timeout_ms'' (qc_DefaultVisibilityTimeoutMS c) @
     omit_int ''aging_interval_ms'' (qc_AgingIntervalMS c) @
     omit_int ''aging_max_boost'' (qc_AgingMaxBoost c) @
     omit_int ''dedup_window_ms'' (qc_DedupWindowMS c)"

definition CreateQueue_request :: "QueueConfig \<Rightarrow> http_request" where
  "CreateQueue_request c = post ''/queues'' (json_Encode (QueueConfig_members c))"

definition client_CreateQueue :: "(http_request \<Rightarrow> exchange) \<Rightarrow> QueueConfig \<Rightarrow> client_error option" where
  "client_CreateQueue http c =
     (case client_do http (CreateQueue_request c) of
        Inl (apiError status raw) \<Rightarrow> if status = StatusConflict then None else Some (apiError status raw)
      | Inl err \<Rightarrow> Some err
      | Inr _ \<Rightarrow> None)"

text \<open>The payload is the JSON text of whatever value is enqueued.\<close>

record EnqueueRequest =
  en_Payload :: string
  en_Priority :: int
  en_DelayMS :: int
  en_DedupID :: string

definition EnqueueRequest_members :: "EnqueueRequest \<Rightarrow> (string \<times> string) list" where
  "EnqueueRequest_members r =
     [(''payload'', en_Payload r), (''priority'', show_int (en_Priority r))] @
     omit_int ''delay_ms'' (en_DelayMS r) @ omit_string ''dedup_id'' (en_DedupID r)"

definition queue_path :: "string \<Rightarrow> string \<Rightarrow> string" where
  "queue_path queue rest = ''/queues/'' @ queue @ ''/'' @ rest"

definition Enqueue_request :: "string \<Rightarrow> EnqueueRequest \<Rightarrow> http_request" where
  "Enqueue_request queue r = post (queue_path queue ''messages'') (json_Encode (EnqueueRequest_members r))"

definition client_Enqueue :: "(http_request \<Rightarrow> exchange) \<Rightarrow> string \<Rightarrow> EnqueueRequest \<Rightarrow> client_error + enqueueResult" where
  "client_Enqueue http queue r =
     unmarshal (\<lambda>b. case b of EnqueuedBody res \<Rightarrow> Some res | _ \<Rightarrow> None) (client_do http (Enqueue_request queue r))"

text \<open>A Go map is encoded with its keys in order.\<close>

definition Dequeue_request :: "string \<Rightarrow> int \<Rightarrow> int \<Rightarrow> http_request" where
  "Dequeue_request queue mx visibilityMS =
     post (queue_path queue ''dequeue'')
       (json_Encode [(''max_messages'', show_int mx), (''visibility_timeout_ms'', show_int visibilityMS)])"

definition client_Dequeue :: "(http_request \<Rightarrow> exchange) \<Rightarrow> string \<Rightarrow> int \<Rightarrow> int \<Rightarrow> client_error + leased_view list" where
  "client_Dequeue http queue mx visibilityMS =
     unmarshal (\<lambda>b. case b of LeasedBody ls \<Rightarrow> Some ls | _ \<Rightarrow> None)
       (client_do http (Dequeue_request queue mx visibilityMS))"

definition settle_request :: "string \<Rightarrow> string \<Rightarrow> string \<Rightarrow> http_request" where
  "settle_request queue mid how = post (queue_path queue (''messages/'' @ mid @ ''/'' @ how)) ''''"

definition client_Ack :: "(http_request \<Rightarrow> exchange) \<Rightarrow> string \<Rightarrow> string \<Rightarrow> client_error option" where
  "client_Ack http queue mid =
     (case client_do http (settle_request queue mid ''ack'') of Inl err \<Rightarrow> Some err | Inr _ \<Rightarrow> None)"

definition client_Nack :: "(http_request \<Rightarrow> exchange) \<Rightarrow> string \<Rightarrow> string \<Rightarrow> client_error option" where
  "client_Nack http queue mid =
     (case client_do http (settle_request queue mid ''nack'') of Inl err \<Rightarrow> Some err | Inr _ \<Rightarrow> None)"

text \<open>These three are handed on as they come.\<close>

definition client_Stats :: "(http_request \<Rightarrow> exchange) \<Rightarrow> string \<Rightarrow> client_error + body" where
  "client_Stats http queue = unmarshal Some (client_do http (get (queue_path queue ''stats'')))"

definition client_ListQueues :: "(http_request \<Rightarrow> exchange) \<Rightarrow> client_error + body" where
  "client_ListQueues http = unmarshal Some (client_do http (get ''/queues''))"

definition client_Peek :: "(http_request \<Rightarrow> exchange) \<Rightarrow> string \<Rightarrow> int \<Rightarrow> client_error + body" where
  "client_Peek http queue limit = 
     unmarshal Some (client_do http (get (queue_path queue (''peek?limit='' @ show_int limit))))"

definition client_Compact :: "(http_request \<Rightarrow> exchange) \<Rightarrow> string \<Rightarrow> client_error + int \<times> int" where
  "client_Compact http queue =
     unmarshal (\<lambda>b. case b of CompactBody x y \<Rightarrow> Some (x, y) | _ \<Rightarrow> None)
       (client_do http (post (queue_path queue ''compact'') ''''))"

definition client_Healthy :: "(http_request \<Rightarrow> exchange) \<Rightarrow> bool" where
  "client_Healthy http =
     (case http (get ''/healthz'') of NoAnswer e \<Rightarrow> False | Answer status raw long e \<Rightarrow> status = StatusOK)"

end
