(* ===== verification/Ring.thy ===== *)
theory Ring
  imports Prelude
begin

text \<open>
  The \<open>ringWriter\<close> of \<open>internal/demo/supervisor.go\<close>: an \<open>io.Writer\<close> that keeps the last lines written to it. It
  holds the server's output and the demo's event log. Text is a list of bytes, written as characters.
\<close>

section \<open>The writer\<close>

abbreviation newline :: char where "newline \<equiv> CHR 0x0A"
abbreviation carriage_return :: char where "carriage_return \<equiv> CHR 0x0D"

record ringWriter =
  rw_buf :: "string list"
  rw_max :: nat
  rw_part :: string

definition newRingWriter :: "nat \<Rightarrow> ringWriter" where
  "newRingWriter mx = \<lparr>rw_buf = [], rw_max = mx, rw_part = ''''\<rparr>"

definition appendLocked :: "string \<Rightarrow> ringWriter \<Rightarrow> ringWriter" where
  "appendLocked line w =
     (if line = '''' then w
      else let buf = rw_buf w @ [line]
           in w\<lparr>rw_buf := if length buf > rw_max w then drop (length buf - rw_max w) buf else buf\<rparr>)"

text \<open>\<open>strings.TrimRight(line, cutset)\<close> with the cutset of line ends.\<close>

definition TrimRight :: "string \<Rightarrow> string" where
  "TrimRight line = rev (dropWhile (\<lambda>c. c = carriage_return \<or> c = newline) (rev line))"

text \<open>\<open>ReadString\<close>: up to and with the first newline, or the end of the buffer.\<close>

definition ReadString :: "string \<Rightarrow> (string \<times> string) option" where
  "ReadString s =
     (case dropWhile (\<lambda>c. c \<noteq> newline) s of [] \<Rightarrow> None
      | c # rest \<Rightarrow> Some (takeWhile (\<lambda>c. c \<noteq> newline) s @ [c], rest))"

lemma ReadString_shorter: "ReadString s = Some (line, rest) \<Longrightarrow> length rest < length s"
  using length_dropWhile_le [of "\<lambda>c. c \<noteq> newline" s] by (auto simp: ReadString_def split: list.splits)

text \<open>The loop of \<open>Write\<close>; at the end of the buffer the unfinished line stays in it.\<close>

function write_loop :: "ringWriter \<Rightarrow> ringWriter" where
  "write_loop w =
     (case ReadString (rw_part w) of
        None \<Rightarrow> w
      | Some (line, rest) \<Rightarrow> write_loop (appendLocked (TrimRight line) (w\<lparr>rw_part := rest\<rparr>)))"
  by pat_completeness auto
termination
  by (relation "measure (\<lambda>w. length (rw_part w))") (auto simp: appendLocked_def Let_def dest: ReadString_shorter)

declare write_loop.simps [simp del]

definition ring_Write :: "string \<Rightarrow> ringWriter \<Rightarrow> ringWriter" where
  "ring_Write p w = write_loop (w\<lparr>rw_part := rw_part w @ p\<rparr>)"

definition ring_add :: "string \<Rightarrow> ringWriter \<Rightarrow> ringWriter" where
  "ring_add line w = appendLocked line w"

definition ring_lines :: "ringWriter \<Rightarrow> string list" where
  "ring_lines w = rw_buf w"

section \<open>What it keeps\<close>

definition last_n :: "nat \<Rightarrow> 'a list \<Rightarrow> 'a list" where
  "last_n n xs = drop (length xs - n) xs"

lemma last_n_snoc: "last_n n (last_n n xs @ [x]) = last_n n (xs @ [x])"
  by (cases "n \<le> length xs") (auto simp: last_n_def drop_append Suc_diff_le)

lemma length_last_n: "length (last_n n xs) \<le> n"
  by (simp add: last_n_def)

text \<open>The finished lines of a text, trimmed, the empty ones left out; and what follows the last newline.\<close>

function finished :: "string \<Rightarrow> string list" where
  "finished s =
     (case ReadString s of
        None \<Rightarrow> []
      | Some (line, rest) \<Rightarrow> (if TrimRight line = '''' then [] else [TrimRight line]) @ finished rest)"
  by pat_completeness auto
termination
  by (relation "measure length") (auto dest: ReadString_shorter)

declare finished.simps [simp del]

definition unfinished :: "string \<Rightarrow> string" where
  "unfinished s = rev (takeWhile (\<lambda>c. c \<noteq> newline) (rev s))"

lemma ReadString_None: "newline \<notin> set s \<Longrightarrow> ReadString s = None"
proof -
  assume "newline \<notin> set s"
  then have d: "dropWhile (\<lambda>c. c \<noteq> newline) s = []" by (simp add: dropWhile_eq_Nil_conv) blast
  show ?thesis unfolding ReadString_def d by simp
qed

lemma ReadString_Some: "newline \<notin> set l \<Longrightarrow> ReadString (l @ newline # rest) = Some (l @ [newline], rest)"
proof -
  assume n: "newline \<notin> set l"
  have "dropWhile (\<lambda>c. c \<noteq> newline) (l @ newline # rest) = newline # rest"
    using n by (subst dropWhile_append2) auto
  moreover have "takeWhile (\<lambda>c. c \<noteq> newline) (l @ newline # rest) = l"
    using n by (subst takeWhile_append2) auto
  ultimately show ?thesis by (simp add: ReadString_def)
qed

lemma text_cases:
  obtains (part) "newline \<notin> set s" | (line) l rest where "s = l @ newline # rest" "newline \<notin> set l"
  using split_list_first [of newline s] by blast

lemma unfinished_None: "newline \<notin> set s \<Longrightarrow> unfinished s = s"
proof -
  assume "newline \<notin> set s"
  then have t: "takeWhile (\<lambda>c. c \<noteq> newline) (rev s) = rev s" by (simp add: takeWhile_eq_all_conv) blast
  show ?thesis unfolding unfinished_def t by simp
qed

lemma unfinished_Some: "unfinished (l @ newline # rest) = unfinished rest"
proof (cases "newline \<in> set rest")
  case True
  then show ?thesis by (simp add: unfinished_def)
next
  case False
  then have "takeWhile (\<lambda>c. c \<noteq> newline) (rev rest @ newline # rev l) = rev rest" by (subst takeWhile_append2) auto
  then show ?thesis using unfinished_None [OF False] by (simp add: unfinished_def)
qed

lemma finished_None: "newline \<notin> set s \<Longrightarrow> finished s = []"
  by (subst finished.simps) (simp add: ReadString_None)

lemma finished_Some:
  "newline \<notin> set l \<Longrightarrow> finished (l @ newline # rest) =
   (if TrimRight (l @ [newline]) = '''' then [] else [TrimRight (l @ [newline])]) @ finished rest"
  by (subst finished.simps) (simp add: ReadString_Some)

lemma finished_append: "finished (s @ t) = finished s @ finished (unfinished s @ t)"
proof (induction s rule: measure_induct_rule [where f = length])
  case (less s)
  show ?case
  proof (cases s rule: text_cases)
    case part
    then show ?thesis by (simp add: finished_None unfinished_None)
  next
    case (line l rest)
    then have "finished (rest @ t) = finished rest @ finished (unfinished rest @ t)" by (intro less) simp
    then show ?thesis using line by (simp add: finished_Some unfinished_Some)
  qed
qed

lemma appendLocked_last: "rw_max (appendLocked line w) = rw_max w" "rw_part (appendLocked line w) = rw_part w"
  "rw_buf w = last_n (rw_max w) ls \<Longrightarrow>
     rw_buf (appendLocked line w) = last_n (rw_max w) (ls @ (if line = '''' then [] else [line]))"
  using last_n_snoc [of "rw_max w" ls line] by (auto simp: appendLocked_def Let_def) (simp add: last_n_def)+

lemma write_loop_keeps:
  "rw_buf w = last_n (rw_max w) ls \<Longrightarrow>
   write_loop w = w\<lparr>rw_buf := last_n (rw_max w) (ls @ finished (rw_part w)), rw_part := unfinished (rw_part w)\<rparr>"
proof (induction w arbitrary: ls rule: measure_induct_rule [where f = "\<lambda>w. length (rw_part w)"])
  case (less w)
  show ?case
  proof (cases "rw_part w" rule: text_cases)
    case part
    then show ?thesis using less.prems
      by (subst write_loop.simps) (simp add: ReadString_None finished_None unfinished_None)
  next
    case (line l rest)
    let ?t = "TrimRight (l @ [newline])"
    let ?w = "appendLocked ?t (w\<lparr>rw_part := rest\<rparr>)"
    have buf: "rw_buf ?w = last_n (rw_max ?w) (ls @ (if ?t = '''' then [] else [?t]))"
      using appendLocked_last(1,3) [where w = "w\<lparr>rw_part := rest\<rparr>"] less.prems by simp
    have "write_loop w = write_loop ?w" using line by (subst write_loop.simps) (simp add: ReadString_Some)
    also have "\<dots> = ?w\<lparr>rw_buf := last_n (rw_max w) (ls @ finished (rw_part w)), rw_part := unfinished (rw_part w)\<rparr>"
      using less.IH [OF _ buf] line by (simp add: appendLocked_last finished_Some unfinished_Some)
    finally show ?thesis by (simp add: appendLocked_def Let_def)
  qed
qed

text \<open>A writer that has seen the text \<open>s\<close> and nothing else.\<close>

definition has_seen :: "string \<Rightarrow> ringWriter \<Rightarrow> bool" where
  "has_seen s w \<longleftrightarrow> rw_buf w = last_n (rw_max w) (finished s) \<and> rw_part w = unfinished s"

lemma unfinished_unfinished: "unfinished (unfinished s @ t) = unfinished (s @ t)"
proof (induction s rule: measure_induct_rule [where f = length])
  case (less s)
  then show ?case by (cases s rule: text_cases) (simp_all add: unfinished_None unfinished_Some)
qed

lemma has_seen_new: "has_seen '''' (newRingWriter n)"
  by (simp add: has_seen_def newRingWriter_def last_n_def finished_None unfinished_def)

lemma has_seen_Write: "has_seen s w \<Longrightarrow> has_seen (s @ p) (ring_Write p w) \<and> rw_max (ring_Write p w) = rw_max w"
  using write_loop_keeps [of "w\<lparr>rw_part := rw_part w @ p\<rparr>" "finished s"]
  by (simp add: has_seen_def ring_Write_def finished_append [of s p] unfinished_unfinished)

lemma has_seen_chunks: "has_seen s w \<Longrightarrow> has_seen (s @ concat ps) (fold ring_Write ps w) \<and> rw_max (fold ring_Write ps w) = rw_max w"
proof (induction ps arbitrary: s w)
  case (Cons p ps)
  from has_seen_Write [OF Cons.prems, of p] Cons.IH [of "s @ p" "ring_Write p w"] show ?case by simp
qed simp

text \<open>C26: the log pane. However the output of a process is cut into writes, the pane holds the last \<open>n\<close> of its
  finished lines that are not empty, in order and without line ends, and never more than \<open>n\<close>; the
  unfinished line is kept until its newline comes.\<close>

theorem ring_keeps_last_lines:
  "ring_lines (fold ring_Write ps (newRingWriter n)) = last_n n (finished (concat ps)) \<and>
   rw_part (fold ring_Write ps (newRingWriter n)) = unfinished (concat ps) \<and>
   length (ring_lines (fold ring_Write ps (newRingWriter n))) \<le> n"
  using has_seen_chunks [OF has_seen_new [of n], of ps] length_last_n
  by (simp add: has_seen_def ring_lines_def) (simp add: newRingWriter_def length_last_n)

end
