(* ===== verification/Runner.thy ===== *)
theory Runner
  imports Client Ring Complex_Main
begin

text \<open>
  \<open>internal/demo/runner.go\<close>: the demo's worker pool. The state is what the mutex guards, with the map of stop
  channels as the list of its worker ids and the channels that have been closed beside it. A worker's loop is a
  state machine with one step per critical section; the network, the clock and the random numbers are
  arguments. A \<open>float64\<close> is the rational number it stands for; the rounded sum is an argument.
\<close>

section \<open>Queues and tasks\<close>

record QueueDef =
  qd_Name :: string
  qd_Label :: string
  qd_Ordering :: string
  qd_Priority :: bool
  qd_AgingMS :: int
  qd_Comparator :: string

abbreviation arrow :: string where "arrow \<equiv> '' '' @ [CHR 0xE2, CHR 0x86, CHR 0x92] @ '' ''"

definition QueueDefs :: "QueueDef list" where
  "QueueDefs =
     [\<lparr>qd_Name = ''fifo'', qd_Label = ''FIFO'', qd_Ordering = ''fifo'', qd_Priority = False, qd_AgingMS = 0,
        qd_Comparator = ''seq ASC''\<rparr>,
      \<lparr>qd_Name = ''lifo'', qd_Label = ''LIFO'', qd_Ordering = ''lifo'', qd_Priority = False, qd_AgingMS = 0,
        qd_Comparator = ''seq DESC''\<rparr>,
      \<lparr>qd_Name = ''priority-fifo'', qd_Label = ''Priority'' @ arrow @ ''FIFO'', qd_Ordering = ''fifo'', qd_Priority = True,
        qd_AgingMS = 0, qd_Comparator = ''priority DESC, seq ASC''\<rparr>,
      \<lparr>qd_Name = ''priority-lifo'', qd_Label = ''Priority'' @ arrow @ ''LIFO'', qd_Ordering = ''lifo'', qd_Priority = True,
        qd_AgingMS = 0, qd_Comparator = ''priority DESC, seq DESC''\<rparr>,
      \<lparr>qd_Name = ''priority-fifo-aging'', qd_Label = ''Priority'' @ arrow @ ''FIFO + aging'', qd_Ordering = ''fifo'',
        qd_Priority = True, qd_AgingMS = 800, qd_Comparator = ''(priority + age/800ms) DESC, seq ASC''\<rparr>]"

definition taskNames :: "string list" where
  "taskNames = [''resize-image'', ''send-email'', ''reindex-doc'', ''charge-card'',
     ''transcode-video'', ''sync-webhook'', ''render-thumbnail'', ''export-report'']"

section \<open>State\<close>

record WorkerView =
  wv_ID :: nat
  wv_State :: string
  wv_Task :: string
  wv_MessageID :: string
  wv_Priority :: int
  wv_Attempts :: int
  wv_StartedMS :: int
  wv_TotalMS :: int

definition idle_view :: "nat \<Rightarrow> string \<Rightarrow> WorkerView" where
  "idle_view w st = \<lparr>wv_ID = w, wv_State = st, wv_Task = '''', wv_MessageID = '''', wv_Priority = 0, wv_Attempts = 0,
     wv_StartedMS = 0, wv_TotalMS = 0\<rparr>"

datatype outcome = Abandoned | Failed | Done

record Completion =
  co_Task :: string
  co_Priority :: int
  co_Attempts :: int
  co_Worker :: nat
  co_Outcome :: outcome
  co_Seq :: u64
  co_AtMS :: int

record runner =
  rn_events :: ringWriter
  rn_target :: string
  rn_desired :: int
  rn_failureRate :: rat
  rn_abandonRate :: rat
  rn_workMinMS :: int
  rn_workMaxMS :: int
  rn_visibilityMS :: int
  rn_workers :: "(nat, WorkerView) gomap"
  rn_nextWorkerID :: nat
  rn_stops :: "nat list"
  rn_closed :: "nat list"
  rn_done :: int
  rn_failed :: int
  rn_abandoned :: int
  rn_submitted :: int
  rn_recent :: "Completion list"

text \<open>The rates are the \<open>float64\<close> values next to 0.15 and 0.05.\<close>

definition NewRunner :: "ringWriter \<Rightarrow> runner" where
  "NewRunner events = \<lparr>rn_events = events, rn_target = qd_Name (QueueDefs ! 2), rn_desired = 0,
     rn_failureRate = 5404319552844595 / 36028797018963968, rn_abandonRate = 3602879701896397 / 72057594037927936,
     rn_workMinMS = 250, rn_workMaxMS = 900, rn_visibilityMS = 4000, rn_workers = [], rn_nextWorkerID = 0,
     rn_stops = [], rn_closed = [], rn_done = 0, rn_failed = 0, rn_abandoned = 0, rn_submitted = 0, rn_recent = []\<rparr>"

section \<open>The size of the pool\<close>

text \<open>
  One more worker. The ids count up and are not used again, so that the maps gain an entry; the loop of the
  worker starts at its top.
\<close>

definition spawn :: "runner \<Rightarrow> runner" where
  "spawn r =
     (let w = rn_nextWorkerID r
      in r\<lparr>rn_nextWorkerID := w + 1, rn_stops := rn_stops r @ [w],
           rn_workers := AList.update w (idle_view w ''idle'') (rn_workers r)\<rparr>)"

function grow :: "int \<Rightarrow> runner \<Rightarrow> runner" where
  "grow n r = (if int (length (rn_stops r)) < n then grow n (spawn r) else r)"
  by pat_completeness auto
termination
  by (relation "measure (\<lambda>(n, r). nat (n - int (length (rn_stops r))))") (auto simp: spawn_def Let_def)

text \<open>The highest id, whatever the order in which the map is walked.\<close>

definition victim :: "nat list \<Rightarrow> int" where
  "victim ws = foldl (\<lambda>v w. if int w > v then int w else v) (-1) ws"

definition dismiss :: "runner \<Rightarrow> runner" where
  "dismiss r =
     (let w = nat (victim (rn_stops r))
      in r\<lparr>rn_closed := rn_closed r @ [w], rn_stops := removeAll w (rn_stops r),
           rn_workers := AList.delete w (rn_workers r)\<rparr>)"

lemma victim_Max: "ws \<noteq> [] \<Longrightarrow> victim ws = int (Max (set ws))"
proof -
  have "foldl (\<lambda>v w. if int w > v then int w else v) v ws = Max (insert v (int ` set ws))" for v
  proof (induction ws arbitrary: v)
    case (Cons w ws)
    then show ?case by (simp add: insert_commute [of v] max_def)
      (cases "ws = []"; auto simp: max_def)
  qed simp
  moreover assume ws: "ws \<noteq> []"
  moreover from ws have "Max (int ` set ws) = int (Max (set ws))" by (subst mono_Max_commute [symmetric]) (auto simp: mono_def)
  ultimately show ?thesis by (simp add: victim_def)
qed

lemma victim_in: "ws \<noteq> [] \<Longrightarrow> nat (victim ws) \<in> set ws"
  by (simp add: victim_Max)

text \<open>With \<open>n\<close> not negative, as \<open>SetWorkers\<close> has it, the second condition follows from the first.\<close>

function shrink :: "int \<Rightarrow> runner \<Rightarrow> runner" where
  "shrink n r = (if int (length (rn_stops r)) > n \<and> rn_stops r \<noteq> [] then shrink n (dismiss r) else r)"
  by pat_completeness auto
termination
  by (relation "measure (\<lambda>(n, r). length (rn_stops r))") (auto simp: dismiss_def Let_def length_removeAll_less victim_in)

declare grow.simps [simp del] shrink.simps [simp del]

definition SetWorkers :: "int \<Rightarrow> runner \<Rightarrow> runner" where
  "SetWorkers n r =
     (let n = (if n < 0 then 0 else n);
          n = (if n > 32 then 32 else n)
      in shrink n (grow n (r\<lparr>rn_desired := n\<rparr>)))"

text \<open>\<open>Stop\<close> then waits until every loop has returned.\<close>

definition Stop_begin :: "runner \<Rightarrow> runner" where
  "Stop_begin r = SetWorkers 0 r"

section \<open>Settings\<close>

record Config =
  cf_Target :: string
  cf_Workers :: int
  cf_FailureRate :: rat
  cf_AbandonRate :: rat
  cf_WorkMinMS :: int
  cf_WorkMaxMS :: int
  cf_VisibilityMS :: int

definition runner_Config :: "runner \<Rightarrow> Config" where
  "runner_Config r = \<lparr>cf_Target = rn_target r, cf_Workers = rn_desired r, cf_FailureRate = rn_failureRate r,
     cf_AbandonRate = rn_abandonRate r, cf_WorkMinMS = rn_workMinMS r, cf_WorkMaxMS = rn_workMaxMS r,
     cf_VisibilityMS = rn_visibilityMS r\<rparr>"

definition clamp01 :: "rat \<Rightarrow> rat" where
  "clamp01 f = (if f < 0 then 0 else if f > 1 then 1 else f)"

abbreviation add_event :: "string \<Rightarrow> runner \<Rightarrow> runner" where
  "add_event line r \<equiv> r\<lparr>rn_events := ring_add line (rn_events r)\<rparr>"

text \<open>\<open>Update\<close> up to the end of its critical section, and with the change of the pool. \<open>quoted\<close> is the target as \<open>%q\<close> prints it.\<close>

definition Update_settings ::
  "string \<Rightarrow> string option \<Rightarrow> rat option \<Rightarrow> rat option \<Rightarrow> int option \<Rightarrow> runner \<Rightarrow> runner" where
  "Update_settings quoted target failure abandon visibility r =
     (let r = (case target of None \<Rightarrow> r | Some t \<Rightarrow>
                 if t = '''' then r
                 else let r = (if rn_target r \<noteq> t then add_event (''switched consumers to queue '' @ quoted) r else r)
                      in r\<lparr>rn_target := t\<rparr>);
          r = (case failure of None \<Rightarrow> r | Some f \<Rightarrow> r\<lparr>rn_failureRate := clamp01 f\<rparr>);
          r = (case abandon of None \<Rightarrow> r | Some f \<Rightarrow> r\<lparr>rn_abandonRate := clamp01 f\<rparr>)
      in case visibility of None \<Rightarrow> r | Some v \<Rightarrow> if v > 0 then r\<lparr>rn_visibilityMS := v\<rparr> else r)"

definition Update ::
  "string \<Rightarrow> string option \<Rightarrow> int option \<Rightarrow> rat option \<Rightarrow> rat option \<Rightarrow> int option \<Rightarrow> runner \<Rightarrow> runner" where
  "Update quoted target workers failure abandon visibility r =
     (let r = Update_settings quoted target failure abandon visibility r
      in case workers of None \<Rightarrow> r | Some n \<Rightarrow> SetWorkers n r)"

definition Target :: "runner \<Rightarrow> string" where
  "Target r = rn_target r"

section \<open>Submitting jobs\<close>

text \<open>The payload, a map with its keys in order, as JSON.\<close>

definition task_payload :: "string \<Rightarrow> int \<Rightarrow> string" where
  "task_payload task n = json_object [(''n'', show_int n), (''task'', show_string task)]"

text \<open>The draws of the \<open>i\<close>-th round of a loop that submits, and the network it meets.\<close>

record draw =
  dr_priority :: int
  dr_task :: nat
  dr_http :: "http_request \<Rightarrow> exchange"

definition submit_request :: "draw \<Rightarrow> nat \<Rightarrow> int \<Rightarrow> int \<Rightarrow> string \<Rightarrow> EnqueueRequest" where
  "submit_request d i priority delayMS dedupID =
     \<lparr>en_Payload = task_payload (taskNames ! dr_task d) (int i + 1),
      en_Priority = (if priority < 0 then dr_priority d else priority), en_DelayMS = delayMS, en_DedupID = dedupID\<rparr>"

fun submit_loop ::
  "(nat \<Rightarrow> draw) \<Rightarrow> string \<Rightarrow> nat \<Rightarrow> nat \<Rightarrow> int \<Rightarrow> int \<Rightarrow> string \<Rightarrow> enqueueResult list \<Rightarrow> enqueueResult list \<times> client_error option" where
  "submit_loop ds queue i 0 priority delayMS dedupID out = (out, None)"
| "submit_loop ds queue i (Suc k) priority delayMS dedupID out =
     (case client_Enqueue (dr_http (ds i)) queue (submit_request (ds i) i priority delayMS dedupID) of
        Inl err \<Rightarrow> (out, Some err)
      | Inr res \<Rightarrow> submit_loop ds queue (i + 1) k priority delayMS dedupID (out @ [res]))"

definition submit_count :: "int \<Rightarrow> int" where
  "submit_count n = (let n = (if n \<le> 0 then 1 else n) in if n > 500 then 500 else n)"

definition Submit ::
  "(nat \<Rightarrow> draw) \<Rightarrow> string \<Rightarrow> int \<Rightarrow> int \<Rightarrow> int \<Rightarrow> string \<Rightarrow> runner \<Rightarrow> runner \<times> enqueueResult list \<times> client_error option" where
  "Submit ds queue n priority delayMS dedupID r =
     (case submit_loop ds queue 0 (nat (submit_count n)) priority delayMS dedupID [] of
        (out, Some err) \<Rightarrow> (r, out, Some err)
      | (out, None) \<Rightarrow> (r\<lparr>rn_submitted := rn_submitted r + int (length out)\<rparr>, out, None))"

text \<open>
  \<open>Burst\<close>: its goroutines take the jobs from a channel; \<open>order n\<close> lists the \<open>n\<close> jobs in the order in which their
  answers are counted. \<open>elapsed\<close> is the time that passed, as it is printed.
\<close>

definition burst_count :: "int \<Rightarrow> int" where
  "burst_count n = (let n = (if n \<le> 0 then 200 else n) in if n > 5000 then 5000 else n)"

definition burst_concurrency :: "int \<Rightarrow> int" where
  "burst_concurrency c = (let c = (if c \<le> 0 then 32 else c) in if c > 128 then 128 else c)"

definition burst_request :: "draw \<Rightarrow> nat \<Rightarrow> EnqueueRequest" where
  "burst_request d i = \<lparr>en_Payload = task_payload ''burst'' (int i), en_Priority = dr_priority d, en_DelayMS = 0, en_DedupID = ''''\<rparr>"

fun count_answer :: "client_error + enqueueResult \<Rightarrow> int \<times> client_error option \<Rightarrow> int \<times> client_error option" where
  "count_answer res (ok, first) =
     (case res of
        Inl err \<Rightarrow> if first = None then (ok, Some err) else (ok, first)
      | Inr _ \<Rightarrow> (ok + 1, first))"

definition Burst ::
  "(nat \<Rightarrow> draw) \<Rightarrow> (nat \<Rightarrow> nat list) \<Rightarrow> string \<Rightarrow> string \<Rightarrow> int \<Rightarrow> int \<Rightarrow> runner \<Rightarrow> runner \<times> int \<times> client_error option" where
  "Burst ds order elapsed queue n concurrency r =
     (case fold (\<lambda>i. count_answer (client_Enqueue (dr_http (ds i)) queue (burst_request (ds i) i))) (order (nat (burst_count n))) (0, None) of
        (ok, first) \<Rightarrow>
          (add_event (''burst: '' @ show_int ok @ '' durable enqueues from '' @ show_int (burst_concurrency concurrency) @
             '' goroutines in '' @ elapsed) (r\<lparr>rn_submitted := rn_submitted r + ok\<rparr>), ok, first))"

section \<open>A worker\<close>

text \<open>\<open>taskOf\<close>: the member \<open>task\<close> of the payload, when it is an object with a string there.\<close>

fun task_member :: "(string \<times> json) list \<Rightarrow> string \<Rightarrow> string option" where
  "task_member [] t = Some t"
| "task_member ((k, v) # ms) t =
     (if fold_key k = ''task'' then (case json_string v t of None \<Rightarrow> None | Some t \<Rightarrow> task_member ms t)
      else task_member ms t)"

definition taskOf :: "byte list \<Rightarrow> string" where
  "taskOf payload =
     (case parse_json (string_of payload) of
        Some (JObj ms) \<Rightarrow>
          (case task_member ms '''' of Some t \<Rightarrow> if t \<noteq> '''' then t else ''job'' | None \<Rightarrow> ''job'')
      | _ \<Rightarrow> ''job'')"

definition setWorker :: "nat \<Rightarrow> WorkerView \<Rightarrow> runner \<Rightarrow> runner" where
  "setWorker w v r = (if w \<in> set (rn_stops r) then r\<lparr>rn_workers := AList.update w v (rn_workers r)\<rparr> else r)"

fun bump :: "outcome \<Rightarrow> runner \<Rightarrow> runner" where
  "bump Abandoned r = r\<lparr>rn_abandoned := rn_abandoned r + 1\<rparr>"
| "bump Failed r = r\<lparr>rn_failed := rn_failed r + 1\<rparr>"
| "bump Done r = r\<lparr>rn_done := rn_done r + 1\<rparr>"

definition record_completion :: "Completion \<Rightarrow> runner \<Rightarrow> runner" where
  "record_completion c r =
     (let rs = rn_recent r @ [c] in r\<lparr>rn_recent := (if length rs > 40 then drop (length rs - 40) rs else rs)\<rparr>)"

text \<open>Where a worker's loop stands: the settings it read, the message it works on, the outcome it is to count.\<close>

datatype wstate =
    Top
  | Reading
  | Leasing Config
  | Resting
  | Working Config leased_view string
  | Settling Config leased_view string
  | Counting outcome
  | Ending
  | Returned

text \<open>What one step meets: the network, the clock, the draws, and which of two ready channels \<open>select\<close> takes.\<close>

record step_env =
  we_http :: "http_request \<Rightarrow> exchange"
  we_now :: int
  we_work :: int
  we_roll :: rat
  we_add :: "rat \<Rightarrow> rat \<Rightarrow> rat"
  we_stop :: bool

definition sleepOrStop :: "step_env \<Rightarrow> nat \<Rightarrow> runner \<Rightarrow> bool" where
  "sleepOrStop env w r \<longleftrightarrow> w \<in> set (rn_closed r) \<and> we_stop env"

definition completion :: "step_env \<Rightarrow> nat \<Rightarrow> leased_view \<Rightarrow> string \<Rightarrow> outcome \<Rightarrow> Completion" where
  "completion env w m task oc = \<lparr>co_Task = task, co_Priority = lv_Priority m, co_Attempts = lv_Attempts m, co_Worker = w,
     co_Outcome = oc, co_Seq = lv_Seq m, co_AtMS = we_now env\<rparr>"

fun worker_step :: "step_env \<Rightarrow> nat \<Rightarrow> wstate \<Rightarrow> runner \<Rightarrow> runner \<times> wstate" where
  "worker_step env w Top r = (r, if w \<in> set (rn_closed r) then Returned else Reading)"
| "worker_step env w Reading r = (r, Leasing (runner_Config r))"
| "worker_step env w (Leasing c) r =
     (case client_Dequeue (we_http env) (cf_Target c) 1 (cf_VisibilityMS c) of
        Inl err \<Rightarrow> (setWorker w (idle_view w ''no server'') r, Resting)
      | Inr [] \<Rightarrow> (setWorker w (idle_view w ''idle'') r, Resting)
      | Inr (m # _) \<Rightarrow>
          let task = taskOf (lv_Payload m)
          in (setWorker w \<lparr>wv_ID = w, wv_State = ''working'', wv_Task = task, wv_MessageID = lv_ID m,
                wv_Priority = lv_Priority m, wv_Attempts = lv_Attempts m, wv_StartedMS = we_now env,
                wv_TotalMS = cf_WorkMinMS c + we_work env\<rparr> r,
              Working c m task))"
| "worker_step env w Resting r = (r, if sleepOrStop env w r then Returned else Top)"
| "worker_step env w (Working c m task) r = (r, if sleepOrStop env w r then Returned else Settling c m task)"
| "worker_step env w (Settling c m task) r =
     (if we_roll env < cf_AbandonRate c
      then (record_completion (completion env w m task Abandoned) r, Counting Abandoned)
      else if we_roll env < we_add env (cf_AbandonRate c) (cf_FailureRate c)
      then (case client_Nack (we_http env) (cf_Target c) (lv_ID m) of
              None \<Rightarrow> (record_completion (completion env w m task Failed) r, Counting Failed)
            | Some err \<Rightarrow> (r, Ending))
      else (case client_Ack (we_http env) (cf_Target c) (lv_ID m) of
              None \<Rightarrow> (record_completion (completion env w m task Done) r, Counting Done)
            | Some err \<Rightarrow> (r, Ending)))"
| "worker_step env w (Counting oc) r = (bump oc r, Ending)"
| "worker_step env w Ending r = (setWorker w (idle_view w ''idle'') r, Top)"
| "worker_step env w Returned r = (r, Returned)"

section \<open>What the dashboard sees\<close>

record RunnerState =
  rs_config :: Config
  rs_Workers :: "WorkerView list"
  rs_Recent :: "Completion list"
  rs_Submitted :: int
  rs_Done :: int
  rs_Failed :: int
  rs_Abandoned :: int

text \<open>The insertion sort by id: each view sinks to its place among those before it.\<close>

fun sink :: "nat \<Rightarrow> WorkerView list \<Rightarrow> WorkerView list" where
  "sink 0 ws = ws"
| "sink (Suc j) ws = (if wv_ID (ws ! Suc j) < wv_ID (ws ! j) then sink j (exchange ws (Suc j) j) else ws)"

definition sort_workers :: "WorkerView list \<Rightarrow> WorkerView list" where
  "sort_workers ws = fold sink [1..<length ws] ws"

text \<open>\<open>ids\<close> is the map of stop channels in the order in which it is walked.\<close>

definition runner_State :: "nat list \<Rightarrow> runner \<Rightarrow> RunnerState" where
  "runner_State ids r =
     \<lparr>rs_config = runner_Config r,
      rs_Workers = sort_workers (List.map_filter (map_of (rn_workers r)) ids),
      rs_Recent = rn_recent r, rs_Submitted = rn_submitted r, rs_Done = rn_done r, rs_Failed = rn_failed r,
      rs_Abandoned = rn_abandoned r\<rparr>"

end
