(* ===== verification/Pool.thy ===== *)
theory Pool
  imports Runner
begin

text \<open>
  The worker pool of \<open>internal/demo/runner.go\<close> over time: the requests of the dashboard and the steps of the
  workers in any order. A state is the runner with the loop of each worker that was ever started, by id; a
  trace lists the messages leased and settled and the jobs completed.
\<close>

section \<open>Runs\<close>

datatype act =
    Leased nat string string
  | Settled nat string string
  | Completed Completion

fun acts :: "step_env \<Rightarrow> nat \<Rightarrow> wstate \<Rightarrow> act list" where
  "acts env w (Leasing c) =
     (case client_Dequeue (we_http env) (cf_Target c) 1 (cf_VisibilityMS c) of
        Inr (m # _) \<Rightarrow> [Leased w (cf_Target c) (lv_ID m)]
      | _ \<Rightarrow> [])"
| "acts env w (Settling c m task) =
     (if we_roll env < cf_AbandonRate c then [Completed (completion env w m task Abandoned)]
      else if we_roll env < we_add env (cf_AbandonRate c) (cf_FailureRate c)
      then Settled w (cf_Target c) (lv_ID m) #
        (if client_Nack (we_http env) (cf_Target c) (lv_ID m) = None then [Completed (completion env w m task Failed)] else [])
      else Settled w (cf_Target c) (lv_ID m) #
        (if client_Ack (we_http env) (cf_Target c) (lv_ID m) = None then [Completed (completion env w m task Done)] else []))"
| "acts env w s = []"

inductive pool :: "runner \<Rightarrow> wstate list \<Rightarrow> act list \<Rightarrow> bool" where
  pool_new: "pool (NewRunner events) [] []"
| pool_resize: "pool r ls tr \<Longrightarrow> r' = SetWorkers n r \<Longrightarrow>
    pool r' (ls @ replicate (rn_nextWorkerID r' - length ls) Top) tr"
| pool_settings: "pool r ls tr \<Longrightarrow> pool (Update_settings quoted target failure abandon visibility r) ls tr"
| pool_submit: "pool r ls tr \<Longrightarrow> pool (fst (Submit ds queue n priority delayMS dedupID r)) ls tr"
| pool_burst: "pool r ls tr \<Longrightarrow> pool (fst (Burst ds order elapsed queue n concurrency r)) ls tr"
| pool_work: "pool r ls tr \<Longrightarrow> w < length ls \<Longrightarrow> worker_step env w (ls ! w) r = (r', s) \<Longrightarrow>
    pool r' (ls[w := s]) (tr @ acts env w (ls ! w))"

section \<open>Its shape\<close>

text \<open>
  The ids ever given out are divided into those of the pool, each with its own view, and those whose channel has
  been closed, each once.
\<close>

definition pool_shape :: "runner \<Rightarrow> bool" where
  "pool_shape r \<longleftrightarrow> distinct (rn_stops r @ rn_closed r) \<and> set (rn_stops r) \<union> set (rn_closed r) = {..<rn_nextWorkerID r} \<and>
     distinct (map fst (rn_workers r)) \<and> fst ` set (rn_workers r) = set (rn_stops r) \<and>
     (\<forall>(w, v) \<in> set (rn_workers r). wv_ID v = w)"

abbreviation counters_of :: "runner \<Rightarrow> Completion list \<times> int \<times> int \<times> int" where
  "counters_of r \<equiv> (rn_recent r, rn_done r, rn_failed r, rn_abandoned r)"

lemma set_update_views: "distinct (map fst vs) \<Longrightarrow> set (AList.update k v vs) = insert (k, v) {p \<in> set vs. fst p \<noteq> k}"
  by (induction vs) (auto simp: image_iff)

lemma spawn_shape: "pool_shape r \<Longrightarrow> pool_shape (spawn r)"
  by (auto simp: pool_shape_def spawn_def Let_def idle_view_def distinct_update dom_update set_update_views lessThan_Suc)

lemma dismiss_shape:
  assumes "pool_shape r" and "rn_stops r \<noteq> []"
  shows "pool_shape (dismiss r)"
proof -
  let ?w = "nat (victim (rn_stops r))"
  have w: "?w \<in> set (rn_stops r)" by (rule victim_in [OF assms(2)])
  have d: "set (AList.delete ?w (rn_workers r)) = {p \<in> set (rn_workers r). fst p \<noteq> ?w}"
    by (auto simp: AList.delete_eq)
  show ?thesis
    using assms(1) w by (auto simp: pool_shape_def dismiss_def Let_def d distinct_delete distinct_removeAll image_iff)
qed

lemma spawn_frame:
  "length (rn_stops (spawn r)) = Suc (length (rn_stops r))" "rn_desired (spawn r) = rn_desired r"
  "counters_of (spawn r) = counters_of r" "rn_nextWorkerID (spawn r) = Suc (rn_nextWorkerID r)"
  "set (rn_stops (spawn r)) = insert (rn_nextWorkerID r) (set (rn_stops r))"
  by (simp_all add: spawn_def Let_def)

lemma dismiss_frame:
  "rn_desired (dismiss r) = rn_desired r" "counters_of (dismiss r) = counters_of r"
  "rn_nextWorkerID (dismiss r) = rn_nextWorkerID r" "set (rn_stops (dismiss r)) \<subseteq> set (rn_stops r)"
  by (auto simp: dismiss_def Let_def)

lemma dismiss_length:
  "pool_shape r \<Longrightarrow> rn_stops r \<noteq> [] \<Longrightarrow> length (rn_stops (dismiss r)) = length (rn_stops r) - 1"
  using victim_in [of "rn_stops r"]
  by (simp add: pool_shape_def dismiss_def Let_def distinct_remove1_removeAll [symmetric] length_remove1)

text \<open>What both loops keep: the shape, the counters, and no worker but the new ones added.\<close>

definition pool_step :: "runner \<Rightarrow> runner \<Rightarrow> bool" where
  "pool_step r r' \<longleftrightarrow> pool_shape r' \<and> rn_desired r' = rn_desired r \<and> counters_of r' = counters_of r \<and>
     rn_nextWorkerID r \<le> rn_nextWorkerID r' \<and> set (rn_stops r') \<subseteq> set (rn_stops r) \<union> {rn_nextWorkerID r..}"

lemma pool_step_trans: "pool_step r r' \<Longrightarrow> pool_step r' r'' \<Longrightarrow> pool_step r r''"
  unfolding pool_step_def by (auto dest!: subsetD)

lemma grow_step:
  "pool_shape r \<Longrightarrow> pool_step r (grow n r) \<and> n \<le> int (length (rn_stops (grow n r))) \<and>
   (int (length (rn_stops r)) \<le> n \<longrightarrow> int (length (rn_stops (grow n r))) = n)"
proof (induction n r rule: grow.induct)
  case (1 n r)
  show ?case
  proof (cases "int (length (rn_stops r)) < n")
    case True
    have "pool_step r (spawn r)" using 1(2) spawn_shape by (auto simp: pool_step_def spawn_frame)
    moreover have "grow n r = grow n (spawn r)" using True by (subst grow.simps) simp
    ultimately show ?thesis
      using 1(1) [OF True spawn_shape [OF 1(2)]] True by (auto simp: spawn_frame intro: pool_step_trans)
  next
    case False
    then have "grow n r = r" by (subst grow.simps) simp
    then show ?thesis using 1(2) False by (auto simp: pool_step_def)
  qed
qed

lemma shrink_step:
  "pool_shape r \<Longrightarrow> 0 \<le> n \<Longrightarrow> pool_step r (shrink n r) \<and>
   (n \<le> int (length (rn_stops r)) \<longrightarrow> int (length (rn_stops (shrink n r))) = n)"
proof (induction n r rule: shrink.induct)
  case (1 n r)
  show ?case
  proof (cases "int (length (rn_stops r)) > n \<and> rn_stops r \<noteq> []")
    case True
    then have ne: "rn_stops r \<noteq> []" by simp
    have "pool_step r (dismiss r)"
      using dismiss_shape [OF 1(2) ne] dismiss_frame [of r] by (auto simp: pool_step_def)
    moreover have "shrink n r = shrink n (dismiss r)" using True by (subst shrink.simps) simp
    ultimately show ?thesis
      using 1(1) [OF True dismiss_shape [OF 1(2) ne] 1(3)] True dismiss_length [OF 1(2) ne]
      by (auto intro: pool_step_trans)
  next
    case False
    then have "shrink n r = r" by (subst shrink.simps) auto
    then show ?thesis using 1(2,3) False by (auto simp: pool_step_def)
  qed
qed

lemma SetWorkers_step:
  assumes "pool_shape r"
  shows "pool_shape (SetWorkers n r)" and "rn_desired (SetWorkers n r) = max 0 (min 32 n)"
    and "int (length (rn_stops (SetWorkers n r))) = max 0 (min 32 n)"
    and "counters_of (SetWorkers n r) = counters_of r" and "rn_nextWorkerID r \<le> rn_nextWorkerID (SetWorkers n r)"
    and "set (rn_stops (SetWorkers n r)) \<subseteq> set (rn_stops r) \<union> {rn_nextWorkerID r..}"
proof -
  let ?n = "max 0 (min 32 n)" and ?r = "r\<lparr>rn_desired := max 0 (min 32 n)\<rparr>"
  have e: "SetWorkers n r = shrink ?n (grow ?n ?r)" by (auto simp: SetWorkers_def Let_def max_def min_def)
  have s: "pool_shape ?r" using assms by (simp add: pool_shape_def)
  from grow_step [OF s, of ?n] have g: "pool_step ?r (grow ?n ?r)" "?n \<le> int (length (rn_stops (grow ?n ?r)))" by auto
  from shrink_step [of "grow ?n ?r" ?n] g have h: "pool_step (grow ?n ?r) (SetWorkers n r)"
    "int (length (rn_stops (SetWorkers n r))) = ?n"
    unfolding e by (auto simp: pool_step_def)
  from pool_step_trans [OF g(1) h(1)] have p: "pool_step ?r (SetWorkers n r)" .
  show "pool_shape (SetWorkers n r)" "rn_desired (SetWorkers n r) = max 0 (min 32 n)"
    "int (length (rn_stops (SetWorkers n r))) = max 0 (min 32 n)"
    "counters_of (SetWorkers n r) = counters_of r" "rn_nextWorkerID r \<le> rn_nextWorkerID (SetWorkers n r)"
    "set (rn_stops (SetWorkers n r)) \<subseteq> set (rn_stops r) \<union> {rn_nextWorkerID r..}"
    using p h(2) by (simp_all add: pool_step_def)
qed

section \<open>One step of a worker\<close>

definition completions :: "act list \<Rightarrow> Completion list" where
  "completions tr = List.map_filter (\<lambda>a. case a of Completed c \<Rightarrow> Some c | _ \<Rightarrow> None) tr"

fun counter :: "outcome \<Rightarrow> runner \<Rightarrow> int" where
  "counter Abandoned r = rn_abandoned r"
| "counter Failed r = rn_failed r"
| "counter Done r = rn_done r"

abbreviation num :: "('a \<Rightarrow> bool) \<Rightarrow> 'a list \<Rightarrow> int" where
  "num P xs \<equiv> int (length (filter P xs))"

text \<open>The message a worker holds.\<close>

fun holds :: "string \<Rightarrow> string \<Rightarrow> wstate \<Rightarrow> bool" where
  "holds q mid (Working c m task) \<longleftrightarrow> cf_Target c = q \<and> lv_ID m = mid"
| "holds q mid (Settling c m task) \<longleftrightarrow> cf_Target c = q \<and> lv_ID m = mid"
| "holds q mid s \<longleftrightarrow> False"

lemma setWorker_shape: "pool_shape r \<Longrightarrow> wv_ID v = w \<Longrightarrow> pool_shape (setWorker w v r)"
  by (auto simp: pool_shape_def setWorker_def distinct_update dom_update set_update_views)

lemma frames:
  "rn_stops (setWorker w v r) = rn_stops r" "rn_closed (setWorker w v r) = rn_closed r"
  "rn_nextWorkerID (setWorker w v r) = rn_nextWorkerID r" "rn_desired (setWorker w v r) = rn_desired r"
  "rn_recent (setWorker w v r) = rn_recent r" "counter oc (setWorker w v r) = counter oc r"
  "rn_stops (record_completion c r) = rn_stops r" "rn_closed (record_completion c r) = rn_closed r"
  "rn_nextWorkerID (record_completion c r) = rn_nextWorkerID r" "rn_desired (record_completion c r) = rn_desired r"
  "rn_workers (record_completion c r) = rn_workers r" "counter oc (record_completion c r) = counter oc r"
  "rn_done (record_completion c r) = rn_done r" "rn_failed (record_completion c r) = rn_failed r"
  "rn_abandoned (record_completion c r) = rn_abandoned r" "rn_done (setWorker w v r) = rn_done r"
  "rn_failed (setWorker w v r) = rn_failed r" "rn_abandoned (setWorker w v r) = rn_abandoned r"
  "rn_stops (bump oc r) = rn_stops r" "rn_closed (bump oc r) = rn_closed r" "rn_nextWorkerID (bump oc r) = rn_nextWorkerID r"
  "rn_desired (bump oc r) = rn_desired r" "rn_workers (bump oc r) = rn_workers r" "rn_recent (bump oc r) = rn_recent r"
  "rn_recent (record_completion c r) = last_n 40 (rn_recent r @ [c])"
  by (cases oc; simp add: setWorker_def record_completion_def Let_def last_n_def)+

lemma counter_bump: "counter oc (bump oc' r) = counter oc r + of_bool (oc = oc')"
  by (cases oc; cases oc') simp_all

lemma counter_cong: "counters_of r' = counters_of r \<Longrightarrow> counter oc r' = counter oc r"
  by (cases oc) simp_all

lemma step_shape:
  assumes "pool_shape r" and "worker_step env w s r = (r', s')"
  shows "pool_shape r'" "rn_stops r' = rn_stops r" "rn_closed r' = rn_closed r" "rn_nextWorkerID r' = rn_nextWorkerID r"
    "rn_desired r' = rn_desired r"
proof -
  have "pool_shape (record_completion c r)" "pool_shape (bump oc r)" for c oc
    using assms(1) by (simp_all add: pool_shape_def frames)
  then show "pool_shape r'" "rn_stops r' = rn_stops r" "rn_closed r' = rn_closed r" "rn_nextWorkerID r' = rn_nextWorkerID r"
    "rn_desired r' = rn_desired r"
    using assms
    by (cases s; auto simp: frames idle_view_def Let_def setWorker_shape split: sum.splits list.splits if_splits option.splits)+
qed

lemma step_returned: "worker_step env w s r = (r', Returned) \<Longrightarrow> s = Returned \<or> w \<in> set (rn_closed r)"
  by (cases s) (auto simp: sleepOrStop_def Let_def split: sum.splits list.splits if_splits option.splits)

lemma completions_simps [simp]:
  "completions [] = []" "completions (Completed c # tr) = c # completions tr" "completions (Leased w q mid # tr) = completions tr"
  "completions (Settled w q mid # tr) = completions tr" "completions (tr @ tr') = completions tr @ completions tr'"
  by (simp_all add: completions_def map_filter_simps map_filter_def)

lemma step_recent:
  "worker_step env w s r = (r', s') \<Longrightarrow>
   rn_recent r' = (if completions (acts env w s) = [] then rn_recent r else last_n 40 (rn_recent r @ completions (acts env w s)))"
  by (cases s) (auto simp: frames Let_def split: sum.splits list.splits if_splits option.splits)

lemma step_counter:
  "worker_step env w s r = (r', s') \<Longrightarrow>
   counter oc r' + of_bool (s' = Counting oc) =
     counter oc r + of_bool (s = Counting oc) + num (\<lambda>c. co_Outcome c = oc) (completions (acts env w s))"
proof (cases s)
  case (Settling c m task)
  moreover assume "worker_step env w s r = (r', s')"
  moreover have "co_Outcome (completion env w m task oc') = oc'" for oc' by (simp add: completion_def)
  ultimately show ?thesis by (auto simp: frames split: if_splits option.splits)
qed (auto simp: frames counter_bump Let_def split: sum.splits list.splits if_splits)

lemma step_settled:
  "worker_step env w s r = (r', s') \<Longrightarrow>
   num ((=) (Settled w q mid)) (acts env w s) + of_bool (holds q mid s') \<le>
     num ((=) (Leased w q mid)) (acts env w s) + of_bool (holds q mid s)"
  by (cases s) (auto simp: Let_def split: sum.splits list.splits if_splits option.splits)

lemma acts_own: "a \<in> set (acts env w s) \<Longrightarrow> a = Settled x q mid \<or> a = Leased x q mid \<Longrightarrow> x = w"
  by (cases s) (auto simp: Let_def split: sum.splits list.splits if_splits option.splits)

section \<open>The invariant\<close>

text \<open>The pool has the size that was asked for, and none of its workers has returned.\<close>

definition pool_sized :: "runner \<Rightarrow> wstate list \<Rightarrow> bool" where
  "pool_sized r ls \<longleftrightarrow> length ls = rn_nextWorkerID r \<and> 0 \<le> rn_desired r \<and> rn_desired r \<le> 32 \<and>
     int (length (rn_stops r)) = rn_desired r \<and> (\<forall>w \<in> set (rn_stops r). ls ! w \<noteq> Returned)"

text \<open>The counters are those of the completed jobs, up to workers about to count one.\<close>

definition counted :: "runner \<Rightarrow> wstate list \<Rightarrow> act list \<Rightarrow> bool" where
  "counted r ls tr \<longleftrightarrow> rn_recent r = last_n 40 (completions tr) \<and>
     (\<forall>oc. counter oc r + num ((=) (Counting oc)) ls = num (\<lambda>c. co_Outcome c = oc) (completions tr))"

text \<open>A worker settles only what it leased, in the queue it leased it from, and at most once.\<close>

definition settled_once :: "wstate list \<Rightarrow> act list \<Rightarrow> bool" where
  "settled_once ls tr \<longleftrightarrow>
     (\<forall>w q mid. num ((=) (Settled w q mid)) tr + of_bool (w < length ls \<and> holds q mid (ls ! w)) \<le> num ((=) (Leased w q mid)) tr)"

definition pool_inv :: "runner \<Rightarrow> wstate list \<Rightarrow> act list \<Rightarrow> bool" where
  "pool_inv r ls tr \<longleftrightarrow> pool_shape r \<and> pool_sized r ls \<and> counted r ls tr \<and> settled_once ls tr"

lemma num_update:
  "w < length xs \<Longrightarrow> num P (xs[w := x]) + of_bool (P (xs ! w)) = num P xs + of_bool (P x)"
proof (induction xs arbitrary: w)
  case (Cons y xs)
  then show ?case by (cases w) auto
qed simp

lemma last_n_append: "last_n n (last_n n xs @ ys) = last_n n (xs @ ys)"
  by (cases "n \<le> length xs") (auto simp: last_n_def drop_append add.commute)

lemma counter_new: "counter oc (NewRunner events) = 0"
  by (cases oc) (simp_all add: NewRunner_def)

lemma pool_inv_new: "pool_inv (NewRunner events) [] []"
  by (simp add: pool_inv_def pool_sized_def counted_def settled_once_def counter_new)
    (simp add: pool_shape_def NewRunner_def last_n_def)

lemma counted_same: "counters_of r' = counters_of r \<Longrightarrow> counted r' ls tr = counted r ls tr"
  using counter_cong [of r' r] by (simp add: counted_def)

lemma pool_inv_same:
  assumes "pool_inv r ls tr" and c: "counters_of r' = counters_of r" and "rn_stops r' = rn_stops r" "rn_closed r' = rn_closed r"
    "rn_nextWorkerID r' = rn_nextWorkerID r" "rn_desired r' = rn_desired r" "rn_workers r' = rn_workers r"
  shows "pool_inv r' ls tr"
  using assms(1) unfolding pool_inv_def counted_same [OF c] pool_shape_def pool_sized_def by (simp add: assms(3-7))

lemma pool_inv_resize:
  assumes "pool_inv r ls tr"
  shows "pool_inv (SetWorkers n r) (ls @ replicate (rn_nextWorkerID (SetWorkers n r) - length ls) Top) tr"
proof -
  have s: "pool_shape r" "length ls = rn_nextWorkerID r" "counted r ls tr" "settled_once ls tr"
    using assms by (simp_all add: pool_inv_def pool_sized_def)
  note S = SetWorkers_step [OF s(1), of n]
  let ?r = "SetWorkers n r" and ?new = "replicate (rn_nextWorkerID (SetWorkers n r) - length ls) Top"
  have live: "(ls @ ?new) ! w \<noteq> Returned" if w: "w \<in> set (rn_stops ?r)" for w
  proof (cases "w < length ls")
    case True
    then have "w \<in> set (rn_stops r)" using S(6) w s(2) by auto
    then show ?thesis using assms True by (simp add: pool_inv_def pool_sized_def nth_append)
  next
    case False
    moreover have "w < rn_nextWorkerID ?r" using S(1) w by (auto simp: pool_shape_def)
    ultimately show ?thesis by (simp add: nth_append s(2))
  qed
  have "pool_sized ?r (ls @ ?new)" unfolding pool_sized_def using S(2,3,5) s(2) live by simp
  moreover have "counted ?r (ls @ ?new) tr" using s(3) unfolding counted_same [OF S(4)] by (simp add: counted_def)
  moreover have "settled_once (ls @ ?new) tr"
  proof -
    have "(w < length (ls @ ?new) \<and> holds q mid ((ls @ ?new) ! w)) = (w < length ls \<and> holds q mid (ls ! w))" for w q mid
      by (simp add: nth_append)
    then show ?thesis using s(4) by (simp only: settled_once_def simp_thms)
  qed
  ultimately show ?thesis using S(1) by (simp add: pool_inv_def)
qed

lemma counted_work:
  assumes "counted r ls tr" and w: "w < length ls" and step: "worker_step env w (ls ! w) r = (r', s')"
  shows "counted r' (ls[w := s']) (tr @ acts env w (ls ! w))"
proof -
  have "counter oc r' + num ((=) (Counting oc)) (ls[w := s']) =
      num (\<lambda>c. co_Outcome c = oc) (completions (tr @ acts env w (ls ! w)))" for oc
  proof -
    have "of_bool (ls ! w = Counting oc) = (of_bool (Counting oc = ls ! w) :: int)"
      "of_bool (s' = Counting oc) = (of_bool (Counting oc = s') :: int)" by auto
    moreover have "num (\<lambda>c. co_Outcome c = oc) (completions (tr @ acts env w (ls ! w))) =
      counter oc r + num ((=) (Counting oc)) ls + num (\<lambda>c. co_Outcome c = oc) (completions (acts env w (ls ! w)))"
      using assms(1) by (simp add: counted_def)
    ultimately show ?thesis using step_counter [OF step, of oc] num_update [OF w, of "(=) (Counting oc)" s'] by linarith
  qed
  moreover have "rn_recent r' = last_n 40 (completions (tr @ acts env w (ls ! w)))"
    using step_recent [OF step] assms(1) by (auto simp: counted_def last_n_append)
  ultimately show ?thesis by (simp add: counted_def)
qed

lemma settled_work:
  assumes "settled_once ls tr" and w: "w < length ls" and step: "worker_step env w (ls ! w) r = (r', s')"
  shows "settled_once (ls[w := s']) (tr @ acts env w (ls ! w))"
  unfolding settled_once_def
proof (intro allI)
  fix v q mid
  let ?as = "acts env w (ls ! w)"
  have old: "num ((=) (Settled v q mid)) tr + of_bool (v < length ls \<and> holds q mid (ls ! v)) \<le> num ((=) (Leased v q mid)) tr"
    using assms(1) by (simp only: settled_once_def)
  show "num ((=) (Settled v q mid)) (tr @ ?as) + of_bool (v < length (ls[w := s']) \<and> holds q mid (ls[w := s'] ! v))
      \<le> num ((=) (Leased v q mid)) (tr @ ?as)"
  proof (cases "v = w")
    case True
    then have "of_bool (v < length (ls[w := s']) \<and> holds q mid (ls[w := s'] ! v)) = (of_bool (holds q mid s') :: int)"
      "of_bool (v < length ls \<and> holds q mid (ls ! v)) = (of_bool (holds q mid (ls ! w)) :: int)" using w by simp_all
    then show ?thesis using step_settled [OF step, of q mid] old True by simp
  next
    case False
    then have "filter ((=) (Settled v q mid)) ?as = []" "filter ((=) (Leased v q mid)) ?as = []"
      using acts_own by (fastforce simp: filter_empty_conv)+
    then show ?thesis using False old by simp
  qed
qed

lemma pool_inv_work:
  assumes "pool_inv r ls tr" and w: "w < length ls" and step: "worker_step env w (ls ! w) r = (r', s')"
  shows "pool_inv r' (ls[w := s']) (tr @ acts env w (ls ! w))"
proof -
  have shape: "pool_shape r" and sized: "pool_sized r ls" using assms(1) by (simp_all add: pool_inv_def)
  note S = step_shape [OF shape step]
  have "ls[w := s'] ! v \<noteq> Returned" if v: "v \<in> set (rn_stops r)" for v
  proof (cases "v = w")
    case True
    then have "w \<notin> set (rn_closed r)" "ls ! w \<noteq> Returned" using v shape sized by (auto simp: pool_shape_def pool_sized_def)
    then show ?thesis using step_returned [of env w "ls ! w" r r'] step w True by auto
  qed (use sized v in \<open>simp add: pool_sized_def\<close>)
  then have "pool_sized r' (ls[w := s'])" using sized S(2,4,5) by (simp add: pool_sized_def)
  moreover have "counted r' (ls[w := s']) (tr @ acts env w (ls ! w))"
    by (rule counted_work [OF _ w step]) (use assms(1) in \<open>simp add: pool_inv_def\<close>)
  moreover have "settled_once (ls[w := s']) (tr @ acts env w (ls ! w))"
    by (rule settled_work [OF _ w step]) (use assms(1) in \<open>simp add: pool_inv_def\<close>)
  ultimately show ?thesis using S(1) by (simp add: pool_inv_def)
qed

lemma Update_settings_frame:
  "counters_of (Update_settings quoted t f a v r) = counters_of r" "rn_stops (Update_settings quoted t f a v r) = rn_stops r"
  "rn_closed (Update_settings quoted t f a v r) = rn_closed r" "rn_nextWorkerID (Update_settings quoted t f a v r) = rn_nextWorkerID r"
  "rn_desired (Update_settings quoted t f a v r) = rn_desired r" "rn_workers (Update_settings quoted t f a v r) = rn_workers r"
  by (simp_all add: Update_settings_def Let_def split: option.splits)

lemma Submit_cases:
  "fst (Submit ds queue n priority delayMS dedupID r) = r \<or> (\<exists>k. fst (Submit ds queue n priority delayMS dedupID r) = r\<lparr>rn_submitted := k\<rparr>)"
proof -
  obtain out err where "submit_loop ds queue 0 (nat (submit_count n)) priority delayMS dedupID [] = (out, err)" by (rule prod.exhaust)
  then show ?thesis by (cases err) (auto simp: Submit_def)
qed

lemma Burst_cases:
  "\<exists>k e. fst (Burst ds order elapsed queue n concurrency r) = r\<lparr>rn_submitted := k, rn_events := e\<rparr>"
proof -
  obtain ok first where "fold (\<lambda>i. count_answer (client_Enqueue (dr_http (ds i)) queue (burst_request (ds i) i)))
      (order (nat (burst_count n))) (0, None) = (ok, first)" by (rule prod.exhaust)
  then show ?thesis by (auto simp: Burst_def)
qed

lemma pool_invariant: "pool r ls tr \<Longrightarrow> pool_inv r ls tr"
proof (induction rule: pool.induct)
  case (pool_new events)
  show ?case by (rule pool_inv_new)
next
  case (pool_resize r ls tr r' n)
  then show ?case using pool_inv_resize by simp
next
  case (pool_settings r ls tr quoted target failure abandon visibility)
  then show ?case by (intro pool_inv_same [OF pool_settings.IH]) (simp_all only: Update_settings_frame)
next
  case (pool_submit r ls tr ds queue n priority delayMS dedupID)
  then show ?case
    using Submit_cases [of ds queue n priority delayMS dedupID r] by (auto intro: pool_inv_same)
next
  case (pool_burst r ls tr ds order elapsed queue n concurrency)
  then show ?case
    using Burst_cases [of ds order elapsed queue n concurrency r] by (auto intro: pool_inv_same)
next
  case (pool_work r ls tr w env r' s)
  show ?case by (rule pool_inv_work [OF pool_work.IH pool_work.hyps(2,3)])
qed

end
