(* ===== verification/Client_Wire.thy ===== *)
theory Client_Wire
  imports Client
begin

text \<open>
  What the client sends and what the server makes of it: each request takes the route of its handler, and the
  handler's decoder gets back what the client was told to send.
\<close>

section \<open>Reading back what was shown\<close>

text \<open>\<open>tx\<close> is a text for the value \<open>v\<close> from fuel \<open>N\<close> on, at any depth a request reaches.\<close>

definition spells :: "nat \<Rightarrow> string \<Rightarrow> json \<Rightarrow> bool" where
  "spells N tx v \<longleftrightarrow> tx \<noteq> [] \<and> \<not> is_ws (hd tx) \<and>
     (\<forall>n d r. N \<le> n \<longrightarrow> d < 3 \<longrightarrow> r \<noteq> [] \<longrightarrow> ends_number r \<longrightarrow> parse_value (Suc n) d (tx @ r) = Some (v, r))"

lemma spells_mono: "spells N tx v \<Longrightarrow> N \<le> M \<Longrightarrow> spells M tx v"
  by (simp add: spells_def)

lemma renders_spells: "renders tx v \<Longrightarrow> tx \<noteq> [] \<Longrightarrow> \<not> is_ws (hd tx) \<Longrightarrow> spells N tx v"
  by (simp add: renders_def spells_def)

lemma spells_int: "spells N (show_int i) (JNum (show_int i))"
proof (rule renders_spells [OF renders_int])
  obtain c cs where c: "show_int i = c # cs" "is_digit c \<or> c = CHR ''-''"
    using show_nat_digits [of "nat i"] by (cases "i < 0"; cases "show_nat (nat i)") (auto simp: show_int_def)
  then show "show_int i \<noteq> []" "\<not> is_ws (hd (show_int i))" using number_start(1) [OF c(2)] by simp_all
qed

lemma spells_bool: "spells N (show_bool b) (JBool b)"
  by (rule renders_spells [OF renders_bool]) (simp_all add: show_bool_def)

lemma spells_string: "spells N (show_string s) (JStr (sanitize s))"
  using parse_str_escape by (simp add: spells_def show_string_def)

text \<open>The members of an object, each with its value and with the text of its value.\<close>

abbreviation reads :: "nat \<Rightarrow> string \<times> string \<Rightarrow> string \<times> json \<times> string \<Rightarrow> bool" where
  "reads N \<equiv> \<lambda>(k, tx) (k', v, tx'). list_all plain k \<and> k' = k \<and> tx' = tx \<and> spells N tx v"

abbreviation key_value :: "string \<times> json \<times> string \<Rightarrow> string \<times> json" where
  "key_value m \<equiv> (fst m, fst (snd m))"

lemma member_key:
  "list_all plain k \<Longrightarrow> parse_str (k @ quote # CHR '':'' # tx @ r) = Some (k, CHR '':'' # tx @ r)"
  by (rule parse_str_plain)

lemma skip_ws_spells: "spells N tx v \<Longrightarrow> skip_ws (tx @ r) = tx @ r"
  by (cases tx) (simp_all add: spells_def)

lemma spells_value: "spells N tx v \<Longrightarrow> N < n \<Longrightarrow> d < 3 \<Longrightarrow> r \<noteq> [] \<Longrightarrow> ends_number r \<Longrightarrow> parse_value n d (tx @ r) = Some (v, r)"
  by (cases n) (simp_all add: spells_def)

lemma parse_members_spells:
  assumes "list_all2 (reads N) kvs ms" and "kvs \<noteq> []" and "N + length kvs < n" and "d < 3"
  shows "parse_members n d (show_members kvs @ r) = Some (map key_value ms, r)"
  using assms(1-3)
proof (induction kvs arbitrary: ms n)
  case (Cons kv kvs)
  obtain k tx where kv: "kv = (k, tx)" by (cases kv)
  from Cons.prems(1) obtain v ms' where ms: "ms = (k, v, tx) # ms'" "list_all plain k" "spells N tx v"
    "list_all2 (reads N) kvs ms'"
    by (auto simp: kv list_all2_Cons1)
  obtain n' where n: "n = Suc n'" "N < n'" "N + length kvs < n'"
    using Cons.prems(3) by (cases n) auto
  show ?case
  proof (cases "kvs = []")
    case True
    then have "ms' = []" using ms(4) by simp
    then show ?thesis
      using spells_value [OF ms(3) n(2) assms(4), of "CHR ''}'' # r"] member_key [OF ms(2), of tx "CHR ''}'' # r"] True
      by (simp add: n(1) ms(1) kv show_string_def escape_plain [OF ms(2)] ends_number_def)
  next
    case False
    have step: "show_members (kv # kvs) @ r = show_string k @ CHR '':'' # tx @ CHR '','' # show_members kvs @ r"
      using False by (cases kvs) (simp_all add: kv)
    show ?thesis
      using Cons.IH [OF ms(4) False n(3)] spells_value [OF ms(3) n(2) assms(4), of "CHR '','' # show_members kvs @ r"]
        member_key [OF ms(2), of tx "CHR '','' # show_members kvs @ r"]
      unfolding step by (simp add: n(1) ms(1) show_string_def escape_plain [OF ms(2)] ends_number_def)
  qed
qed simp

lemma raw_members_spells:
  assumes "list_all2 (reads N) kvs ms" and "kvs \<noteq> []" and "N + length kvs < n"
  shows "raw_members n (show_members kvs @ r) = Some ms"
  using assms
proof (induction kvs arbitrary: ms n)
  case (Cons kv kvs)
  obtain k tx where kv: "kv = (k, tx)" by (cases kv)
  from Cons.prems(1) obtain v ms' where ms: "ms = (k, v, tx) # ms'" "list_all plain k" "spells N tx v"
    "list_all2 (reads N) kvs ms'"
    by (auto simp: kv list_all2_Cons1)
  obtain n' where n: "n = Suc n'" "N < n'" "N + length kvs < n'"
    using Cons.prems(3) by (cases n) auto
  note V = spells_value [OF ms(3) n(2), of 1] and W = skip_ws_spells [OF ms(3)]
  show ?case
  proof (cases "kvs = []")
    case True
    then have "ms' = []" using ms(4) by simp
    then show ?thesis
      using V [of "CHR ''}'' # r"] member_key [OF ms(2), of tx "CHR ''}'' # r"] True
      by (simp add: n(1) ms(1) kv show_string_def escape_plain [OF ms(2)] ends_number_def W Let_def)
  next
    case False
    have step: "show_members (kv # kvs) @ r = show_string k @ CHR '':'' # tx @ CHR '','' # show_members kvs @ r"
      using False by (cases kvs) (simp_all add: kv)
    show ?thesis
      using Cons.IH [OF ms(4) False n(3)] V [of "CHR '','' # show_members kvs @ r"]
        member_key [OF ms(2), of tx "CHR '','' # show_members kvs @ r"]
      unfolding step by (simp add: n(1) ms(1) show_string_def escape_plain [OF ms(2)] ends_number_def W Let_def)
  qed
qed simp

text \<open>An object of shown members is itself shown.\<close>

lemma show_members_head: "kvs \<noteq> [] \<Longrightarrow> \<exists>s. show_members kvs = quote # s"
  by (cases kvs rule: show_members.cases) (auto simp: show_string_def)

lemma parse_object:
  assumes "list_all2 (reads N) kvs ms" and "kvs \<noteq> []" and "N + length kvs < n" and "d < 2"
  shows "parse_value (Suc n) d (json_object kvs @ r) = Some (JObj (map key_value ms), r)"
  using parse_members_spells [OF assms(1-3), of "Suc d" r] show_members_head [OF assms(2)] assms(4)
  by (auto simp: json_object_def max_depth_def)

section \<open>Decoding what the client encodes\<close>

lemma raw_object_spells:
  assumes "list_all2 (reads N) kvs ms" and "kvs \<noteq> []" and "N + length kvs < Suc (length (json_object kvs @ r))"
  shows "raw_object (json_object kvs @ r) = Some ms"
  using raw_members_spells [OF assms, of r] show_members_head [OF assms(2)]
  by (auto simp: raw_object_def json_object_def simp del: raw_members.simps)

lemma decode_body_object:
  assumes "list_all2 (reads N) kvs ms" and "kvs \<noteq> []" and "N + length kvs < length (json_Encode kvs)"
    and "length (json_Encode kvs) \<le> MaxPayloadBytes + 4096" and "set_fields f ms zero = Some x"
  shows "decode_body f zero (bytes_of (json_Encode kvs)) = Decoded x"
proof -
  let ?s = "json_Encode kvs"
  have s: "string_of (take (MaxPayloadBytes + 4096) (bytes_of ?s)) = ?s" using assms(4) by simp
  have v: "parse_value (Suc (length ?s)) 0 ?s = Some (JObj (map key_value ms), [CHR 0x0A])"
    unfolding json_Encode_def by (rule parse_object [OF assms(1,2)]) (use assms(3) in \<open>simp_all add: json_Encode_def\<close>)
  have "raw_object ?s = Some ms"
    unfolding json_Encode_def by (rule raw_object_spells [OF assms(1,2)]) (use assms(3) in \<open>simp add: json_Encode_def\<close>)
  moreover have "skip_ws ?s \<noteq> []" by (simp add: json_Encode_def json_object_def)
  ultimately show ?thesis using v assms(5) by (simp add: decode_body_def s Let_def del: parse_value.simps)
qed

lemma set_fields_append:
  "set_fields f (ms @ ms') x = (case set_fields f ms x of None \<Rightarrow> None | Some y \<Rightarrow> set_fields f ms' y)"
  by (induction ms arbitrary: x) (simp_all split: option.splits)

lemma sanitize_plain: "list_all plain s \<Longrightarrow> sanitize s = s"
  using parse_str_plain [of s "[]"] parse_str_escape [of s "[]"] by (simp add: escape_plain)

text \<open>What is read of a member that may be left out.\<close>

definition omit_read :: "string \<Rightarrow> int \<Rightarrow> (string \<times> json \<times> string) list" where
  "omit_read k i = (if i = 0 then [] else [(k, JNum (show_int i), show_int i)])"

definition omit_read_string :: "string \<Rightarrow> string \<Rightarrow> (string \<times> json \<times> string) list" where
  "omit_read_string k s = (if s = '''' then [] else [(k, JStr (sanitize s), show_string s)])"

lemma reads_omit: "list_all plain k \<Longrightarrow> list_all2 (reads N) (omit_int k i) (omit_read k i)"
  "list_all plain k \<Longrightarrow> list_all2 (reads N) (omit_string k s) (omit_read_string k s)"
  by (simp_all add: omit_int_def omit_read_def omit_string_def omit_read_string_def spells_int spells_string)

definition config_of :: "QueueConfig \<Rightarrow> config" where
  "config_of c = \<lparr>c_Name = qc_Name c, c_Ordering = qc_Ordering c, c_PriorityEnabled = qc_PriorityEnabled c,
     c_MaxAttempts = qc_MaxAttempts c, c_DefaultVisibilityTimeoutMS = qc_DefaultVisibilityTimeoutMS c,
     c_AgingIntervalMS = qc_AgingIntervalMS c, c_AgingMaxBoost = qc_AgingMaxBoost c,
     c_DedupWindowMS = qc_DedupWindowMS c, c_NextSeq = 0\<rparr>"

lemma set_create_omitted:
  assumes "in_i64 i"
  shows "c_MaxAttempts c = 0 \<Longrightarrow> set_fields set_create_field (omit_read ''max_attempts'' i) c = Some (c\<lparr>c_MaxAttempts := i\<rparr>)"
    "c_DefaultVisibilityTimeoutMS c = 0 \<Longrightarrow> set_fields set_create_field (omit_read ''default_visibility_timeout_ms'' i) c =
       Some (c\<lparr>c_DefaultVisibilityTimeoutMS := i\<rparr>)"
    "c_AgingIntervalMS c = 0 \<Longrightarrow> set_fields set_create_field (omit_read ''aging_interval_ms'' i) c = Some (c\<lparr>c_AgingIntervalMS := i\<rparr>)"
    "c_AgingMaxBoost c = 0 \<Longrightarrow> set_fields set_create_field (omit_read ''aging_max_boost'' i) c = Some (c\<lparr>c_AgingMaxBoost := i\<rparr>)"
    "c_DedupWindowMS c = 0 \<Longrightarrow> set_fields set_create_field (omit_read ''dedup_window_ms'' i) c = Some (c\<lparr>c_DedupWindowMS := i\<rparr>)"
  using assms by (cases c; simp add: omit_read_def set_create_field_def set_member_def fold_key_names json_int_def
      parse_int_lit_show del: fold_key.simps)+

abbreviation fits_body :: "http_request \<Rightarrow> bool" where
  "fits_body rq \<equiv> length (hr_Body rq) \<le> MaxPayloadBytes + 4096"

lemma decode_create:
  assumes "list_all plain (qc_Name c)" and "list_all plain (qc_Ordering c)" and "config_ranges (config_of c)"
    and fits: "fits_body (CreateQueue_request c)"
  shows "decode set_create_field zero_config (bytes_of (hr_Body (CreateQueue_request c))) = Inr (config_of c)"
proof -
  let ?hd = "[(''name'', JStr (sanitize (qc_Name c)), show_string (qc_Name c)),
      (''ordering'', JStr (sanitize (qc_Ordering c)), show_string (qc_Ordering c)),
      (''priority_enabled'', JBool (qc_PriorityEnabled c), show_bool (qc_PriorityEnabled c))]"
  let ?ms = "?hd @ omit_read ''max_attempts'' (qc_MaxAttempts c) @
     omit_read ''default_visibility_timeout_ms'' (qc_DefaultVisibilityTimeoutMS c) @
     omit_read ''aging_interval_ms'' (qc_AgingIntervalMS c) @ omit_read ''aging_max_boost'' (qc_AgingMaxBoost c) @
     omit_read ''dedup_window_ms'' (qc_DedupWindowMS c)"
  have reads: "list_all2 (reads 0) (QueueConfig_members c) ?ms"
    unfolding QueueConfig_members_def
    by (intro list_all2_appendI reads_omit) (simp_all add: spells_string spells_bool plain_def)
  have len: "length (QueueConfig_members c) < length (json_Encode (QueueConfig_members c))"
    by (simp add: QueueConfig_members_def omit_int_def json_Encode_def json_object_def show_string_def show_bool_def)
  have r: "in_i64 (qc_MaxAttempts c)" "in_i64 (qc_DefaultVisibilityTimeoutMS c)" "in_i64 (qc_AgingIntervalMS c)"
    "in_i64 (qc_AgingMaxBoost c)" "in_i64 (qc_DedupWindowMS c)"
    using assms(3) by (simp_all add: config_ranges_def config_of_def)
  let ?c = "zero_config\<lparr>c_Name := qc_Name c, c_Ordering := qc_Ordering c, c_PriorityEnabled := qc_PriorityEnabled c\<rparr>"
  have "set_fields set_create_field ?hd zero_config = Some ?c"
    by (simp add: set_create_field_def set_member_def fold_key_names json_string_def json_bool_def
        sanitize_plain assms(1,2) del: fold_key.simps)
  then have "set_fields set_create_field ?ms zero_config = Some (config_of c)"
    by (simp only: set_fields_append option.case) (simp add: set_create_omitted r zero_config_def config_of_def)
  then have "decode_body set_create_field zero_config (bytes_of (hr_Body (CreateQueue_request c))) = Decoded (config_of c)"
    using len fits by (simp add: CreateQueue_request_def post_def)
      (rule decode_body_object [OF reads], simp_all add: QueueConfig_members_def)
  then show ?thesis by (simp add: decode_def)
qed

text \<open>The request \<open>enqueue\<close> reads: invalid UTF-8 in a deduplication id is replaced on the way.\<close>

definition enqueue_of :: "EnqueueRequest \<Rightarrow> enqueueRequest" where
  "enqueue_of r = \<lparr>eq_Payload = bytes_of (en_Payload r), eq_Priority = en_Priority r, eq_DelayMS = en_DelayMS r,
     eq_DedupID = sanitize (en_DedupID r)\<rparr>"

lemma fold_key_requests:
  "fold_key ''payload'' = ''payload''" "fold_key ''priority'' = ''priority''" "fold_key ''delay_ms'' = ''delay_ms''"
  "fold_key ''dedup_id'' = ''dedup_id''" "fold_key ''max_messages'' = ''max_messages''"
  "fold_key ''visibility_timeout_ms'' = ''visibility_timeout_ms''"
  by simp_all

lemma sanitize_Nil [simp]: "sanitize '''' = ''''"
  by (simp add: sanitize_plain)

lemma set_enqueue_omitted:
  "in_i64 i \<Longrightarrow> eq_DelayMS r = 0 \<Longrightarrow> set_fields set_enqueue_field (omit_read ''delay_ms'' i) r = Some (r\<lparr>eq_DelayMS := i\<rparr>)"
  "eq_DedupID r = '''' \<Longrightarrow>
     set_fields set_enqueue_field (omit_read_string ''dedup_id'' s) r = Some (r\<lparr>eq_DedupID := sanitize s\<rparr>)"
  by (cases r; simp add: omit_read_def omit_read_string_def set_enqueue_field_def fold_key_requests json_int_def json_string_def
      parse_int_lit_show Let_def del: fold_key.simps)+

lemma decode_enqueue:
  assumes payload: "spells N (en_Payload r) v" "N \<le> length (en_Payload r)"
    and ranges: "in_i64 (en_Priority r)" "in_i64 (en_DelayMS r)" and fits: "fits_body (Enqueue_request queue r)"
  shows "decode set_enqueue_field zero_enqueue (bytes_of (hr_Body (Enqueue_request queue r))) = Inr (enqueue_of r)"
proof -
  let ?hd = "[(''payload'', v, en_Payload r), (''priority'', JNum (show_int (en_Priority r)), show_int (en_Priority r))]"
  let ?ms = "?hd @ omit_read ''delay_ms'' (en_DelayMS r) @ omit_read_string ''dedup_id'' (en_DedupID r)"
  have reads: "list_all2 (reads N) (EnqueueRequest_members r) ?ms"
    unfolding EnqueueRequest_members_def
    by (intro list_all2_appendI reads_omit) (simp_all add: spells_int plain_def payload(1))
  have len: "N + length (EnqueueRequest_members r) < length (json_Encode (EnqueueRequest_members r))"
    using payload(2)
    by (simp add: EnqueueRequest_members_def omit_int_def omit_string_def json_Encode_def json_object_def show_string_def)
  let ?r = "zero_enqueue\<lparr>eq_Payload := bytes_of (en_Payload r), eq_Priority := en_Priority r\<rparr>"
  have "set_fields set_enqueue_field ?hd zero_enqueue = Some ?r"
    by (simp add: set_enqueue_field_def fold_key_requests json_int_def parse_int_lit_show ranges del: fold_key.simps)
  then have "set_fields set_enqueue_field ?ms zero_enqueue = Some (enqueue_of r)"
    by (simp only: set_fields_append option.case) (simp add: set_enqueue_omitted ranges zero_enqueue_def enqueue_of_def)
  then have "decode_body set_enqueue_field zero_enqueue (bytes_of (hr_Body (Enqueue_request queue r))) = Decoded (enqueue_of r)"
    using len fits by (simp add: Enqueue_request_def post_def)
      (rule decode_body_object [OF reads], simp_all add: EnqueueRequest_members_def)
  then show ?thesis by (simp add: decode_def)
qed

lemma decode_dequeue:
  assumes "in_i64 mx" and "in_i64 vis" and fits: "fits_body (Dequeue_request queue mx vis)"
  shows "decodeOptional set_dequeue_field \<lparr>dq_MaxMessages = 0, dq_VisibilityTimeoutMS = 0\<rparr>
      (bytes_of (hr_Body (Dequeue_request queue mx vis))) = Inr \<lparr>dq_MaxMessages = mx, dq_VisibilityTimeoutMS = vis\<rparr>"
proof -
  let ?kvs = "[(''max_messages'', show_int mx), (''visibility_timeout_ms'', show_int vis)]"
  have reads: "list_all2 (reads 0) ?kvs
      [(''max_messages'', JNum (show_int mx), show_int mx), (''visibility_timeout_ms'', JNum (show_int vis), show_int vis)]"
    by (simp add: spells_int plain_def)
  have "decode_body set_dequeue_field \<lparr>dq_MaxMessages = 0, dq_VisibilityTimeoutMS = 0\<rparr> (bytes_of (json_Encode ?kvs)) =
      Decoded \<lparr>dq_MaxMessages = mx, dq_VisibilityTimeoutMS = vis\<rparr>"
    using fits assms(1,2)
    by (intro decode_body_object [OF reads])
      (simp_all add: Dequeue_request_def post_def json_Encode_def json_object_def show_string_def set_dequeue_field_def
        fold_key_requests json_int_def parse_int_lit_show del: fold_key.simps)
  then show ?thesis by (simp add: decodeOptional_def Dequeue_request_def post_def)
qed

section \<open>The routes they take\<close>

definition taken :: "http_request \<Rightarrow> routed" where
  "taken rq = route (hr_Method rq) (path_parts (hr_Path rq))"

lemma split_on_none: "d \<notin> set a \<Longrightarrow> split_on d a = [a]"
  by (induction a) auto

lemma split_on_join: "d \<notin> set a \<Longrightarrow> split_on d (a @ d # b) = a # split_on d b"
  by (induction a) auto

lemma name_parts: "list_all name_char s \<Longrightarrow> CHR ''/'' \<notin> set s" "list_all name_char s \<Longrightarrow> CHR ''?'' \<notin> set s"
  by (auto simp: list_all_iff name_char_def alnum_def dest!: bspec)

lemma nameRE_chars: "nameRE s \<Longrightarrow> list_all name_char s \<and> s \<noteq> ''''"
  by (cases s) (auto simp: name_char_def)

lemma parts_queue_path:
  assumes "list_all name_char q" and "CHR ''?'' \<notin> set rest"
  shows "path_parts (queue_path q rest) = ''queues'' # q # split_on (CHR ''/'') rest"
    "path_parts (queue_path q (rest @ CHR ''?'' # query)) = ''queues'' # q # split_on (CHR ''/'') rest"
    "path_query (queue_path q (rest @ CHR ''?'' # query)) = query"
proof -
  have q: "CHR ''/'' \<notin> set q" "CHR ''?'' \<notin> set q" using name_parts assms(1) by auto
  let ?p = "CHR ''/'' # ''queues'' @ CHR ''/'' # q @ CHR ''/'' # rest"
  have clean: "\<forall>c \<in> set ?p. c \<noteq> CHR ''?''" using q(2) assms(2) by auto
  have t: "takeWhile (\<lambda>c. c \<noteq> CHR ''?'') ?p = ?p" by (rule takeWhile_eq_all_conv [THEN iffD2, OF clean])
  have t2: "takeWhile (\<lambda>c. c \<noteq> CHR ''?'') (?p @ CHR ''?'' # query) = ?p"
    "dropWhile (\<lambda>c. c \<noteq> CHR ''?'') (?p @ CHR ''?'' # query) = CHR ''?'' # query"
    using clean by (subst takeWhile_append2 dropWhile_append2; auto)+
  have "''/queues/'' @ q @ ''/'' @ rest = ?p" by simp
  then have p: "queue_path q rest = ?p" "queue_path q (rest @ CHR ''?'' # query) = ?p @ CHR ''?'' # query"
    by (simp_all add: queue_path_def)
  have "split_on (CHR ''/'') ?p = [] # ''queues'' # q # split_on (CHR ''/'') rest"
    using split_on_join [of "CHR ''/''" "[]"] split_on_join [of "CHR ''/''" "''queues''"] split_on_join [OF q(1)] by simp
  then show "path_parts (queue_path q rest) = ''queues'' # q # split_on (CHR ''/'') rest"
    "path_parts (queue_path q (rest @ CHR ''?'' # query)) = ''queues'' # q # split_on (CHR ''/'') rest"
    "path_query (queue_path q (rest @ CHR ''?'' # query)) = query"
    by (simp_all only: path_parts_def path_query_def p t t2) simp_all
qed

lemma taken_queue:
  assumes "nameRE q"
  shows "taken (Enqueue_request q r) = Handler EnqueueHandler [q]"
    "taken (Dequeue_request q mx vis) = Handler DequeueHandler [q]"
    "taken (get (queue_path q ''stats'')) = Handler StatsHandler [q]"
    "taken (post (queue_path q ''compact'') '''') = Handler CompactHandler [q]"
proof -
  have q: "list_all name_char q" "q \<noteq> ''''" using nameRE_chars [OF assms] by simp_all
  show "taken (Enqueue_request q r) = Handler EnqueueHandler [q]"
    "taken (Dequeue_request q mx vis) = Handler DequeueHandler [q]"
    "taken (get (queue_path q ''stats'')) = Handler StatsHandler [q]"
    "taken (post (queue_path q ''compact'') '''') = Handler CompactHandler [q]"
    by (simp_all add: taken_def Enqueue_request_def Dequeue_request_def get_def post_def parts_queue_path(1) [OF q(1)]
        q(2) route_def Routes_def)
qed

lemma taken_peek:
  assumes "nameRE q"
  shows "taken (get (queue_path q (''peek?limit='' @ show_int limit))) = Handler PeekHandler [q]"
    "path_query (queue_path q (''peek?limit='' @ show_int limit)) = ''limit='' @ show_int limit"
proof -
  have q: "list_all name_char q" "q \<noteq> ''''" using nameRE_chars [OF assms] by simp_all
  have "''peek?limit='' @ show_int limit = ''peek'' @ CHR ''?'' # (''limit='' @ show_int limit)" by simp
  then have p: "path_parts (queue_path q (''peek?limit='' @ show_int limit)) = [''queues'', q, ''peek'']"
    "path_query (queue_path q (''peek?limit='' @ show_int limit)) = ''limit='' @ show_int limit"
    by (simp_all only: parts_queue_path [OF q(1), of "''peek''"]) (simp_all add: parts_queue_path [OF q(1), of "''peek''", simplified])
  show "path_query (queue_path q (''peek?limit='' @ show_int limit)) = ''limit='' @ show_int limit" by (rule p(2))
  show "taken (get (queue_path q (''peek?limit='' @ show_int limit))) = Handler PeekHandler [q]"
    by (simp only: taken_def get_def http_request.simps p(1)) (simp add: q(2) route_def Routes_def)
qed

lemma taken_settle:
  assumes "nameRE q" and "list_all name_char mid" and "mid \<noteq> ''''"
  shows "taken (settle_request q mid ''ack'') = Handler AckHandler [q, mid]"
    "taken (settle_request q mid ''nack'') = Handler NackHandler [q, mid]"
proof -
  have q: "list_all name_char q" "q \<noteq> ''''" using nameRE_chars [OF assms(1)] by simp_all
  have m: "CHR ''/'' \<notin> set mid" "CHR ''?'' \<notin> set mid" using name_parts assms(2) by auto
  have clean: "CHR ''?'' \<notin> set (''messages/'' @ mid @ ''/'' @ how)" if "CHR ''?'' \<notin> set how" for how
    using m(2) that by auto
  have "''messages/'' @ mid @ ''/'' @ how = ''messages'' @ CHR ''/'' # (mid @ CHR ''/'' # how)" for how by simp
  then have s: "split_on (CHR ''/'') (''messages/'' @ mid @ ''/'' @ how) = ''messages'' # mid # split_on (CHR ''/'') how" for how
    by (simp only: split_on_join [OF m(1)]) (simp add: split_on_join [OF m(1)])
  have "path_parts (queue_path q (''messages/'' @ mid @ ''/'' @ ''ack'')) = [''queues'', q, ''messages'', mid, ''ack'']"
    "path_parts (queue_path q (''messages/'' @ mid @ ''/'' @ ''nack'')) = [''queues'', q, ''messages'', mid, ''nack'']"
    by (subst parts_queue_path(1) [OF q(1) clean], simp, simp only: s, simp)+
  then show "taken (settle_request q mid ''ack'') = Handler AckHandler [q, mid]"
    "taken (settle_request q mid ''nack'') = Handler NackHandler [q, mid]"
    using q(2) assms(3) by (simp_all add: taken_def settle_request_def post_def route_def Routes_def)
qed

lemma taken_server:
  "taken (CreateQueue_request c) = Handler CreateQueueHandler []" "taken (get ''/queues'') = Handler ListQueuesHandler []"
  "taken (get ''/healthz'') = Handler HealthzHandler []"
  by (simp_all add: taken_def CreateQueue_request_def post_def get_def path_parts_def route_def Routes_def)

section \<open>Every request is understood\<close>

definition members_size :: "(string \<times> string) list \<Rightarrow> nat" where
  "members_size ms = (\<Sum>(k, v)\<leftarrow>ms. length (show_string k) + length v + 2)"

lemma members_size_simps [simp]:
  "members_size [] = 0" "members_size (m # ms) = length (show_string (fst m)) + length (snd m) + 2 + members_size ms"
  "members_size (ms @ ms') = members_size ms + members_size ms'"
  by (simp_all add: members_size_def split_beta)

lemma length_show_members: "length (show_members ms) \<le> Suc (members_size ms)"
  by (induction ms rule: show_members.induct) (simp_all add: add.assoc)

lemma length_json_Encode: "length (json_Encode ms) \<le> 3 + members_size ms"
  using length_show_members [of ms] by (simp add: json_Encode_def json_object_def)

lemma omit_int_size: "in_i64 i \<Longrightarrow> list_all plain k \<Longrightarrow> members_size (omit_int k i) \<le> length k + 25"
  using length_show_int [of i] by (simp add: omit_int_def show_string_def escape_plain)

lemma fits_create:
  assumes "nameRE (qc_Name c)" and "qc_Ordering c = FIFO \<or> qc_Ordering c = LIFO" and "config_ranges (config_of c)"
  shows "fits_body (CreateQueue_request c)"
proof -
  have i: "in_i64 (qc_MaxAttempts c)" "in_i64 (qc_DefaultVisibilityTimeoutMS c)" "in_i64 (qc_AgingIntervalMS c)"
    "in_i64 (qc_AgingMaxBoost c)" "in_i64 (qc_DedupWindowMS c)"
    using assms(3) by (simp_all add: config_ranges_def config_of_def)
  have n: "length (qc_Name c) \<le> 64" "list_all plain (qc_Name c)"
    using assms(1) by (cases "qc_Name c"; simp) (rule nameRE_plain [OF assms(1)])
  have o: "length (show_string (qc_Ordering c)) = 6" using assms(2) by (auto simp: show_string_def escape_plain plain_def)
  have "members_size (QueueConfig_members c) \<le> 1000"
    using omit_int_size [OF i(1), of "''max_attempts''"] omit_int_size [OF i(2), of "''default_visibility_timeout_ms''"]
      omit_int_size [OF i(3), of "''aging_interval_ms''"] omit_int_size [OF i(4), of "''aging_max_boost''"]
      omit_int_size [OF i(5), of "''dedup_window_ms''"] n
    by (simp add: QueueConfig_members_def o plain_def) (simp add: show_string_def show_bool_def escape_plain plain_def)
  then show ?thesis
    using length_json_Encode [of "QueueConfig_members c"] by (simp add: CreateQueue_request_def post_def MaxPayloadBytes_def)
qed

lemma fits_enqueue:
  assumes "in_i64 (en_Priority r)" and "in_i64 (en_DelayMS r)"
    and "length (en_Payload r) + length (show_string (en_DedupID r)) \<le> MaxPayloadBytes"
  shows "fits_body (Enqueue_request queue r)"
proof -
  have "members_size (omit_string ''dedup_id'' (en_DedupID r)) \<le> length (show_string (en_DedupID r)) + 12"
    by (simp add: omit_string_def) (simp add: show_string_def escape_plain plain_def)
  then have "members_size (EnqueueRequest_members r) \<le> length (en_Payload r) + length (show_string (en_DedupID r)) + 200"
    using length_show_int [OF assms(1)] omit_int_size [OF assms(2), of "''delay_ms''"]
    by (simp add: EnqueueRequest_members_def plain_def) (simp add: show_string_def escape_plain plain_def)
  then show ?thesis
    using length_json_Encode [of "EnqueueRequest_members r"] assms(3) by (simp add: Enqueue_request_def post_def)
qed

lemma fits_dequeue: "in_i64 mx \<Longrightarrow> in_i64 vis \<Longrightarrow> fits_body (Dequeue_request queue mx vis)"
  using length_show_int [of mx] length_show_int [of vis]
  by (simp add: Dequeue_request_def post_def json_Encode_def json_object_def show_string_def MaxPayloadBytes_def escape_plain plain_def)

text \<open>The five requests without a body; \<open>peek\<close> reads its limit from the query.\<close>

abbreviation Stats_request :: "string \<Rightarrow> http_request" where
  "Stats_request queue \<equiv> get (queue_path queue ''stats'')"

abbreviation ListQueues_request :: http_request where
  "ListQueues_request \<equiv> get ''/queues''"

abbreviation Peek_request :: "string \<Rightarrow> int \<Rightarrow> http_request" where
  "Peek_request queue limit \<equiv> get (queue_path queue (''peek?limit='' @ show_int limit))"

abbreviation Compact_request :: "string \<Rightarrow> http_request" where
  "Compact_request queue \<equiv> post (queue_path queue ''compact'') ''''"

abbreviation Healthy_request :: http_request where
  "Healthy_request \<equiv> get ''/healthz''"

text \<open>The call sends this request and no other: its outcome depends on the network by the answer to it alone.\<close>

definition sends :: "((http_request \<Rightarrow> exchange) \<Rightarrow> 'a) \<Rightarrow> http_request \<Rightarrow> bool" where
  "sends call rq \<longleftrightarrow> (\<forall>http http'. http rq = http' rq \<longrightarrow> call http = call http')"

lemma client_sends:
  "sends (\<lambda>http. client_CreateQueue http c) (CreateQueue_request c)"
  "sends (\<lambda>http. client_Enqueue http queue r) (Enqueue_request queue r)"
  "sends (\<lambda>http. client_Dequeue http queue mx vis) (Dequeue_request queue mx vis)"
  "sends (\<lambda>http. client_Ack http queue mid) (settle_request queue mid ''ack'')"
  "sends (\<lambda>http. client_Nack http queue mid) (settle_request queue mid ''nack'')"
  "sends (\<lambda>http. client_Stats http queue) (Stats_request queue)"
  "sends client_ListQueues ListQueues_request"
  "sends (\<lambda>http. client_Peek http queue limit) (Peek_request queue limit)"
  "sends (\<lambda>http. client_Compact http queue) (Compact_request queue)"
  "sends client_Healthy Healthy_request"
  by (auto simp: sends_def client_CreateQueue_def client_Enqueue_def client_Dequeue_def client_Ack_def client_Nack_def
      client_Stats_def client_ListQueues_def client_Peek_def client_Compact_def client_Healthy_def client_do_def)

lemma Atoi_show: "in_i64 i \<Longrightarrow> Atoi (show_int i) = Some i"
proof -
  assume i: "in_i64 i"
  obtain c cs where "show_nat (nat \<bar>i\<bar>) = c # cs" "is_digit c"
    using show_nat_digits [of "nat \<bar>i\<bar>"] by (cases "show_nat (nat \<bar>i\<bar>)") auto
  then have "c \<noteq> CHR ''+''" by (auto simp: is_digit_def)
  with \<open>show_nat (nat \<bar>i\<bar>) = c # cs\<close> obtain d ds where s: "show_int i = d # ds" "d \<noteq> CHR ''+''"
    by (cases "i < 0") (auto simp: show_int_def)
  then have "Atoi (show_int i) = parse_int_lit (show_int i)" by (simp add: Atoi_def parse_int_lit_def)
  then show ?thesis using parse_int_lit_show [OF i] by simp
qed

lemma intParam_show: "in_i64 i \<Longrightarrow> intParam (show_int i) def = (if 0 < i then i else def)"
  using Atoi_show [of i] by (cases "show_int i") (auto simp: intParam_def Atoi_def)

text \<open>C27: client and server speak the same protocol. Each of the client's ten calls sends one request, which takes
  the route of the handler it is meant for, with the queue's name and the message's id as the handler's path values;
  the handlers that read a body decode exactly the configuration, the message or the numbers the client was
  given, with members it left out as zero and invalid UTF-8 in a deduplication id replaced; and \<open>peek\<close>
  reads the limit. This is so for names the server accepts, ids of name characters (which its own are), numbers
  an \<open>int64\<close> holds, configurations of plain characters, a payload that is one JSON value, and bodies within
  the server's limit.\<close>

theorem client_requests_understood:
  assumes queue: "nameRE queue" and mid: "list_all name_char mid" "mid \<noteq> ''''"
    and cfg: "list_all plain (qc_Name c)" "list_all plain (qc_Ordering c)" "config_ranges (config_of c)" "fits_body (CreateQueue_request c)"
    and req: "spells N (en_Payload r) v" "N \<le> length (en_Payload r)" "in_i64 (en_Priority r)" "in_i64 (en_DelayMS r)"
      "fits_body (Enqueue_request queue r)"
    and ints: "in_i64 mx" "in_i64 vis" "in_i64 limit"
  shows "sends (\<lambda>http. client_CreateQueue http c) (CreateQueue_request c) \<and>
    taken (CreateQueue_request c) = Handler CreateQueueHandler [] \<and>
    decode set_create_field zero_config (bytes_of (hr_Body (CreateQueue_request c))) = Inr (config_of c) \<and>
    sends (\<lambda>http. client_Enqueue http queue r) (Enqueue_request queue r) \<and>
    taken (Enqueue_request queue r) = Handler EnqueueHandler [queue] \<and>
    decode set_enqueue_field zero_enqueue (bytes_of (hr_Body (Enqueue_request queue r))) = Inr (enqueue_of r) \<and>
    sends (\<lambda>http. client_Dequeue http queue mx vis) (Dequeue_request queue mx vis) \<and>
    taken (Dequeue_request queue mx vis) = Handler DequeueHandler [queue] \<and>
    decodeOptional set_dequeue_field \<lparr>dq_MaxMessages = 0, dq_VisibilityTimeoutMS = 0\<rparr>
      (bytes_of (hr_Body (Dequeue_request queue mx vis))) = Inr \<lparr>dq_MaxMessages = mx, dq_VisibilityTimeoutMS = vis\<rparr> \<and>
    sends (\<lambda>http. client_Ack http queue mid) (settle_request queue mid ''ack'') \<and>
    taken (settle_request queue mid ''ack'') = Handler AckHandler [queue, mid] \<and>
    sends (\<lambda>http. client_Nack http queue mid) (settle_request queue mid ''nack'') \<and>
    taken (settle_request queue mid ''nack'') = Handler NackHandler [queue, mid] \<and>
    sends (\<lambda>http. client_Stats http queue) (Stats_request queue) \<and> taken (Stats_request queue) = Handler StatsHandler [queue] \<and>
    sends client_ListQueues ListQueues_request \<and> taken ListQueues_request = Handler ListQueuesHandler [] \<and>
    sends (\<lambda>http. client_Peek http queue limit) (Peek_request queue limit) \<and>
    taken (Peek_request queue limit) = Handler PeekHandler [queue] \<and>
    path_query (hr_Path (Peek_request queue limit)) = ''limit='' @ show_int limit \<and>
    intParam (show_int limit) 25 = (if 0 < limit then limit else 25) \<and>
    sends (\<lambda>http. client_Compact http queue) (Compact_request queue) \<and>
    taken (Compact_request queue) = Handler CompactHandler [queue] \<and>
    sends client_Healthy Healthy_request \<and> taken Healthy_request = Handler HealthzHandler []"
proof -
  have "path_query (hr_Path (Peek_request queue limit)) = ''limit='' @ show_int limit"
    by (simp only: get_def http_request.simps taken_peek(2) [OF queue])
  then show ?thesis
    by (intro conjI client_sends taken_server taken_queue [OF queue] taken_settle [OF queue mid] decode_create [OF cfg]
        decode_enqueue [OF req] decode_dequeue [OF ints(1,2) fits_dequeue [OF ints(1,2)]] taken_peek(1) [OF queue]
        intParam_show [OF ints(3)])
qed

definition sample_QueueConfig :: QueueConfig where
  "sample_QueueConfig = \<lparr>qc_Name = ''jobs'', qc_Ordering = ''fifo'', qc_PriorityEnabled = True, qc_MaxAttempts = 4,
     qc_DefaultVisibilityTimeoutMS = 4000, qc_AgingIntervalMS = 0, qc_AgingMaxBoost = 8, qc_DedupWindowMS = 60000\<rparr>"

definition sample_EnqueueRequest :: EnqueueRequest where
  "sample_EnqueueRequest = \<lparr>en_Payload = show_int 7, en_Priority = 2, en_DelayMS = 0, en_DedupID = ''job-7''\<rparr>"

theorem client_requests_understood_witness:
  "decode set_create_field zero_config (bytes_of (hr_Body (CreateQueue_request sample_QueueConfig))) = Inr (config_of sample_QueueConfig) \<and>
   decode set_enqueue_field zero_enqueue (bytes_of (hr_Body (Enqueue_request ''jobs'' sample_EnqueueRequest))) =
     Inr (enqueue_of sample_EnqueueRequest) \<and>
   taken (settle_request ''jobs'' ''0a1b'' ''ack'') = Handler AckHandler [''jobs'', ''0a1b''] \<and>
   taken (Peek_request ''jobs'' 40) = Handler PeekHandler [''jobs''] \<and> intParam (show_int 40) 25 = 40"
proof -
  have n: "nameRE ''jobs''" "list_all name_char ''0a1b''" "''0a1b'' \<noteq> ''''"
    by (simp_all add: alnum_def name_char_def)
  have c: "list_all plain (qc_Name sample_QueueConfig)" "list_all plain (qc_Ordering sample_QueueConfig)"
    "config_ranges (config_of sample_QueueConfig)"
    by (simp_all add: sample_QueueConfig_def plain_def config_of_def config_ranges_def in_i64_def min_i64_def max_i64_def)
  have f: "fits_body (CreateQueue_request sample_QueueConfig)"
    by (rule fits_create [OF _ _ c(3)]) (simp_all add: sample_QueueConfig_def alnum_def name_char_def)
  have r: "spells 0 (en_Payload sample_EnqueueRequest) (JNum (show_int 7))" "0 \<le> length (en_Payload sample_EnqueueRequest)"
    "in_i64 (en_Priority sample_EnqueueRequest)" "in_i64 (en_DelayMS sample_EnqueueRequest)"
    by (simp_all add: sample_EnqueueRequest_def spells_int in_i64_def min_i64_def max_i64_def)
  have g: "fits_body (Enqueue_request ''jobs'' sample_EnqueueRequest)"
    using length_show_int [of 7]
    by (intro fits_enqueue r(3,4))
      (simp add: sample_EnqueueRequest_def show_string_def escape_plain plain_def MaxPayloadBytes_def in_i64_def min_i64_def max_i64_def)
  have i: "in_i64 1" "in_i64 4000" "in_i64 40" by (simp_all add: in_i64_def min_i64_def max_i64_def)
  from client_requests_understood [OF n c f r g i] show ?thesis by simp
qed

end
