(* ===== verification/Pool_Props.thy ===== *)
theory Pool_Props
  imports Pool Client_Wire
begin

text \<open>
  The properties of the worker pool: its size and bookkeeping in every reachable state, the order of the views the
  dashboard shows, and the end of every worker once the pool is shut down.
\<close>

section \<open>Views in order\<close>

abbreviation view_id :: "WorkerView list \<Rightarrow> nat \<Rightarrow> nat" where
  "view_id ws i \<equiv> wv_ID (ws ! i)"

text \<open>The views up to \<open>k\<close> are in order but for the one at \<open>j\<close>, which is below those after it.\<close>

definition sinking :: "nat \<Rightarrow> nat \<Rightarrow> WorkerView list \<Rightarrow> bool" where
  "sinking k j ws \<longleftrightarrow> k < length ws \<and> j \<le> k \<and>
     (\<forall>a b. a < b \<longrightarrow> b \<le> k \<longrightarrow> a \<noteq> j \<longrightarrow> b \<noteq> j \<longrightarrow> view_id ws a \<le> view_id ws b) \<and>
     (\<forall>b. j < b \<longrightarrow> b \<le> k \<longrightarrow> view_id ws j \<le> view_id ws b)"

lemma sink_sorts:
  "sinking k j ws \<Longrightarrow> mset (sink j ws) = mset ws \<and> (\<forall>a b. a < b \<longrightarrow> b \<le> k \<longrightarrow> view_id (sink j ws) a \<le> view_id (sink j ws) b)"
proof (induction j arbitrary: ws)
  case 0
  then show ?case by (auto simp: sinking_def)
next
  case (Suc j)
  from Suc.prems have k: "k < length ws" "Suc j \<le> k" by (simp_all add: sinking_def)
  show ?case
  proof (cases "view_id ws (Suc j) < view_id ws j")
    case True
    let ?ws = "exchange ws (Suc j) j"
    have at: "view_id ?ws i = (if i = Suc j then view_id ws j else if i = j then view_id ws (Suc j) else view_id ws i)" if "i \<le> k" for i
      using k that by (simp add: nth_exchange)
    have old: "view_id ws a \<le> view_id ws b" if "a < b" "b \<le> k" "a \<noteq> Suc j" "b \<noteq> Suc j" for a b
      using Suc.prems that by (simp add: sinking_def)
    have low: "view_id ws (Suc j) \<le> view_id ws b" if "Suc j < b" "b \<le> k" for b
      using Suc.prems that by (simp add: sinking_def)
    have "view_id ?ws a \<le> view_id ?ws b" if "a < b" "b \<le> k" "a \<noteq> j" "b \<noteq> j" for a b
      using that old [of a b] old [of a j] old [of j b] at [of a] at [of b] by auto
    moreover have "view_id ?ws j \<le> view_id ?ws b" if "j < b" "b \<le> k" for b
      using that True low [of b] at [of j] at [of b] by auto
    ultimately have "sinking k j ?ws" using k by (simp add: sinking_def)
    from Suc.IH [OF this] show ?thesis using True k by simp
  next
    case False
    have "view_id ws a \<le> view_id ws b" if "a < b" "b \<le> k" for a b
    proof (cases "b = Suc j")
      case True
      have "view_id ws a \<le> view_id ws j" using Suc.prems that True by (cases "a = j") (auto simp: sinking_def)
      then show ?thesis using False True by simp
    next
      case b: False
      then show ?thesis using Suc.prems that by (cases "a = Suc j") (simp_all add: sinking_def)
    qed
    then show ?thesis using False by simp
  qed
qed

lemma fold_sink:
  "n \<le> length ws \<Longrightarrow> mset (fold sink [1..<n] ws) = mset ws \<and>
   (\<forall>a b. a < b \<longrightarrow> b < n \<longrightarrow> view_id (fold sink [1..<n] ws) a \<le> view_id (fold sink [1..<n] ws) b)"
proof (induction n)
  case (Suc n)
  show ?case
  proof (cases "n = 0")
    case False
    let ?ws = "fold sink [1..<n] ws"
    have IH: "mset ?ws = mset ws" "\<forall>a b. a < b \<longrightarrow> b < n \<longrightarrow> view_id ?ws a \<le> view_id ?ws b" using Suc by auto
    have "sinking n n ?ws" using IH Suc.prems mset_eq_length [OF IH(1)] by (simp add: sinking_def)
    from sink_sorts [OF this] IH(1) False show ?thesis by (simp add: less_Suc_eq_le)
  qed simp
qed simp

lemma sort_workers_sorted: "mset (sort_workers ws) = mset ws \<and> sorted (map wv_ID (sort_workers ws))"
proof -
  have m: "mset (sort_workers ws) = mset ws" using fold_sink [of "length ws" ws] by (simp add: sort_workers_def)
  then have len: "length (sort_workers ws) = length ws" by (rule mset_eq_length)
  have "sorted (map wv_ID (sort_workers ws))"
    unfolding sorted_iff_nth_mono_less using fold_sink [of "length ws" ws] len by (simp add: sort_workers_def)
  with m show ?thesis by simp
qed

text \<open>One view for each worker of the pool, by id.\<close>

lemma shown_workers:
  assumes "pool_shape r" and "distinct ids" and "set ids = set (rn_stops r)"
  shows "map wv_ID (rs_Workers (runner_State ids r)) = sorted_list_of_set (set (rn_stops r))"
proof -
  have ids: "List.map_filter (map_of (rn_workers r)) xs = map (\<lambda>w. the (map_of (rn_workers r) w)) xs" if "set xs \<subseteq> set (rn_stops r)" for xs
    using that
  proof (induction xs)
    case (Cons w xs)
    then have "w \<in> fst ` set (rn_workers r)" using assms(1) by (auto simp: pool_shape_def)
    then obtain v where "map_of (rn_workers r) w = Some v" by (metis domD dom_map_of_conv_image_fst)
    then show ?case using Cons by (simp add: map_filter_simps)
  qed (simp add: map_filter_simps)
  have "wv_ID (the (map_of (rn_workers r) w)) = w" if "w \<in> set ids" for w
  proof -
    have "w \<in> fst ` set (rn_workers r)" using assms(1,3) that by (auto simp: pool_shape_def)
    then obtain v where v: "map_of (rn_workers r) w = Some v" by (metis domD dom_map_of_conv_image_fst)
    then show ?thesis using assms(1) map_of_SomeD [OF v] by (auto simp: pool_shape_def)
  qed
  then have "map wv_ID (List.map_filter (map_of (rn_workers r)) ids) = ids" using ids [of ids] assms(3) by simp (rule map_idI, simp)
  then have "mset (map wv_ID (rs_Workers (runner_State ids r))) = mset ids"
    using sort_workers_sorted [of "List.map_filter (map_of (rn_workers r)) ids"] by (simp add: runner_State_def) (metis mset_map)
  moreover have "sorted (map wv_ID (rs_Workers (runner_State ids r)))"
    using sort_workers_sorted by (simp add: runner_State_def)
  ultimately have "map wv_ID (rs_Workers (runner_State ids r)) = sort ids" using properties_for_sort by metis
  then show ?thesis using assms(2,3) by (metis sorted_list_of_set_sort_remdups remdups_id_iff_distinct)
qed

text \<open>C29: the worker pool. Whatever the dashboard asks for and however the workers' steps interleave: the pool has the
  size that was asked for, between 0 and 32; no id is given out twice and no stop channel is closed twice; no
  worker of the pool has returned; the dashboard shows one view for each, by id. The list of recent jobs is the
  last 40 that were completed, and the counters are their numbers, up to workers that are about to count one. A
  worker acks or nacks only messages it has leased, in the queue it leased them from although the target may have
  changed meanwhile, and each lease at most once.\<close>

theorem worker_pool:
  assumes "pool r ls tr" and "distinct ids" and "set ids = set (rn_stops r)"
  shows "0 \<le> rn_desired r \<and> rn_desired r \<le> 32 \<and> int (length (rn_stops r)) = rn_desired r \<and>
    distinct (rn_stops r @ rn_closed r) \<and> (\<forall>w \<in> set (rn_stops r). w < length ls \<and> ls ! w \<noteq> Returned) \<and>
    map wv_ID (rs_Workers (runner_State ids r)) = sorted_list_of_set (set (rn_stops r)) \<and>
    rn_recent r = last_n 40 (completions tr) \<and>
    (\<forall>oc. counter oc r + num ((=) (Counting oc)) ls = num (\<lambda>c. co_Outcome c = oc) (completions tr)) \<and>
    (\<forall>w q mid. num ((=) (Settled w q mid)) tr \<le> num ((=) (Leased w q mid)) tr)"
proof -
  have I: "pool_shape r" "pool_sized r ls" "counted r ls tr" "settled_once ls tr"
    using pool_invariant [OF assms(1)] by (simp_all add: pool_inv_def)
  have "w < length ls" if "w \<in> set (rn_stops r)" for w using I(1,2) that by (auto simp: pool_shape_def pool_sized_def)
  moreover have "num ((=) (Settled w q mid)) tr \<le> num ((=) (Leased w q mid)) tr" for w q mid
    using I(4) unfolding settled_once_def by (metis add_increasing2 le_add_same_cancel1 of_bool_less_eq_iff order_trans zero_le_numeral zero_less_eq_of_bool)
  ultimately show ?thesis
    using I(1-3) shown_workers [OF I(1) assms(2,3)] unfolding pool_shape_def pool_sized_def counted_def by simp
qed

definition sample_pool :: runner where
  "sample_pool = SetWorkers 2 (NewRunner (newRingWriter 60))"

lemma sample_pool_run: "pool sample_pool [Top, Top] []" "rn_stops sample_pool = [0, 1]" "rn_nextWorkerID sample_pool = 2"
proof -
  have g: "sample_pool = spawn (spawn ((NewRunner (newRingWriter 60))\<lparr>rn_desired := 2\<rparr>))"
    by (simp add: sample_pool_def SetWorkers_def NewRunner_def) (simp add: grow.simps shrink.simps spawn_def)
  show s: "rn_stops sample_pool = [0, 1]" "rn_nextWorkerID sample_pool = 2"
    by (simp_all add: g spawn_def NewRunner_def)
  have "pool sample_pool ([] @ replicate (rn_nextWorkerID sample_pool - length ([] :: wstate list)) Top) []"
    by (rule pool_resize [OF pool_new sample_pool_def])
  then show "pool sample_pool [Top, Top] []" by (simp add: s(2) numeral_2_eq_2)
qed

theorem worker_pool_witness:
  "rn_desired sample_pool = 2 \<and> map wv_ID (rs_Workers (runner_State [1, 0] sample_pool)) = sorted_list_of_set {0, 1}"
  using worker_pool [OF sample_pool_run(1), of "[1, 0]"] by (simp add: sample_pool_run(2) insert_commute)

section \<open>Shutting down\<close>

fun rank :: "wstate \<Rightarrow> nat" where
  "rank Returned = 0"
| "rank Top = 1"
| "rank Resting = 2"
| "rank Ending = 2"
| "rank (Counting oc) = 3"
| "rank (Settling c m task) = 4"
| "rank (Working c m task) = 5"
| "rank (Leasing c) = 6"
| "rank Reading = 7"

lemma dismissed_step:
  "worker_step env w s r = (r', s') \<Longrightarrow> w \<in> set (rn_closed r) \<Longrightarrow> s' = Returned \<or> rank s' < rank s"
  by (cases s) (auto simp: Let_def split: sum.splits list.splits if_splits option.splits)

text \<open>The loop of the worker \<open>w\<close> through steps taken at the given states of the runner.\<close>

fun loop_run :: "nat \<Rightarrow> (step_env \<times> runner) list \<Rightarrow> wstate \<Rightarrow> wstate" where
  "loop_run w [] s = s"
| "loop_run w ((env, r) # steps) s = loop_run w steps (snd (worker_step env w s r))"

lemma loop_run_Returned: "loop_run w steps Returned = Returned"
  by (induction w steps Returned rule: loop_run.induct) simp_all

lemma loop_run_ends:
  "\<forall>(env, r) \<in> set steps. w \<in> set (rn_closed r) \<Longrightarrow> rank s \<le> length steps \<Longrightarrow> loop_run w steps s = Returned"
proof (induction w steps s rule: loop_run.induct)
  case (1 w s)
  then show ?case by (cases s) simp_all
next
  case (2 w env r steps s)
  obtain r' s' where s': "worker_step env w s r = (r', s')" by (rule prod.exhaust)
  have "w \<in> set (rn_closed r)" using "2.prems"(1) by simp
  from dismissed_step [OF s' this] show ?case
  proof
    assume "s' = Returned"
    then show ?thesis using s' by (simp add: loop_run_Returned)
  next
    assume "rank s' < rank s"
    then show ?thesis using 2 s' by simp
  qed
qed

text \<open>C30: \<open>Stop\<close> ends. It closes the channel of every worker ever started that still runs; and a worker whose channel
  is closed returns after at most seven of its own steps, whatever the server answers, whatever state the others
  leave the runner in, and whichever of two ready channels \<open>select\<close> takes. So the wait group reaches zero.\<close>

theorem stopped_workers_return:
  assumes "pool r ls tr" and "w < length ls" and "7 \<le> length steps"
    and "\<And>env r'. (env, r') \<in> set steps \<Longrightarrow> set (rn_closed (Stop_begin r)) \<subseteq> set (rn_closed r')"
  shows "rn_stops (Stop_begin r) = [] \<and> loop_run w steps (ls ! w) = Returned"
proof -
  have I: "pool_shape r" "length ls = rn_nextWorkerID r"
    using pool_invariant [OF assms(1)] by (simp_all add: pool_inv_def pool_sized_def)
  note S = SetWorkers_step [OF I(1), of 0, folded Stop_begin_def]
  have e: "rn_stops (Stop_begin r) = []" using S(3) by simp
  then have "set (rn_closed (Stop_begin r)) = {..<rn_nextWorkerID (Stop_begin r)}" using S(1) by (simp add: pool_shape_def)
  then have "w \<in> set (rn_closed (Stop_begin r))" using S(5) I(2) assms(2) by simp
  then have "\<forall>(env, r') \<in> set steps. w \<in> set (rn_closed r')" using assms(4) by auto
  moreover have "rank (ls ! w) \<le> length steps" using assms(3) by (cases "ls ! w") simp_all
  ultimately show ?thesis using e loop_run_ends by simp
qed

definition sample_step :: step_env where
  "sample_step = \<lparr>we_http = (\<lambda>_. NoAnswer (ErrOS ''connection refused'')), we_now = 0, we_work = 0, we_roll = 0, we_add = (+), we_stop = False\<rparr>"

theorem stopped_workers_return_witness:
  "loop_run 1 (replicate 7 (sample_step, Stop_begin sample_pool)) ([Top, Top] ! 1) = Returned"
  using stopped_workers_return [OF sample_pool_run(1), where w = 1 and steps = "replicate 7 (sample_step, Stop_begin sample_pool)"]
  by simp

end
