(* ===== verification/Command.thy ===== *)
theory Command
  imports Manager Wal_Writer
begin

text \<open>
  \<open>cmd/artie-queue/main.go\<close>: the server process and its two tools, \<open>verify\<close> and \<open>repair\<close>, after their flags
  are parsed. A tool returns its exit code; \<open>verify\<close> also what it prints, and \<open>repair\<close> the files it leaves.
\<close>

section \<open>Serving\<close>

text \<open>What ends the service: an error of the listener or a signal.\<close>

datatype serve_event = ServerError go_error | Signalled

definition runServe ::
  "string \<Rightarrow> go_error option \<Rightarrow> go_error + dir_entry list \<Rightarrow> (manager \<Rightarrow> manager \<times> serve_event) \<Rightarrow>
   string list \<Rightarrow> (string \<Rightarrow> go_error option) \<Rightarrow> int" where
  "runServe dir mkdir entries serve names close_errs =
     (case OpenManager dir mkdir entries of
        Inl err \<Rightarrow> if is_corruption err then 2 else 1
      | Inr mgr \<Rightarrow>
          (case serve mgr of
             (mgr, ServerError err) \<Rightarrow> 1
           | (mgr, Signalled) \<Rightarrow>
               (case Manager_Close names close_errs mgr of (mgr, Some err) \<Rightarrow> 1 | (mgr, None) \<Rightarrow> 0)))"

section \<open>verify\<close>

abbreviation log_path :: "string \<Rightarrow> string \<Rightarrow> string" where
  "log_path dir name \<equiv> path_join (path_join dir name) logFileName"

text \<open>The callback cs the records of each type.\<close>

definition tally :: "(rtype \<Rightarrow> nat) \<Rightarrow> wal_record \<Rightarrow> go_error + (rtype \<Rightarrow> nat)" where
  "tally cs r = Inr (cs(r_Type r := cs (r_Type r) + 1))"

datatype verify_line =
    FAIL string go_error
  | OK string replay_result "rtype \<Rightarrow> nat"

definition verify_entry :: "string \<Rightarrow> dir_entry \<Rightarrow> verify_line" where
  "verify_entry dir e =
     (let path = log_path dir (de_Name e)
      in case Replay path (de_file e) tally (\<lambda>_. 0) of
           (res, cs, Some err) \<Rightarrow> FAIL path err
         | (res, cs, None) \<Rightarrow> OK path res cs)"

text \<open>The loop over the entries, with the numbers of bad and of found logs.\<close>

fun verify_loop :: "string \<Rightarrow> dir_entry list \<Rightarrow> nat \<Rightarrow> nat \<Rightarrow> verify_line list \<times> nat \<times> nat" where
  "verify_loop dir [] bad found = ([], bad, found)"
| "verify_loop dir (e # es) bad found =
     (if \<not> de_IsDir e then verify_loop dir es bad found
      else if \<not> de_stat_ok e then verify_loop dir es bad found
      else let line = verify_entry dir e;
               bad = (case line of FAIL _ _ \<Rightarrow> bad + 1 | OK _ _ _ \<Rightarrow> bad);
               (ls, bad, found) = verify_loop dir es bad (found + 1)
           in (line # ls, bad, found))"

definition runVerify :: "string \<Rightarrow> go_error + dir_entry list \<Rightarrow> verify_line list \<times> int" where
  "runVerify dir entries =
     (case entries of
        Inl err \<Rightarrow> ([], 1)
      | Inr es \<Rightarrow> (case verify_loop dir es 0 0 of (ls, bad, found) \<Rightarrow> (ls, if bad > 0 then 2 else 0)))"

text \<open>
  What \<open>verify\<close> prints, standard output and error together. \<open>txt\<close> renders the errors that are not built in
  \<open>internal/wal\<close>, and \<open>why\<close> the reason of a corruption.
\<close>

definition corruption_Error :: "string \<Rightarrow> nat \<Rightarrow> string \<Rightarrow> string" where
  "corruption_Error path off reason =
     ''wal: corrupt record in '' @ path @ '' at byte offset '' @ show_nat off @ '': '' @ reason @
     '' (refusing to start; inspect with `artie-queue verify -dir <dir>`, '' @
     ''or discard everything from this offset onward with '' @
     ''`artie-queue repair -dir <dir> -queue <name> -truncate-at '' @ show_nat off @ ''`)''"

definition error_text :: "(go_error \<Rightarrow> string) \<Rightarrow> (corrupt_reason \<Rightarrow> string) \<Rightarrow> go_error \<Rightarrow> string" where
  "error_text txt why err =
     (case err of CorruptionError path off r \<Rightarrow> corruption_Error path off (why r) | _ \<Rightarrow> txt err)"

definition verify_types :: "rtype list" where
  "verify_types = [TypeMeta, TypeEnqueue, TypeAck, TypeNack, TypeLeaseExpire, TypeDedup]"

abbreviation end_line :: string where "end_line \<equiv> [CHR 0x0A]"

definition line_text :: "(go_error \<Rightarrow> string) \<Rightarrow> (corrupt_reason \<Rightarrow> string) \<Rightarrow> verify_line \<Rightarrow> string" where
  "line_text txt why l =
     (case l of
        FAIL path err \<Rightarrow> ''FAIL  '' @ path @ end_line @ ''      '' @ error_text txt why err @ end_line
      | OK path res cs \<Rightarrow>
          ''OK    '' @ path @ end_line @ ''      '' @ show_nat (v_Records res) @ '' records, '' @
          show_nat (v_ValidBytes res) @ '' valid bytes'' @
          concat (map (\<lambda>t. '', '' @ Type_String t @ ''='' @ show_nat (cs t)) (filter (\<lambda>t. cs t > 0) verify_types)) @
          end_line @
          (case v_Torn res of None \<Rightarrow> ''''
           | Some t \<Rightarrow> ''      WARNING: torn tail record at offset '' @ show_nat (t_Offset t) @ '' ('' @
               show_nat (t_Bytes t) @ '' bytes); startup will truncate it'' @ end_line))"

definition verify_report :: "(go_error \<Rightarrow> string) \<Rightarrow> (corrupt_reason \<Rightarrow> string) \<Rightarrow> string \<Rightarrow> go_error + dir_entry list \<Rightarrow> string" where
  "verify_report txt why dir entries =
     (case entries of
        Inl err \<Rightarrow> ''verify: '' @ txt err @ end_line
      | Inr es \<Rightarrow>
          (case verify_loop dir es 0 0 of
             (ls, bad, found) \<Rightarrow>
               concat (map (line_text txt why) ls) @
               (if found = 0 then ''no queue logs found under '' @ dir @ end_line else '''') @
               (if bad > 0 then end_line @ show_nat bad @ '' log(s) failed verification'' @ end_line else '''')))"

section \<open>repair\<close>

record copy_env =
  cp_Open :: "go_error option"
  cp_Create :: "go_error option"
  cp_Copy :: "(nat \<times> go_error) option"
  cp_Sync :: "go_error option"
  cp_Close :: "go_error option"

text \<open>\<open>copyFile\<close>: the new file must not exist; a copy that fails leaves the part it has written.\<close>

definition copyFile :: "copy_env \<Rightarrow> string \<Rightarrow> string \<Rightarrow> fsdir \<Rightarrow> fsdir \<times> go_error option" where
  "copyFile env src dst files =
     (case (files src, cp_Open env) of
        (None, _) \<Rightarrow> (files, Some (ErrOS ''no such file''))
      | (_, Some e) \<Rightarrow> (files, Some e)
      | (Some data, None) \<Rightarrow>
          if files dst \<noteq> None then (files, Some (ErrOS ''file exists''))
          else case cp_Create env of Some e \<Rightarrow> (files, Some e) | None \<Rightarrow>
            (case cp_Copy env of
               Some (k, e) \<Rightarrow> (files(dst \<mapsto> take k data), Some e)
             | None \<Rightarrow>
                 let files = files(dst \<mapsto> data)
                 in case cp_Sync env of Some e \<Rightarrow> (files, Some e) | None \<Rightarrow> (files, cp_Close env)))"

record repair_env =
  re_Stat :: "go_error option"
  re_now :: gotime
  re_copy :: copy_env
  re_OpenFile :: "go_error option"
  re_Truncate :: "go_error option"
  re_Sync :: "go_error option"

definition backup_path :: "string \<Rightarrow> gotime \<Rightarrow> string" where
  "backup_path path now = path @ ''.bak.'' @ show_int (i64 now)"

definition runRepair :: "string \<Rightarrow> string \<Rightarrow> int \<Rightarrow> repair_env \<Rightarrow> fsdir \<Rightarrow> fsdir \<times> int" where
  "runRepair dir name at env files =
     (if name = '''' \<or> at < 0 then (files, 1)
      else let path = log_path dir name
      in case (files path, re_Stat env) of
           (None, _) \<Rightarrow> (files, 1)
         | (_, Some e) \<Rightarrow> (files, 1)
         | (Some data, None) \<Rightarrow>
             if at > int (length data) then (files, 1)
             else case copyFile (re_copy env) path (backup_path path (re_now env)) files of
               (files, Some e) \<Rightarrow> (files, 1)
             | (files, None) \<Rightarrow>
                 (case re_OpenFile env of Some e \<Rightarrow> (files, 1) | None \<Rightarrow>
                  case re_Truncate env of Some e \<Rightarrow> (files, 1) | None \<Rightarrow>
                  let files = files(path \<mapsto> take (nat at) data)
                  in case re_Sync env of Some e \<Rightarrow> (files, 1) | None \<Rightarrow> (files, 0)))"

section \<open>Replay and corruption\<close>

text \<open>At a corrupt record, everything before its offset is the encoding of the records that were fed.\<close>

lemma replay_loop_corrupt:
  assumes "off \<le> length data" and "replay_loop path data io fn off res s = (res', s', Some (CorruptionError p at r))"
  shows "\<exists>es. list_all wf_entry es \<and> feed fn off es s = Inr s' \<and> v_Records res' = v_Records res + length es \<and>
    at \<le> length data \<and> off \<le> at \<and> p = path \<and> take (at - off) (drop off data) = encode_all es"
  using assms
proof (induction path data io fn off res s rule: replay_loop.induct)
  case (1 path data io fn off res s)
  show ?case
  proof (cases "read_record path data io off")
    case (Found x)
    note R = read_record_sound [OF Found]
    let ?n = "EncodedLen (r_Payload x)"
    obtain s1 where s1: "fn s x = Inr s1"
      using "1.prems"(2) Found by (subst (asm) replay_loop.simps) (auto split: sum.splits)
    have off': "off + (HeaderSize + length (r_Payload x)) = off + ?n" by (simp add: EncodedLen_def)
    have "replay_loop path data io fn (off + ?n) (res\<lparr>v_Records := v_Records res + 1\<rparr>) s1
        = (res', s', Some (CorruptionError p at r))"
      using "1.prems"(2) Found s1 by (subst (asm) replay_loop.simps) (simp add: off')
    with "1.IH" [OF Found s1] R obtain es where es: "list_all wf_entry es"
      "feed fn (off + ?n) es s1 = Inr s'" "v_Records res' = v_Records res + 1 + length es"
      "at \<le> length data" "off + ?n \<le> at" "p = path"
      "take (at - (off + ?n)) (drop (off + ?n) data) = encode_all es"
      unfolding off' by auto
    have x: "x = \<lparr>r_Type = r_Type x, r_Payload = r_Payload x, r_Offset = off\<rparr>" using R by simp
    have "at - off = ?n + (at - (off + ?n))" using es(5) by simp
    then have "take (at - off) (drop off data)
        = take ?n (drop off data) @ take (at - (off + ?n)) (drop (off + ?n) data)"
      by (simp add: take_add add.commute)
    then have "take (at - off) (drop off data) = encode_all ((r_Type x, r_Payload x) # es)"
      using R es(7) by (simp add: encode_all_Cons)
    moreover have "feed fn off ((r_Type x, r_Payload x) # es) s = Inr s'" using s1 es(2) x by simp
    ultimately show ?thesis using R es by (intro exI [of _ "(r_Type x, r_Payload x) # es"]) simp
  next
    case (Failed e)
    then have "e = CorruptionError p at r" "s' = s" "res' = res"
      using "1.prems"(2) by (subst (asm) replay_loop.simps, simp)+
    then have "at = off" "p = path" using Failed
      by (auto simp: read_record_def Let_def split: if_splits option.splits)
    then show ?thesis using "1.prems"(1) \<open>s' = s\<close> \<open>res' = res\<close> by (intro exI [of _ "[]"]) simp
  qed (use "1.prems" in \<open>(subst (asm) replay_loop.simps, simp)+\<close>)
qed

lemma replay_corrupt:
  assumes "Replay path (Opened data io) fn s = (res, s', Some (CorruptionError p at r))"
  shows "\<exists>es. list_all wf_entry es \<and> feed fn 0 es s = Inr s' \<and> v_Records res = length es \<and>
    at \<le> length data \<and> p = path \<and> take at data = encode_all es"
  using replay_loop_corrupt [of 0 data path io fn empty_result s res s' p at r] assms
  by (simp add: Replay_def empty_result_def)

end
