(* ===== verification/Supervisor.thy ===== *)
theory Supervisor
  imports Command Ring
begin

text \<open>
  \<open>internal/demo/supervisor.go\<close>: the demo's supervisor of the server process. It starts and kills the server,
  damages a log on purpose, and runs \<open>verify\<close> and \<open>repair\<close>. What the child process does is an argument; files
  are a map from paths to contents.
\<close>

unbundle bit_operations_syntax

section \<open>The child process\<close>

record supervisor =
  sv_dir :: string
  sv_started :: bool
  sv_running :: bool
  sv_lastExit :: string
  sv_logs :: ringWriter

definition NewSupervisor :: "string \<Rightarrow> supervisor" where
  "NewSupervisor dir = \<lparr>sv_dir = dir, sv_started = False, sv_running = False, sv_lastExit = '''', sv_logs = newRingWriter 300\<rparr>"

abbreviation log_line :: "string \<Rightarrow> supervisor \<Rightarrow> supervisor" where
  "log_line line s \<equiv> s\<lparr>sv_logs := ring_add line (sv_logs s)\<rparr>"

text \<open>\<open>strings.Join\<close>.\<close>

fun Join :: "string list \<Rightarrow> string \<Rightarrow> string" where
  "Join [] sep = ''''"
| "Join [x] sep = x"
| "Join (x # y # xs) sep = x @ sep @ Join (y # xs) sep"

definition lastLogLines :: "nat \<Rightarrow> supervisor \<Rightarrow> string" where
  "lastLogLines n s =
     (let ls = ring_lines (sv_logs s);
          ls = (if length ls > n then drop (length ls - n) ls else ls)
      in Join ls '' | '')"

text \<open>
  The result names the last lines the server printed when the child has exited. One look of \<open>Start\<close> at the child: whether it has exited, whether the health check answers, and whether it
  has exited 50 ms after a good answer.
\<close>

record poll =
  po_exited :: bool
  po_healthy :: bool
  po_exited_later :: bool

datatype start_result = NotExecuted go_error | Started | Refused string | Stranger string | TimedOut

text \<open>The loop until the deadline, which comes after the last of the looks.\<close>

fun start_loop :: "string \<Rightarrow> poll list \<Rightarrow> start_result" where
  "start_loop logs [] = TimedOut"
| "start_loop logs (p # ps) =
     (if po_exited p then Refused logs
      else if po_healthy p then if po_exited_later p then Stranger logs else Started
      else start_loop logs ps)"

text \<open>\<open>Kill\<close> waits until the child is seen to be gone, or gives up.\<close>

definition Kill :: "bool \<Rightarrow> string \<Rightarrow> supervisor \<Rightarrow> supervisor" where
  "Kill gone exit_text s =
     (if \<not> sv_started s then s
      else let s = log_line ''--- SIGKILL ---'' s
           in if sv_running s \<and> gone then s\<lparr>sv_running := False, sv_lastExit := exit_text\<rparr> else s)"

text \<open>
  \<open>banner\<close> is the line that announces the start, \<open>output\<close> what the child prints before \<open>Start\<close> returns. A server
  that is running already counts as started.
\<close>

definition Start ::
  "string \<Rightarrow> go_error option \<Rightarrow> poll list \<Rightarrow> string list \<Rightarrow> string \<Rightarrow> bool \<Rightarrow> supervisor \<Rightarrow> supervisor \<times> start_result" where
  "Start banner exec_err polls output exit_text gone s =
     (if sv_running s then (s, Started)
      else let s = log_line banner s
      in case exec_err of Some e \<Rightarrow> (s, NotExecuted (Wrapped ''starting queue server'' e)) | None \<Rightarrow>
         let s = s\<lparr>sv_started := True, sv_running := True, sv_lastExit := '''', sv_logs := fold ring_Write output (sv_logs s)\<rparr>
         in case start_loop (lastLogLines 6 s) polls of
              Started \<Rightarrow> (s, Started)
            | TimedOut \<Rightarrow> (Kill gone exit_text s, TimedOut)
            | r \<Rightarrow> (s\<lparr>sv_running := False, sv_lastExit := exit_text\<rparr>, r))"

section \<open>Damaging a log\<close>

text \<open>\<open>os.WriteFile\<close> truncates first; when it fails, a part is written. \<open>flipped\<close> is what the message names.\<close>

record flipped =
  fl_off :: nat
  fl_old :: byte
  fl_new :: byte

definition FlipByteMidLog ::
  "(nat \<times> go_error) option \<Rightarrow> string \<Rightarrow> supervisor \<Rightarrow> fsdir \<Rightarrow> fsdir \<times> (go_error + flipped)" where
  "FlipByteMidLog write_err name s files =
     (if sv_running s then (files, Inl (ErrOS ''stop the server before corrupting its log''))
      else let path = log_path (sv_dir s) name
      in case files path of None \<Rightarrow> (files, Inl (ErrOS ''no such file''))
         | Some data \<Rightarrow>
             if length data < 64 then (files, Inl (ErrOS ''log too short; enqueue some messages first''))
             else let off = length data div 2;
                      old = data ! off;
                      data = data[off := old XOR 0xff]
             in case write_err of
                  Some (k, e) \<Rightarrow> (files(path \<mapsto> take k data), Inl e)
                | None \<Rightarrow> (files(path \<mapsto> data), Inr \<lparr>fl_off = off, fl_old = old, fl_new = data ! off\<rparr>))"

definition torn_fragment :: "byte list" where
  "torn_fragment = take (HeaderSize + 3) (Encode [] TypeEnqueue (replicate 64 120))"

text \<open>The result names the size of the file before the fragment was appended.\<close>

definition TruncateTailMidRecord ::
  "go_error option \<Rightarrow> (nat \<times> go_error) option \<Rightarrow> string \<Rightarrow> supervisor \<Rightarrow> fsdir \<Rightarrow> fsdir \<times> (go_error + nat)" where
  "TruncateTailMidRecord stat_err write_err name s files =
     (if sv_running s then (files, Inl (ErrOS ''stop the server before corrupting its log''))
      else let path = log_path (sv_dir s) name
      in case files path of None \<Rightarrow> (files, Inl (ErrOS ''no such file''))
         | Some data \<Rightarrow>
             (case stat_err of Some e \<Rightarrow> (files, Inl e) | None \<Rightarrow>
              case write_err of
                Some (k, e) \<Rightarrow> (files(path \<mapsto> data @ take k torn_fragment), Inl e)
              | None \<Rightarrow> (files(path \<mapsto> data @ torn_fragment), Inr (length data))))"

section \<open>Repairing it\<close>

text \<open>\<open>strings.Index\<close>.\<close>

fun str_index :: "string \<Rightarrow> string \<Rightarrow> nat option" where
  "str_index pat s =
     (if take (length pat) s = pat then Some 0
      else case s of [] \<Rightarrow> None | c # cs \<Rightarrow> map_option Suc (str_index pat cs))"

declare str_index.simps [simp del]

definition marker :: string where
  "marker = ''at byte offset ''"

definition parseOffset :: "string \<Rightarrow> int option" where
  "parseOffset report =
     (case str_index marker report of None \<Rightarrow> None
      | Some i \<Rightarrow> parse_int_lit (takeWhile is_digit (drop (i + length marker) report)))"

text \<open>
  \<open>Verify\<close> runs the tool. When the process cannot be run at all there is no exit status, and the code stays 0.
\<close>

definition Supervisor_Verify :: "(string \<times> int) option \<Rightarrow> string \<times> int" where
  "Supervisor_Verify outcome = (case outcome of Some (out, rc) \<Rightarrow> (out, rc) | None \<Rightarrow> ('''', 0))"

text \<open>\<open>summary\<close> is what the repair tool prints, on one line.\<close>

definition Supervisor_Repair ::
  "(string \<times> int) option \<Rightarrow> repair_env \<Rightarrow> string \<Rightarrow> string \<Rightarrow> supervisor \<Rightarrow> fsdir \<Rightarrow> (supervisor \<times> fsdir) \<times> go_error option" where
  "Supervisor_Repair outcome env summary name s files =
     (if sv_running s then ((s, files), Some (ErrOS ''stop the server before repairing its log''))
      else case Supervisor_Verify outcome of (report, rc) \<Rightarrow>
        if rc = 0 then ((s, files), Some (ErrOS ''verify reports the log is clean; nothing to repair''))
        else case parseOffset report of
               None \<Rightarrow> ((s, files), Some (ErrOS ''could not find a byte offset in verify output''))
             | Some offset \<Rightarrow>
                 (case runRepair (sv_dir s) name offset env files of
                    (files, rc) \<Rightarrow>
                      if rc \<noteq> 0 then ((s, files), Some (ErrOS ''repair failed''))
                      else ((log_line summary s, files), None)))"

end
