(* ===== verification/Dashboard.thy ===== *)
theory Dashboard
  imports Supervisor Runner
begin

text \<open>
  \<open>internal/demo/dashboard.go\<close>, the handlers behind the demo's page, and what \<open>cmd/jobrunner/main.go\<close> does around
  them. A handler maps the dashboard and what the request meets to the dashboard and its response; a response
  is a status with a value, whose JSON is left out. The dashboard, the supervisor and the runner are one state;
  their event log is the runner's, as \<open>main\<close> hands the same one to both.
\<close>

section \<open>State and responses\<close>

record dashboard =
  db_sup :: supervisor
  db_runner :: runner
  db_managed :: bool

definition NewEvents :: ringWriter where
  "NewEvents = newRingWriter 60"

definition NewDashboard :: "supervisor \<Rightarrow> runner \<Rightarrow> bool \<Rightarrow> dashboard" where
  "NewDashboard sv r managed = \<lparr>db_sup = sv, db_runner = r, db_managed = managed\<rparr>"

definition Add :: "string \<Rightarrow> dashboard \<Rightarrow> dashboard" where
  "Add line d = d\<lparr>db_runner := add_event line (db_runner d)\<rparr>"

record ServerState =
  ss_Managed :: bool
  ss_Running :: bool
  ss_Logs :: "string list"

record Snapshot =
  sn_TimeMS :: int
  sn_Defs :: "QueueDef list"
  sn_Target :: string
  sn_Queues :: "body option"
  sn_Stats :: "body option"
  sn_Peek :: "body option"
  sn_Runner :: RunnerState
  sn_Server :: ServerState
  sn_Events :: "string list"
  sn_Offline :: bool

datatype dash_error =
    NotManaged string
  | BadBody
  | ClientError client_error
  | CreatingQueue string client_error
  | LabError go_error
  | NotStarted start_result

text \<open>What a damaged log is described by: the byte that was flipped, or the size before the torn record.\<close>

datatype damage = Flipped flipped | Torn nat

record lab_report =
  lr_mode :: string
  lr_what :: damage
  lr_verify :: string
  lr_verify_code :: int
  lr_started :: bool
  lr_error :: "start_result option"
  lr_logs :: "string list"
  lr_explanation :: string

datatype dash_body =
    DashError dash_error
  | SnapshotBody Snapshot
  | SubmitFailed client_error nat
  | SubmittedBody nat nat "enqueueResult list"
  | ConfigBody Config
  | BurstBody int duration "client_error option"
  | CompactedBody int int
  | KilledBody "body option"
  | StartFailed start_result "string list"
  | StartedBody "dash_error option" "string list"
  | LabBody lab_report
  | RepairFailed go_error string
  | RepairedBody string "start_result option" "string list"

type_synonym dash_response = "nat \<times> dash_body"

section \<open>Request bodies\<close>

text \<open>
  \<open>readJSON\<close>: no body leaves every field as it is. A value of the wrong type is an error, but the other members
  are set; a text that is not JSON sets nothing. The result tells whether the handler may go on.
\<close>

fun set_known :: "(string \<times> json \<times> string \<Rightarrow> 'a \<Rightarrow> 'a option) \<Rightarrow> (string \<times> json \<times> string) list \<Rightarrow> 'a \<times> bool \<Rightarrow> 'a \<times> bool" where
  "set_known f [] (x, good) = (x, good)"
| "set_known f (m # ms) (x, good) =
     (case f m x of None \<Rightarrow> set_known f ms (x, False) | Some y \<Rightarrow> set_known f ms (y, good))"

definition readJSON :: "(string \<times> json \<times> string \<Rightarrow> 'a \<Rightarrow> 'a option) \<Rightarrow> 'a \<Rightarrow> byte list \<Rightarrow> 'a \<times> bool" where
  "readJSON f zero body =
     (if body = [] then (zero, True)
      else let s = string_of (take 1048576 body)
      in case parse_value (Suc (length s)) 0 s of
           None \<Rightarrow> (zero, False)
         | Some (JNull, r) \<Rightarrow> (zero, True)
         | Some (JObj _, r) \<Rightarrow>
             (case raw_object s of None \<Rightarrow> (zero, False) | Some ms \<Rightarrow> set_known f ms (zero, True))
         | Some (_, r) \<Rightarrow> (zero, False))"

record submit_body =
  sb_queue :: string
  sb_count :: int
  sb_priority :: int
  sb_delay_ms :: int
  sb_dedup_id :: string

definition set_submit_field :: "string \<times> json \<times> string \<Rightarrow> submit_body \<Rightarrow> submit_body option" where
  "set_submit_field m b =
     (case m of (name, v, raw) \<Rightarrow>
      let k = fold_key name
      in if k = ''queue'' then map_option (\<lambda>x. b\<lparr>sb_queue := x\<rparr>) (json_string v (sb_queue b))
      else if k = ''count'' then map_option (\<lambda>x. b\<lparr>sb_count := x\<rparr>) (json_int v (sb_count b))
      else if k = ''priority'' then map_option (\<lambda>x. b\<lparr>sb_priority := x\<rparr>) (json_int v (sb_priority b))
      else if k = ''delay_ms'' then map_option (\<lambda>x. b\<lparr>sb_delay_ms := x\<rparr>) (json_int v (sb_delay_ms b))
      else if k = ''dedup_id'' then map_option (\<lambda>x. b\<lparr>sb_dedup_id := x\<rparr>) (json_string v (sb_dedup_id b))
      else Some b)"

text \<open>Members that are pointers: \<open>null\<close> unsets them. \<open>float_of\<close> reads the text of a number.\<close>

record config_body =
  cb_target :: "string option"
  cb_workers :: "int option"
  cb_failure_rate :: "rat option"
  cb_abandon_rate :: "rat option"
  cb_visibility_ms :: "int option"

definition pointer_to :: "(json \<Rightarrow> 'a option) \<Rightarrow> json \<Rightarrow> 'a option option" where
  "pointer_to read v = (case v of JNull \<Rightarrow> Some None | _ \<Rightarrow> map_option Some (read v))"

definition set_config_field :: "(string \<Rightarrow> rat option) \<Rightarrow> string \<times> json \<times> string \<Rightarrow> config_body \<Rightarrow> config_body option" where
  "set_config_field float_of m b =
     (case m of (name, v, raw) \<Rightarrow>
      let k = fold_key name;
          int_of = (\<lambda>v. json_int v 0);
          rat_of = (\<lambda>v. case v of JNum s \<Rightarrow> float_of s | _ \<Rightarrow> None)
      in if k = ''target'' then map_option (\<lambda>x. b\<lparr>cb_target := x\<rparr>) (pointer_to (\<lambda>v. json_string v '''') v)
      else if k = ''workers'' then map_option (\<lambda>x. b\<lparr>cb_workers := x\<rparr>) (pointer_to int_of v)
      else if k = ''failure_rate'' then map_option (\<lambda>x. b\<lparr>cb_failure_rate := x\<rparr>) (pointer_to rat_of v)
      else if k = ''abandon_rate'' then map_option (\<lambda>x. b\<lparr>cb_abandon_rate := x\<rparr>) (pointer_to rat_of v)
      else if k = ''visibility_ms'' then map_option (\<lambda>x. b\<lparr>cb_visibility_ms := x\<rparr>) (pointer_to int_of v)
      else Some b)"

definition set_burst_field :: "string \<times> json \<times> string \<Rightarrow> int \<times> int \<Rightarrow> (int \<times> int) option" where
  "set_burst_field m b =
     (case m of (name, v, raw) \<Rightarrow>
      let k = fold_key name
      in if k = ''count'' then map_option (\<lambda>x. (x, snd b)) (json_int v (fst b))
      else if k = ''concurrency'' then map_option (\<lambda>x. (fst b, x)) (json_int v (snd b))
      else Some b)"

text \<open>The bodies of the lab: a mode and a queue; \<open>repair\<close> knows only the queue.\<close>

definition set_lab_field :: "string \<times> json \<times> string \<Rightarrow> string \<times> string \<Rightarrow> (string \<times> string) option" where
  "set_lab_field m b =
     (case m of (name, v, raw) \<Rightarrow>
      let k = fold_key name
      in if k = ''mode'' then map_option (\<lambda>x. (x, snd b)) (json_string v (fst b))
      else if k = ''queue'' then map_option (\<lambda>x. (fst b, x)) (json_string v (snd b))
      else Some b)"

definition set_repair_field :: "string \<times> json \<times> string \<Rightarrow> string \<Rightarrow> string option" where
  "set_repair_field m b =
     (case m of (name, v, raw) \<Rightarrow> if fold_key name = ''queue'' then json_string v b else Some b)"

definition or_target :: "string \<Rightarrow> dashboard \<Rightarrow> string" where
  "or_target queue d = (if queue = '''' then Target (db_runner d) else queue)"

section \<open>Queues and jobs\<close>

definition QueueConfig_of :: "QueueDef \<Rightarrow> QueueConfig" where
  "QueueConfig_of def = \<lparr>qc_Name = qd_Name def, qc_Ordering = qd_Ordering def, qc_PriorityEnabled = qd_Priority def,
     qc_MaxAttempts = 4, qc_DefaultVisibilityTimeoutMS = 4000, qc_AgingIntervalMS = qd_AgingMS def,
     qc_AgingMaxBoost = 8, qc_DedupWindowMS = 60000\<rparr>"

fun ensure_loop :: "(string \<Rightarrow> http_request \<Rightarrow> exchange) \<Rightarrow> QueueDef list \<Rightarrow> dash_error option" where
  "ensure_loop net [] = None"
| "ensure_loop net (def # defs) =
     (case client_CreateQueue (net (qd_Name def)) (QueueConfig_of def) of
        Some err \<Rightarrow> Some (CreatingQueue (qd_Name def) err)
      | None \<Rightarrow> ensure_loop net defs)"

text \<open>\<open>net\<close> is the network as each of the calls meets it.\<close>

definition EnsureQueues :: "(string \<Rightarrow> http_request \<Rightarrow> exchange) \<Rightarrow> dash_error option" where
  "EnsureQueues net = ensure_loop net QueueDefs"

abbreviation em_dash :: string where "em_dash \<equiv> '' '' @ [CHR 0xE2, CHR 0x80, CHR 0x94] @ '' ''"

definition submitted_event :: "string \<Rightarrow> int \<Rightarrow> nat \<Rightarrow> enqueueResult list \<Rightarrow> string" where
  "submitted_event queue delayMS dupes res =
     (if dupes > 0
      then ''submitted '' @ show_nat (length res) @ '' job(s) to '' @ queue @ em_dash @ show_nat dupes @
        '' rejected as duplicates of '' @ er_ID (hd res)
      else if delayMS > 0
      then ''submitted '' @ show_nat (length res) @ '' job(s) to '' @ queue @ '', visible in '' @ show_int delayMS @ ''ms''
      else ''submitted '' @ show_nat (length res) @ '' job(s) to '' @ queue)"

definition submit :: "byte list \<Rightarrow> (nat \<Rightarrow> draw) \<Rightarrow> dashboard \<Rightarrow> dashboard \<times> dash_response" where
  "submit body ds d =
     (case readJSON set_submit_field \<lparr>sb_queue = '''', sb_count = 0, sb_priority = 0, sb_delay_ms = 0, sb_dedup_id = ''''\<rparr> body of
        (b, False) \<Rightarrow> (d, StatusBadRequest, DashError BadBody)
      | (b, True) \<Rightarrow>
          let queue = or_target (sb_queue b) d
          in case Submit ds queue (sb_count b) (sb_priority b) (sb_delay_ms b) (sb_dedup_id b) (db_runner d) of
               (r, res, Some err) \<Rightarrow> (d\<lparr>db_runner := r\<rparr>, 502, SubmitFailed err (length res))
             | (r, res, None) \<Rightarrow>
                 let dupes = length (filter er_Duplicate res)
                 in (Add (submitted_event queue (sb_delay_ms b) dupes res) (d\<lparr>db_runner := r\<rparr>),
                     StatusOK, SubmittedBody (length res) dupes res))"

definition config_handler :: "byte list \<Rightarrow> (string \<Rightarrow> rat option) \<Rightarrow> (string \<Rightarrow> string) \<Rightarrow> dashboard \<Rightarrow> dashboard \<times> dash_response" where
  "config_handler body float_of quote_of d =
     (case readJSON (set_config_field float_of)
        \<lparr>cb_target = None, cb_workers = None, cb_failure_rate = None, cb_abandon_rate = None, cb_visibility_ms = None\<rparr> body of
        (b, False) \<Rightarrow> (d, StatusBadRequest, DashError BadBody)
      | (b, True) \<Rightarrow>
          let r = Update (case cb_target b of None \<Rightarrow> '''' | Some t \<Rightarrow> quote_of t) (cb_target b) (cb_workers b)
                    (cb_failure_rate b) (cb_abandon_rate b) (cb_visibility_ms b) (db_runner d)
          in (d\<lparr>db_runner := r\<rparr>, StatusOK, ConfigBody (runner_Config r)))"

text \<open>The rate per second of the response is a quotient of the two numbers it holds.\<close>

definition burst :: "byte list \<Rightarrow> (nat \<Rightarrow> draw) \<Rightarrow> (nat \<Rightarrow> nat list) \<Rightarrow> duration \<Rightarrow> string \<Rightarrow> dashboard \<Rightarrow> dashboard \<times> dash_response" where
  "burst body ds order elapsed elapsed_text d =
     (case readJSON set_burst_field (0, 0) body of
        (b, False) \<Rightarrow> (d, StatusBadRequest, DashError BadBody)
      | (b, True) \<Rightarrow>
          (case Burst ds order elapsed_text (Target (db_runner d)) (fst b) (snd b) (db_runner d) of
             (r, n, err) \<Rightarrow> (d\<lparr>db_runner := r\<rparr>, StatusOK, BurstBody n elapsed err)))"

text \<open>
  \<open>%.1f\<close> of \<open>n / unit\<close>, rounded to the nearest tenth and on a tie to the even one. The quotient is exact in a
  \<open>float64\<close> for sizes below \<open>2 ^ 53\<close>, as the sizes of files are.
\<close>

definition one_decimal :: "int \<Rightarrow> int \<Rightarrow> string" where
  "one_decimal n unit =
     (let q = 10 * n div unit; r = 10 * n mod unit;
          q = (if 2 * r > unit \<or> 2 * r = unit \<and> odd q then q + 1 else q)
      in show_int (q div 10) @ ''.'' @ show_int (q mod 10))"

definition humanBytes :: "int \<Rightarrow> string" where
  "humanBytes n =
     (if n \<ge> 1048576 then one_decimal n 1048576 @ '' MiB''
      else if n \<ge> 1024 then one_decimal n 1024 @ '' KiB''
      else show_int n @ '' B'')"

definition compact_handler :: "(http_request \<Rightarrow> exchange) \<Rightarrow> dashboard \<Rightarrow> dashboard \<times> dash_response" where
  "compact_handler http d =
     (let target = Target (db_runner d)
      in case client_Compact http target of
           Inl err \<Rightarrow> (d, 502, DashError (ClientError err))
         | Inr (before, after) \<Rightarrow>
             (Add (''compacted '' @ target @ '': '' @ humanBytes before @ arrow @ humanBytes after @ '' on disk'') d,
              StatusOK, CompactedBody before after))"

section \<open>The frame\<close>

definition snapshot_frame ::
  "int \<Rightarrow> nat list \<Rightarrow> (http_request \<Rightarrow> exchange) \<Rightarrow> dashboard \<Rightarrow> Snapshot" where
  "snapshot_frame now ids http d =
     (let target = Target (db_runner d);
          running = (\<not> db_managed d \<or> sv_running (db_sup d));
          logs = (if db_managed d then ring_lines (sv_logs (db_sup d)) else []);
          snap = \<lparr>sn_TimeMS = now, sn_Defs = QueueDefs, sn_Target = target, sn_Queues = None, sn_Stats = None, sn_Peek = None,
            sn_Runner = runner_State ids (db_runner d),
            sn_Server = \<lparr>ss_Managed = db_managed d, ss_Running = running, ss_Logs = logs\<rparr>,
            sn_Events = ring_lines (rn_events (db_runner d)), sn_Offline = False\<rparr>
      in if \<not> running then snap\<lparr>sn_Offline := True\<rparr>
         else let snap = (case client_ListQueues http of Inr qs \<Rightarrow> snap\<lparr>sn_Queues := Some qs\<rparr> | Inl _ \<Rightarrow> snap);
                  snap = (case client_Stats http target of
                            Inr st \<Rightarrow> snap\<lparr>sn_Stats := Some st\<rparr> | Inl _ \<Rightarrow> snap\<lparr>sn_Offline := True\<rparr>)
              in case client_Peek http target 60 of Inr pk \<Rightarrow> snap\<lparr>sn_Peek := Some pk\<rparr> | Inl _ \<Rightarrow> snap)"

definition snapshotHandler :: "int \<Rightarrow> nat list \<Rightarrow> (http_request \<Rightarrow> exchange) \<Rightarrow> dashboard \<Rightarrow> dash_response" where
  "snapshotHandler now ids http d = (StatusOK, SnapshotBody (snapshot_frame now ids http d))"

text \<open>
  \<open>stream\<close> sends a frame every 250 ms until writing fails or the client is gone. What each round meets, the
  dashboard at that moment included, is an element of a list; the result is the frames sent and whether the
  handler has returned.
\<close>

record stream_round =
  st_dash :: dashboard
  st_now :: int
  st_ids :: "nat list"
  st_http :: "http_request \<Rightarrow> exchange"
  st_broken :: bool
  st_gone :: bool

fun stream_loop :: "stream_round list \<Rightarrow> Snapshot list \<times> bool" where
  "stream_loop [] = ([], False)"
| "stream_loop (r # rs) =
     (let snap = snapshot_frame (st_now r) (st_ids r) (st_http r) (st_dash r)
      in if st_broken r then ([], True)
         else if st_gone r then ([snap], True)
         else map_prod (Cons snap) id (stream_loop rs))"

definition stream :: "bool \<Rightarrow> stream_round list \<Rightarrow> nat + Snapshot list \<times> bool" where
  "stream flusher_ok rounds = (if \<not> flusher_ok then Inl 500 else Inr (stream_loop rounds))"

section \<open>The server process\<close>

text \<open>What a start or a kill of the child meets, as in \<open>Supervisor\<close>.\<close>

record child =
  ch_banner :: string
  ch_exec :: "go_error option"
  ch_polls :: "poll list"
  ch_output :: "string list"
  ch_exit :: string
  ch_gone :: bool

abbreviation kill_child :: "child \<Rightarrow> dashboard \<Rightarrow> dashboard" where
  "kill_child c d \<equiv> d\<lparr>db_sup := Kill (ch_gone c) (ch_exit c) (db_sup d)\<rparr>"

definition start_child :: "child \<Rightarrow> dashboard \<Rightarrow> dashboard \<times> start_result" where
  "start_child c d =
     (case Start (ch_banner c) (ch_exec c) (ch_polls c) (ch_output c) (ch_exit c) (ch_gone c) (db_sup d) of
        (s, r) \<Rightarrow> (d\<lparr>db_sup := s\<rparr>, r))"

abbreviation logs_of :: "dashboard \<Rightarrow> string list" where
  "logs_of d \<equiv> ring_lines (sv_logs (db_sup d))"

definition killServer :: "(http_request \<Rightarrow> exchange) \<Rightarrow> child \<Rightarrow> dashboard \<Rightarrow> dashboard \<times> dash_response" where
  "killServer http c d =
     (if \<not> db_managed d then (d, StatusBadRequest, DashError (NotManaged ''killServer''))
      else let before = (case client_Stats http (Target (db_runner d)) of Inr st \<Rightarrow> Some st | Inl _ \<Rightarrow> None)
      in (Add (''SIGKILL sent to the queue server'' @ em_dash @ ''no shutdown hook, no flush'') (kill_child c d),
          StatusOK, KilledBody before))"

text \<open>\<open>start_text\<close> renders the error of a start that failed.\<close>

definition startServer ::
  "(start_result \<Rightarrow> string) \<Rightarrow> child \<Rightarrow> (string \<Rightarrow> http_request \<Rightarrow> exchange) \<Rightarrow> dashboard \<Rightarrow> dashboard \<times> dash_response" where
  "startServer start_text c net d =
     (if \<not> db_managed d then (d, StatusBadRequest, DashError (NotManaged ''startServer''))
      else case start_child c d of
        (d, r) \<Rightarrow>
          if r \<noteq> Started
          then (Add (''queue server refused to start: '' @ start_text r) d, StatusOK, StartFailed r (logs_of d))
          else case EnsureQueues net of
                 Some err \<Rightarrow> (d, StatusOK, StartedBody (Some err) [])
               | None \<Rightarrow> (Add ''queue server restarted and replayed its log'' d, StatusOK, StartedBody None (logs_of d)))"

section \<open>The corruption lab\<close>

definition explain :: "string \<Rightarrow> bool \<Rightarrow> string" where
  "explain mode started =
     (if mode = ''tail''
      then if started
        then ''The file ended in the middle of a record. That cannot be anything but an interrupted write, and no client was ever told it committed'' @ em_dash @ ''so the server truncated it, logged a warning, and carried on.''
        else ''Unexpected: a torn tail should have been truncated, not refused.''
      else if started then ''Unexpected: a checksum mismatch should have stopped startup.''
      else ''A complete record failed its checksum. That is real corruption, not a crash artifact, so the server refuses to start and names the byte offset. Skipping the record would silently lose data nobody would ever notice.'')"

text \<open>
  What the lab meets: the child it kills, the operating system while it damages the log, the outcome of the
  verify process and the child it starts, both as functions of the files by then;
  \<open>le_what\<close> is the text of the event. What \<open>EnsureQueues\<close> does after a start concerns the server only, and its
  error is dropped.
\<close>

record lab_env =
  le_kill :: child
  le_stat :: "go_error option"
  le_write :: "(nat \<times> go_error) option"
  le_verify :: "fsdir \<Rightarrow> (string \<times> int) option"
  le_start :: "fsdir \<Rightarrow> child"
  le_what :: "damage \<Rightarrow> string"

definition stop_child :: "child \<Rightarrow> dashboard \<Rightarrow> dashboard" where
  "stop_child c d = (if sv_running (db_sup d) then kill_child c d else d)"

definition damage_log :: "string \<Rightarrow> lab_env \<Rightarrow> string \<Rightarrow> supervisor \<Rightarrow> fsdir \<Rightarrow> fsdir \<times> (go_error + damage)" where
  "damage_log mode env queue sv files =
     (if mode = ''tail''
      then map_prod id (map_sum id Torn) (TruncateTailMidRecord (le_stat env) (le_write env) queue sv files)
      else map_prod id (map_sum id Flipped) (FlipByteMidLog (le_write env) queue sv files))"

text \<open>From the event on: \<open>verify\<close>, the start, and the response.\<close>

definition lab_answer :: "string \<Rightarrow> damage \<Rightarrow> lab_env \<Rightarrow> dashboard \<Rightarrow> fsdir \<Rightarrow> dashboard \<times> lab_report" where
  "lab_answer mode what env d files =
     (case Supervisor_Verify (le_verify env files) of (report, rc) \<Rightarrow>
      case start_child (le_start env files) (Add (''corruption lab: '' @ le_what env what) d) of (d, r) \<Rightarrow>
        (if r = Started then Add ''queue server truncated the torn tail, warned, and started'' d
         else Add (''queue server REFUSED to start'' @ em_dash @ ''the log is damaged and it will not guess'') d,
         \<lparr>lr_mode = mode, lr_what = what, lr_verify = report, lr_verify_code = rc, lr_started = (r = Started),
          lr_error = (if r = Started then None else Some r), lr_logs = logs_of d, lr_explanation = explain mode (r = Started)\<rparr>))"

definition corrupt :: "byte list \<Rightarrow> lab_env \<Rightarrow> dashboard \<Rightarrow> fsdir \<Rightarrow> (dashboard \<times> fsdir) \<times> dash_response" where
  "corrupt body env d files =
     (if \<not> db_managed d then ((d, files), StatusBadRequest, DashError (NotManaged ''corrupt''))
      else case readJSON set_lab_field ('''', '''') body of
        (b, False) \<Rightarrow> ((d, files), StatusBadRequest, DashError BadBody)
      | (b, True) \<Rightarrow>
          let queue = or_target (snd b) d;
              d = stop_child (le_kill env) d;
              mode = (if fst b = ''tail'' then ''tail'' else ''midlog'')
          in case damage_log mode env queue (db_sup d) files of
               (files, Inl err) \<Rightarrow> ((d, files), StatusBadRequest, DashError (LabError err))
             | (files, Inr what) \<Rightarrow>
                 (case lab_answer mode what env d files of (d, rep) \<Rightarrow> ((d, files), StatusOK, LabBody rep)))"

text \<open>
  \<open>repair\<close> goes on after a body it could not read, so that it can answer twice: the responses are a list, and the
  first one's status counts.
\<close>

record fix_env =
  fe_kill :: child
  fe_verify :: "(string \<times> int) option"
  fe_repair :: repair_env
  fe_summary :: string
  fe_output :: string
  fe_start :: "fsdir \<Rightarrow> child"

definition repair :: "byte list \<Rightarrow> fix_env \<Rightarrow> dashboard \<Rightarrow> fsdir \<Rightarrow> (dashboard \<times> fsdir) \<times> dash_response list" where
  "repair body env d files =
     (if \<not> db_managed d then ((d, files), [(StatusBadRequest, DashError (NotManaged ''repair''))])
      else case readJSON set_repair_field '''' body of
        (b, good) \<Rightarrow>
          let bad = (if good then [] else [(StatusBadRequest, DashError BadBody)]);
              queue = or_target b d;
              d = stop_child (fe_kill env) d
          in case Supervisor_Repair (fe_verify env) (fe_repair env) (fe_summary env) queue (db_sup d) files of
               ((s, files), Some err) \<Rightarrow> ((d\<lparr>db_sup := s\<rparr>, files), bad @ [(StatusOK, RepairFailed err (if err = ErrOS ''repair failed'' then fe_output env else ''''))])
             | ((s, files), None) \<Rightarrow>
                 let d = Add ''operator ran repair: log truncated at the corrupt offset, original backed up'' (d\<lparr>db_sup := s\<rparr>);
                     (d, r) = start_child (fe_start env files) d
                 in ((d, files), bad @ [(StatusOK, RepairedBody (fe_output env) (if r = Started then None else Some r) (logs_of d))]))"

section \<open>Routes\<close>

text \<open>
  The patterns with a path of their own; \<open>GET /\<close> matches whatever is left, with the files of the page, so that
  the other methods are answered with 405. A pattern for GET also serves HEAD. Paths are clean.
\<close>

datatype dash_handler =
    StreamHandler | SnapshotHandler | SubmitHandler | ConfigHandler | BurstHandler | CompactRequest
  | KillServerHandler | StartServerHandler | CorruptHandler | RepairHandler | PageFiles

definition dashboard_Routes :: "((string \<times> string) \<times> dash_handler) list" where
  "dashboard_Routes =
     [((''GET'', ''/api/stream''), StreamHandler), ((''GET'', ''/api/snapshot''), SnapshotHandler),
      ((''POST'', ''/api/submit''), SubmitHandler), ((''POST'', ''/api/config''), ConfigHandler),
      ((''POST'', ''/api/burst''), BurstHandler), ((''POST'', ''/api/compact''), CompactRequest),
      ((''POST'', ''/api/server/kill''), KillServerHandler), ((''POST'', ''/api/server/start''), StartServerHandler),
      ((''POST'', ''/api/lab/corrupt''), CorruptHandler), ((''POST'', ''/api/lab/repair''), RepairHandler)]"

definition dash_route :: "string \<Rightarrow> string \<Rightarrow> nat + dash_handler" where
  "dash_route meth path =
     (let m = (if meth = ''HEAD'' then ''GET'' else meth)
      in case map_of dashboard_Routes (m, path) of
           Some h \<Rightarrow> Inr h
         | None \<Rightarrow> if m = ''GET'' then Inr PageFiles else Inl 405)"

section \<open>The job runner\<close>

text \<open>
  \<open>main\<close> up to the point where the dashboard serves, with its flags parsed: either the process ends with code 1,
  or the dashboard stands with its workers running. \<open>bin_ok\<close>: the server's binary exists. A dashboard that is
  attached to another server never looks at its supervisor, which is \<open>nil\<close> in the code.
\<close>

definition jobrunner_setup ::
  "string \<Rightarrow> string \<Rightarrow> string \<Rightarrow> int \<Rightarrow> bool \<Rightarrow> child \<Rightarrow> (http_request \<Rightarrow> exchange) \<Rightarrow> (string \<Rightarrow> http_request \<Rightarrow> exchange) \<Rightarrow>
   int + dashboard" where
  "jobrunner_setup queueAddr dataDir queueURL workers bin_ok c http net =
     (let managed = (queueURL = ''''); sv = NewSupervisor dataDir
      in if managed \<and> \<not> bin_ok then Inl 1
         else case (if managed then Start (ch_banner c) (ch_exec c) (ch_polls c) (ch_output c) (ch_exit c) (ch_gone c) sv
                    else (sv, Started)) of
           (sv, r) \<Rightarrow>
             if r \<noteq> Started then Inl 1
             else if \<not> managed \<and> \<not> client_Healthy http then Inl 1
             else let events = ring_add (if managed then ''started and supervised the queue server on '' @ queueAddr
                                         else ''attached to an external queue server at '' @ queueURL) NewEvents;
                      d = NewDashboard sv (NewRunner events) managed
                  in case EnsureQueues net of
                       Some err \<Rightarrow> Inl 1
                     | None \<Rightarrow> Inr (d\<lparr>db_runner := SetWorkers workers (db_runner d)\<rparr>))"

text \<open>On a signal: the pool is stopped, and once every worker has returned a managed server is killed.\<close>

definition jobrunner_shutdown :: "child \<Rightarrow> dashboard \<Rightarrow> dashboard" where
  "jobrunner_shutdown c d =
     (let d = d\<lparr>db_runner := Stop_begin (db_runner d)\<rparr> in if db_managed d then kill_child c d else d)"

end
