(* ===== verification/Command_Props.thy ===== *)
theory Command_Props
  imports Command Sample_Life
begin

text \<open>
  The properties of \<open>verify\<close> and \<open>repair\<close>: what they say about a log agrees with what the server does on
  it, and a repair at the reported offset makes the log readable again without losing a byte.
\<close>

section \<open>repair\<close>

definition repair_works :: "repair_env \<Rightarrow> bool" where
  "repair_works env \<longleftrightarrow> re_Stat env = None \<and> re_OpenFile env = None \<and> re_Truncate env = None \<and> re_Sync env = None \<and>
     cp_Open (re_copy env) = None \<and> cp_Create (re_copy env) = None \<and> cp_Copy (re_copy env) = None \<and>
     cp_Sync (re_copy env) = None \<and> cp_Close (re_copy env) = None"

lemma backup_path_neq: "backup_path path now \<noteq> path"
  by (simp add: backup_path_def)

lemma copyFile_frame: "copyFile env src dst files = (files', r) \<Longrightarrow> x \<noteq> dst \<Longrightarrow> files' x = files x"
  by (auto simp: copyFile_def Let_def split: option.splits if_splits prod.splits)

lemma copyFile_ok:
  "copyFile env src dst files = (files', None) \<Longrightarrow> files' = files(dst := files src)"
  by (auto simp: copyFile_def Let_def split: option.splits if_splits prod.splits)

lemma runRepair_frame:
  assumes "runRepair dir name at env files = (files', rc)"
    and "x \<noteq> log_path dir name" and "x \<noteq> backup_path (log_path dir name) (re_now env)"
  shows "files' x = files x"
  using assms
  by (auto simp: runRepair_def Let_def dest: copyFile_frame split: if_splits option.splits prod.splits)

text \<open>Whatever goes wrong, the log is whole under its own name or under that of the backup.\<close>

lemma runRepair_keeps:
  assumes "runRepair dir name at env files = (files', rc)" and "files (log_path dir name) = Some data"
  shows "files' (log_path dir name) = Some data \<or> files' (backup_path (log_path dir name) (re_now env)) = Some data"
  using assms backup_path_neq [of "log_path dir name" "re_now env"]
  by (auto simp: runRepair_def Let_def dest: copyFile_frame [where x = "log_path dir name"] copyFile_ok split: if_splits option.splits prod.splits)

text \<open>C7: \<open>repair\<close> at the offset \<open>verify\<close> reports. The log is cut to exactly the records that could be read,
  and reads back without error to the same records and counts; the original stays behind as a backup, and
  no other file changes. And whatever the operating system refuses on the way, the original log is
  still there, under its own name or the backup's.\<close>

theorem repair_restores_log:
  assumes log: "files (log_path dir name) = Some data" "files (backup_path (log_path dir name) (re_now env)) = None"
    and bad: "Replay (log_path dir name) (Opened data no_io) tally (\<lambda>_. 0) = (res, cs, Some (CorruptionError p at r))"
    and name: "name \<noteq> ''''" and env: "repair_works env"
  shows "\<exists>es. runRepair dir name (int at) env files =
      (files(backup_path (log_path dir name) (re_now env) \<mapsto> data, log_path dir name \<mapsto> encode_all es), 0) \<and>
    list_all wf_entry es \<and> length es = v_Records res \<and> encode_all es = take at data \<and>
    Replay (log_path dir name) (Opened (encode_all es) no_io) tally (\<lambda>_. 0) =
      (\<lparr>v_ValidBytes = at, v_Records = v_Records res, v_Torn = None\<rparr>, cs, None) \<and>
    (\<forall>env' at' files' rc. runRepair dir name at' env' files = (files', rc) \<longrightarrow>
       Some data \<in> {files' (log_path dir name), files' (backup_path (log_path dir name) (re_now env'))})"
proof -
  from replay_corrupt [OF bad] obtain es where es: "list_all wf_entry es" "feed tally 0 es (\<lambda>_. 0) = Inr cs"
    "v_Records res = length es" "at \<le> length data" "take at data = encode_all es" by blast
  have len: "length (encode_all es) = at" using es(4,5) by (metis length_take min.absorb2)
  have "runRepair dir name (int at) env files =
      (files(backup_path (log_path dir name) (re_now env) \<mapsto> data, log_path dir name \<mapsto> encode_all es), 0)"
    using log name env es(4) backup_path_neq [of "log_path dir name" "re_now env"]
    by (simp add: runRepair_def copyFile_def repair_works_def Let_def flip: es(5))
  moreover have "Replay (log_path dir name) (Opened (encode_all es) no_io) tally (\<lambda>_. 0) =
      (\<lparr>v_ValidBytes = at, v_Records = v_Records res, v_Torn = None\<rparr>, cs, None)"
    using replay_complete [OF es(1,2)] len es(3) by simp
  moreover have "Some data \<in> {files' (log_path dir name), files' (backup_path (log_path dir name) (re_now env'))}"
    if "runRepair dir name at' env' files = (files', rc)" for env' at' files' rc
    using runRepair_keeps [OF that log(1)] by auto
  ultimately show ?thesis using es by (intro exI [of _ es]) auto
qed

definition sample_repair_env :: repair_env where
  "sample_repair_env = \<lparr>re_Stat = None, re_now = 7,
     re_copy = \<lparr>cp_Open = None, cp_Create = None, cp_Copy = None, cp_Sync = None, cp_Close = None\<rparr>,
     re_OpenFile = None, re_Truncate = None, re_Sync = None\<rparr>"

text \<open>The sample log with the type of its second record changed.\<close>

definition sample_damaged :: "byte list" where
  "sample_damaged = (encode_all sample_log)[19 := 9]"

lemma sample_damaged_replay:
  "\<exists>cs r. Replay path (Opened sample_damaged no_io) tally (\<lambda>_. 0) =
     (\<lparr>v_ValidBytes = 0, v_Records = 1, v_Torn = None\<rparr>, cs, Some (CorruptionError path 15 r))"
proof -
  let ?es1 = "[(TypeMeta, [123, 125])]"
  have "sample_log = ?es1 @ (TypeAck, [97]) # [(TypeNack, [])]" by (simp add: sample_log_def)
  moreover have "feed tally 0 ?es1 (\<lambda>_. 0) = Inr ((\<lambda>_. 0)(TypeMeta := 1))" by (simp add: tally_def)
  moreover have "4 < EncodedLen [97]" "Encode [] TypeAck [97] ! 4 \<noteq> 9" "length (encode_all ?es1) = 15"
    by (simp_all add: EncodedLen_def HeaderSize_def Encode_frame frame_header_def frame_fields_def nth_append rtype_defs
        encode_all_Cons)
  ultimately show ?thesis using replay_damaged [OF sample_log_wf, of ?es1 TypeAck "[97]" "[(TypeNack, [])]" tally "\<lambda>_. 0" _ 4 9 path]
    unfolding sample_damaged_def by auto
qed

theorem repair_restores_log_witness:
  "\<exists>es files. runRepair ''data'' ''jobs'' 15 sample_repair_env (Map.empty(''data/jobs/wal.log'' \<mapsto> sample_damaged)) = (files, 0) \<and>
     files ''data/jobs/wal.log.bak.7'' = Some sample_damaged \<and> files ''data/jobs/wal.log'' = Some (encode_all es) \<and> length es = 1"
proof -
  have p: "log_path ''data'' ''jobs'' = ''data/jobs/wal.log''" by (simp add: path_join_def logFileName_def)
  have b: "backup_path ''data/jobs/wal.log'' (re_now sample_repair_env) = ''data/jobs/wal.log.bak.7''"
    by (simp add: backup_path_def sample_repair_env_def show_int_def show_nat.simps in_i64_def min_i64_def max_i64_def)
      (simp add: char_of_def bit_iff_odd)
  define fs where "fs = Map.empty(''data/jobs/wal.log'' \<mapsto> sample_damaged)"
  obtain cs r where bad: "Replay (log_path ''data'' ''jobs'') (Opened sample_damaged no_io) tally (\<lambda>_. 0) =
      (\<lparr>v_ValidBytes = 0, v_Records = 1, v_Torn = None\<rparr>, cs, Some (CorruptionError (log_path ''data'' ''jobs'') 15 r))"
    using sample_damaged_replay by blast
  have f: "fs (log_path ''data'' ''jobs'') = Some sample_damaged"
    "fs (backup_path (log_path ''data'' ''jobs'') (re_now sample_repair_env)) = None" by (simp_all add: p b fs_def)
  have "repair_works sample_repair_env" by (simp add: repair_works_def sample_repair_env_def)
  from repair_restores_log [OF f bad _ this] obtain es where
    "runRepair ''data'' ''jobs'' (int 15) sample_repair_env fs =
      (fs(''data/jobs/wal.log.bak.7'' \<mapsto> sample_damaged, ''data/jobs/wal.log'' \<mapsto> encode_all es), 0)" "length es = 1"
    unfolding p b by auto
  then show ?thesis unfolding fs_def by (intro exI [of _ es]) simp
qed

section \<open>verify and the server\<close>

text \<open>The errors of applying a record are neither corruption nor a sign of an unfinished creation.\<close>

definition plain_error :: "go_error \<Rightarrow> bool" where
  "plain_error e \<longleftrightarrow> \<not> is_incomplete e \<and> \<not> is_corruption e"

lemma bindE_plain:
  "bindE x f = Inl e \<Longrightarrow> (\<And>e. x = Inl e \<Longrightarrow> plain_error e) \<Longrightarrow> (\<And>y e. f y = Inl e \<Longrightarrow> plain_error e) \<Longrightarrow> plain_error e"
  by (cases x) auto

lemma Validate_plain: "Validate c = Inl e \<Longrightarrow> plain_error e"
  unfolding Validate_def
  by (auto simp: plain_error_def validate_ordering_def validate_attempts_def validate_visibility_def validate_dedup_def
      validate_aging_def elim!: bindE_plain split: if_splits)

lemma decodeMessage_plain: "decodeMessage b = Inl e \<Longrightarrow> plain_error e"
  unfolding decodeMessage_def
  by (auto simp: plain_error_def Let_def readString16_def elim!: bindE_plain split: if_splits)

lemma decodeDedup_plain: "decodeDedup b = Inl e \<Longrightarrow> plain_error e"
  unfolding decodeDedup_def by (auto simp: plain_error_def Let_def readString16_def elim!: bindE_plain split: if_splits)

lemma decodeConfig_plain: "decodeConfig b = Inl e \<Longrightarrow> plain_error e"
  by (auto simp: decodeConfig_def plain_error_def split: option.splits json.splits)

lemma apply_meta_plain: "apply_meta b q = Inl e \<Longrightarrow> plain_error e"
  unfolding apply_meta_def Let_def by (elim bindE_plain) (auto dest: decodeConfig_plain Validate_plain)

lemma apply_record_plain: "apply_record now rec q = Inl e \<Longrightarrow> plain_error e"
proof -
  have a: "applyEnqueue m now q = Inl e \<Longrightarrow> plain_error e" "applyAck k q = Inl e \<Longrightarrow> plain_error e"
    "applyAttempt k now q = Inl e \<Longrightarrow> plain_error e" for m k q e
    by (auto simp: applyEnqueue_def applyAck_def applyAttempt_def plain_error_def Let_def split: if_splits option.splits)
  assume "apply_record now rec q = Inl e"
  then show ?thesis
    unfolding apply_record_def Let_def
    by (auto elim!: bindE_plain dest: a apply_meta_plain decodeMessage_plain decodeDedup_plain split: if_splits)
      (auto simp: plain_error_def)
qed

lemma load_step_plain: "load_step clock s rec = Inl e \<Longrightarrow> plain_error e"
  unfolding load_step_def Let_def
  by (auto elim!: bindE_plain dest: apply_record_plain split: if_splits prod.splits) (simp add: plain_error_def)

text \<open>
  Two replays of the same file: the callbacks may stop them, but otherwise they meet the same error of
  the file.
\<close>

lemma replay_loop_stops:
  "read_record path data io off = CleanEnd \<Longrightarrow> snd (snd (replay_loop path data io fn off res s)) = None"
  "read_record path data io off = TornAt t \<Longrightarrow> snd (snd (replay_loop path data io fn off res s)) = None"
  "read_record path data io off = Failed e \<Longrightarrow> snd (snd (replay_loop path data io fn off res s)) = Some e"
  by (subst replay_loop.simps, simp)+

lemma replay_loop_error:
  "snd (snd (replay_loop path data io fn off res2 s)) = snd (snd (replay_loop path data io tally off res cs)) \<or>
   (\<exists>e s1 r. snd (snd (replay_loop path data io fn off res2 s)) = Some (Wrapped ''wal: applying record'' e) \<and> fn s1 r = Inl e)"
proof (induction path data io fn off res2 s arbitrary: res cs rule: replay_loop.induct)
  case (1 path data io fn off res2 s)
  show ?case
  proof (cases "read_record path data io off")
    case (Found r)
    let ?off = "off + (HeaderSize + length (r_Payload r))"
    show ?thesis
    proof (cases "fn s r")
      case (Inl e)
      then have "snd (snd (replay_loop path data io fn off res2 s)) = Some (Wrapped ''wal: applying record'' e)"
        using Found by (subst replay_loop.simps) simp
      then show ?thesis using Inl by blast
    next
      case (Inr s1)
      have "replay_loop path data io fn off res2 s =
          replay_loop path data io fn ?off (res2\<lparr>v_Records := v_Records res2 + 1\<rparr>) s1"
        using Found Inr by (subst replay_loop.simps) simp
      moreover have "replay_loop path data io tally off res cs =
          replay_loop path data io tally ?off (res\<lparr>v_Records := v_Records res + 1\<rparr>) (cs(r_Type r := cs (r_Type r) + 1))"
        using Found by (subst replay_loop.simps) (simp add: tally_def)
      ultimately show ?thesis using "1.IH" [OF Found Inr] by presburger
    qed
  qed (simp_all add: replay_loop_stops)
qed

lemma replay_error:
  "snd (snd (Replay path f fn s)) = snd (snd (Replay path f tally cs)) \<or>
   (\<exists>e s1 r. snd (snd (Replay path f fn s)) = Some (Wrapped ''wal: applying record'' e) \<and> fn s1 r = Inl e)"
proof (cases f)
  case (Opened data io)
  show ?thesis unfolding Opened Replay_def opened.case by (rule replay_loop_error)
qed (simp_all add: Replay_def)

text \<open>The operating system's own errors are plain ones.\<close>

definition honest :: "dir_entry \<Rightarrow> bool" where
  "honest e \<longleftrightarrow>
     (case de_file e of NotExist \<Rightarrow> True | OpenError err \<Rightarrow> plain_error err
      | Opened data io \<Rightarrow> (\<forall>off err. io off = Some err \<longrightarrow> plain_error err)) \<and>
     (\<forall>path sz err. Open path sz (de_env e) = Inl err \<longrightarrow> plain_error err)"

abbreviation verify_error :: "string \<Rightarrow> dir_entry \<Rightarrow> go_error option" where
  "verify_error dir e \<equiv> snd (snd (Replay (log_path dir (de_Name e)) (de_file e) tally (\<lambda>_. 0)))"

lemma read_record_error:
  "read_record path data io off = Failed e \<Longrightarrow> is_corruption e \<or> (\<exists>i x. io i = Some x \<and> e = Wrapped ''wal: reading header'' x) \<or>
   (\<exists>i x. io i = Some x \<and> e = Wrapped ''wal: reading payload'' x)"
  by (auto simp: read_record_def Let_def split: if_splits option.splits)

lemma replay_loop_tally_error:
  "snd (snd (replay_loop path data io tally off res cs)) = Some e \<Longrightarrow> \<exists>off'. read_record path data io off' = Failed e"
proof (induction path data io "tally" off res cs rule: replay_loop.induct)
  case (1 path data io off res s)
  show ?case
  proof (cases "read_record path data io off")
    case (Found r)
    let ?s = "s(r_Type r := s (r_Type r) + 1)"
    have t: "tally s r = Inr ?s" by (simp add: tally_def)
    have "replay_loop path data io tally off res s =
        replay_loop path data io tally (off + (HeaderSize + length (r_Payload r))) (res\<lparr>v_Records := v_Records res + 1\<rparr>) ?s"
      using Found t by (subst replay_loop.simps) simp
    then show ?thesis using "1.hyps" [OF Found t] "1.prems" by simp
  next
    case (Failed x)
    then show ?thesis using "1.prems" by (auto simp: replay_loop_stops)
  qed (use "1.prems" in \<open>simp_all add: replay_loop_stops\<close>)
qed

lemma verify_error_complete: "honest e \<Longrightarrow> verify_error dir e = Some err \<Longrightarrow> \<not> is_incomplete err"
proof -
  assume h: "honest e" and v: "verify_error dir e = Some err"
  show ?thesis
  proof (cases "de_file e")
    case (Opened data io)
    with v obtain off where "read_record (log_path dir (de_Name e)) data io off = Failed err"
      using replay_loop_tally_error by (fastforce simp: Replay_def)
    from read_record_error [OF this] have "is_corruption err \<or> plain_error err"
      using h Opened by (auto simp: honest_def plain_error_def)
    moreover have "is_corruption x \<Longrightarrow> \<not> is_incomplete x" for x by (induction x) auto
    ultimately show ?thesis by (auto simp: plain_error_def)
  qed (use h v in \<open>auto simp: Replay_def honest_def plain_error_def\<close>)
qed

text \<open>Loading fails on what \<open>verify\<close> complains about, and calls a log corrupt only then.\<close>

lemma load_and_verify:
  assumes "honest e"
  shows "verify_error dir e = Some err \<Longrightarrow> \<exists>x. load_entry dir e = Inl x \<and> \<not> is_incomplete x"
    and "load_entry dir e = Inl x \<Longrightarrow> is_corruption x \<Longrightarrow> verify_error dir e \<noteq> None"
proof -
  let ?q = "(newQueue (path_join dir (de_Name e)))\<lparr>q_path := log_path dir (de_Name e)\<rparr>"
  let ?R = "Replay (log_path dir (de_Name e)) (de_file e) (load_step (de_clock e)) (False, ?q)"
  obtain res saw q er where R: "?R = (res, (saw, q), er)" by (metis prod_cases3 surj_pair)
  have L: "load_entry dir e = (case er of Some x \<Rightarrow> Inl x | None \<Rightarrow>
      if \<not> saw then if v_Records res = 0 then Inl (ErrIncompleteQueue (log_path dir (de_Name e))) else Inl (ErrNoMeta (de_Name e))
      else bindE (Open (log_path dir (de_Name e)) (v_ValidBytes res) (de_env e))
             (\<lambda>l. Inr (start (de_now1 e) (de_now2 e) (q\<lparr>q_log := l\<rparr>))))"
    using R by (simp add: Load_def Let_def)
  have er: "er = verify_error dir e \<or> (\<exists>x. er = Some (Wrapped ''wal: applying record'' x) \<and> plain_error x)"
    using replay_error [of "log_path dir (de_Name e)" "de_file e" "load_step (de_clock e)" "(False, ?q)" "\<lambda>_. 0"] R
    by (auto dest: load_step_plain)
  show "\<exists>x. load_entry dir e = Inl x \<and> \<not> is_incomplete x" if v: "verify_error dir e = Some err"
    using er v verify_error_complete [OF assms v] L by (auto simp: plain_error_def)
  show "verify_error dir e \<noteq> None" if "load_entry dir e = Inl x" "is_corruption x"
  proof
    assume n: "verify_error dir e = None"
    show False
    proof (cases er)
      case None
      then show False using that L assms
        by (cases "Open (log_path dir (de_Name e)) (v_ValidBytes res) (de_env e)")
          (auto simp: honest_def plain_error_def split: if_splits)
    next
      case (Some y)
      then show False using that L er n by (auto simp: plain_error_def)
    qed
  qed
qed

lemma verify_loop_bad:
  "verify_loop dir es bad found = (ls, bad', found') \<Longrightarrow>
   bad \<le> bad' \<and> (bad < bad' \<longleftrightarrow> (\<exists>e \<in> set es. has_log e \<and> verify_error dir e \<noteq> None))"
proof (induction es arbitrary: bad found ls)
  case (Cons e es)
  show ?case
  proof (cases "has_log e")
    case True
    define b where "b = (if verify_error dir e \<noteq> None then bad + 1 else bad)"
    obtain ls' where "verify_loop dir es b (found + 1) = (ls', bad', found')"
      using Cons.prems True by (auto simp: Let_def verify_entry_def b_def split: prod.splits option.splits)
    from Cons.IH [OF this] show ?thesis using True by (auto simp: b_def split: if_splits)
  next
    case False
    then have "verify_loop dir es bad found = (ls, bad', found')" using Cons.prems by (simp split: if_splits)
    from Cons.IH [OF this] show ?thesis using False by auto
  qed
qed simp

lemma runVerify_iff:
  "snd (runVerify dir (Inr entries)) = (if \<exists>e \<in> set entries. has_log e \<and> verify_error dir e \<noteq> None then 2 else 0)"
  using verify_loop_bad [of dir entries 0 0] by (auto simp: runVerify_def split: prod.splits)

text \<open>
  The records of a log that \<open>verify\<close> passes, and what loading makes of them: the file gives every reader
  the same records, and \<open>Load\<close> the state the specification gives to them.
\<close>

definition gather :: "entry list \<Rightarrow> wal_record \<Rightarrow> go_error + entry list" where
  "gather es r = Inr (es @ [(r_Type r, r_Payload r)])"

definition log_records :: "string \<Rightarrow> dir_entry \<Rightarrow> entry list" where
  "log_records dir e = fst (snd (Replay (log_path dir (de_Name e)) (de_file e) gather []))"

lemma replay_loop_Found:
  "read_record path data io off = Found r \<Longrightarrow> fn s r = Inr s1 \<Longrightarrow>
   replay_loop path data io fn off res s =
     replay_loop path data io fn (off + EncodedLen (r_Payload r)) (res\<lparr>v_Records := v_Records res + 1\<rparr>) s1"
  by (subst replay_loop.simps) (simp add: EncodedLen_def)

lemma replay_loop_gather:
  assumes "replay_loop path data io gather off res es0 = (res', es1, None)" and "off \<le> length data"
  shows "\<exists>es. es1 = es0 @ es \<and> v_ValidBytes res' = off + length (encode_all es) \<and>
    (case feed fn off es s of
       Inl x \<Rightarrow> snd (snd (replay_loop path data io fn off res2 s)) = Some (Wrapped ''wal: applying record'' x)
     | Inr s' \<Rightarrow> \<exists>t. replay_loop path data io fn off res2 s =
         (res2\<lparr>v_ValidBytes := v_ValidBytes res', v_Records := v_Records res2 + length es, v_Torn := t\<rparr>, s', None))"
  using assms
proof (induction path data io gather off res es0 arbitrary: res2 s rule: replay_loop.induct)
  case (1 path data io off res es0)
  show ?case
  proof (cases "read_record path data io off")
    case (Found r)
    let ?e = "(r_Type r, r_Payload r)"
    let ?off = "off + EncodedLen (r_Payload r)"
    note R = read_record_sound [OF Found]
    have off': "off + (HeaderSize + length (r_Payload r)) = ?off" by (simp add: EncodedLen_def)
    have g: "gather es0 r = Inr (es0 @ [?e])" by (simp add: gather_def)
    have run: "replay_loop path data io gather ?off (res\<lparr>v_Records := v_Records res + 1\<rparr>) (es0 @ [?e]) = (res', es1, None)"
      using "1.prems"(1) replay_loop_Found [OF Found, where fn = gather and s = es0 and res = res, OF g] by simp
    have le: "?off \<le> length data" using R by simp
    note IH = "1.hyps" [OF Found g, unfolded off', OF run le]
    have r: "\<lparr>r_Type = r_Type r, r_Payload = r_Payload r, r_Offset = off\<rparr> = r" using R by simp
    show ?thesis
    proof (cases "fn s r")
      case (Inl x)
      from IH obtain es where es: "es1 = (es0 @ [?e]) @ es" "v_ValidBytes res' = ?off + length (encode_all es)" by blast
      have "snd (snd (replay_loop path data io fn off res2 s)) = Some (Wrapped ''wal: applying record'' x)"
        using Found Inl by (subst replay_loop.simps) simp
      then show ?thesis using es Inl by (intro exI [of _ "?e # es"]) (simp add: r encode_all_Cons)
    next
      case (Inr s1)
      from IH [where s = s1 and ?res2.0 = "res2\<lparr>v_Records := v_Records res2 + 1\<rparr>"] obtain es where
        es: "es1 = (es0 @ [?e]) @ es" "v_ValidBytes res' = ?off + length (encode_all es)"
        "case feed fn ?off es s1 of
           Inl x \<Rightarrow> snd (snd (replay_loop path data io fn off res2 s)) = Some (Wrapped ''wal: applying record'' x)
         | Inr s' \<Rightarrow> \<exists>t. replay_loop path data io fn off res2 s =
             (res2\<lparr>v_Records := v_Records res2 + 1, v_ValidBytes := v_ValidBytes res',
               v_Records := v_Records (res2\<lparr>v_Records := v_Records res2 + 1\<rparr>) + length es, v_Torn := t\<rparr>, s', None)"
        unfolding replay_loop_Found [where fn = fn and s = s and res = res2, OF Found Inr] by auto
      then show ?thesis using Inr
        by (intro exI [of _ "?e # es"]) (auto simp: r encode_all_Cons split: sum.splits)
    qed
  next
    case CleanEnd
    have "res2\<lparr>v_ValidBytes := off\<rparr> = res2\<lparr>v_ValidBytes := off, v_Torn := v_Torn res2\<rparr>" by simp
    then show ?thesis using CleanEnd "1.prems"(1)
      by (intro exI [of _ "[]"]) (auto simp: replay_loop.simps [of path data io _ off] intro: exI [of _ "v_Torn res2"])
  next
    case (TornAt t)
    then show ?thesis using "1.prems"(1)
      by (intro exI [of _ "[]"]) (auto simp: replay_loop.simps [of path data io _ off])
  next
    case (Failed x)
    then show ?thesis using "1.prems"(1) by (simp add: replay_loop.simps [of path data io _ off])
  qed
qed

lemma verified_replay:
  assumes "verify_error dir e = None"
  shows "case feed fn 0 (log_records dir e) s of
      Inl x \<Rightarrow> snd (snd (Replay (log_path dir (de_Name e)) (de_file e) fn s)) = Some (Wrapped ''wal: applying record'' x)
    | Inr s' \<Rightarrow> \<exists>res. Replay (log_path dir (de_Name e)) (de_file e) fn s = (res, s', None) \<and>
        v_ValidBytes res = length (encode_all (log_records dir e)) \<and> v_Records res = length (log_records dir e)"
proof (cases "de_file e")
  case NotExist
  then show ?thesis by (simp add: log_records_def Replay_def empty_result_def)
next
  case (OpenError err)
  then show ?thesis using assms by (simp add: Replay_def)
next
  case (Opened data io)
  let ?path = "log_path dir (de_Name e)"
  obtain res es er where g: "replay_loop ?path data io gather 0 empty_result [] = (res, es, er)"
    by (metis prod_cases3)
  have "er = None"
    using replay_error [of ?path "Opened data io" gather "[]" "\<lambda>_. 0"] assms g Opened
    by (auto simp: Replay_def gather_def)
  with g have g: "replay_loop ?path data io gather 0 empty_result [] = (res, es, None)" by simp
  have "log_records dir e = es" using g Opened by (simp add: log_records_def Replay_def)
  with replay_loop_gather [OF g, where fn = fn and s = s and ?res2.0 = empty_result] show ?thesis
    by (auto simp: Opened Replay_def empty_result_def split: sum.splits)
qed

definition loads_records :: "string \<Rightarrow> dir_entry \<Rightarrow> bool" where
  "loads_records dir e \<longleftrightarrow>
     (case a_run (log_records dir e) a_init of
        Inl x \<Rightarrow> load_entry dir e = Inl (Wrapped ''wal: applying record'' x)
      | Inr a \<Rightarrow>
          (case Open (log_path dir (de_Name e)) (length (encode_all (log_records dir e))) (de_env e) of
             Inl err \<Rightarrow> load_entry dir e = Inl err
           | Inr l \<Rightarrow> \<exists>q. load_entry dir e = Inr q \<and> queue_inv q \<and> absq q = a \<and> q_log q = l))"

lemma verified_loads:
  assumes v: "verify_error dir e = None"
  shows "log_records dir e = [] \<Longrightarrow> load_entry dir e = Inl (ErrIncompleteQueue (log_path dir (de_Name e)))"
    and "headed (log_records dir e) \<Longrightarrow> 2 ^ 32 + 1 + int (length (log_records dir e)) \<le> max_i64 \<Longrightarrow> loads_records dir e"
proof -
  let ?es = "log_records dir e" and ?path = "log_path dir (de_Name e)"
  let ?q = "(newQueue (path_join dir (de_Name e)))\<lparr>q_path := ?path\<rparr>"
  let ?R = "Replay ?path (de_file e) (load_step (de_clock e)) (False, ?q)"
  note R = verified_replay [OF v, of "load_step (de_clock e)" "(False, ?q)"]
  note L = Load_def [of dir "de_Name e" "de_file e" "de_env e" "de_clock e" "de_now1 e" "de_now2 e", unfolded Let_def]
  show "load_entry dir e = Inl (ErrIncompleteQueue ?path)" if "?es = []"
    using R that by (auto simp: L)
  show "loads_records dir e" if hd: "headed ?es" "2 ^ 32 + 1 + int (length ?es) \<le> max_i64"
  proof (cases "feed (load_step (de_clock e)) 0 ?es (False, ?q)")
    case (Inl x)
    then show ?thesis
      using R feed_headed [OF hd, where clock = "de_clock e" and dir = "path_join dir (de_Name e)" and path = ?path]
      by (auto simp: loads_records_def L prod.case_eq_if)
  next
    case (Inr s')
    obtain q where q: "s' = (True, q)" "queue_inv q" "a_run ?es a_init = Inr (absq q)"
      using Inr feed_headed [OF hd, where clock = "de_clock e" and dir = "path_join dir (de_Name e)" and path = ?path]
      by (cases s') auto
    then show ?thesis using R Inr by (auto simp: loads_records_def L split: sum.splits)
  qed
qed

text \<open>C25: \<open>verify\<close> and the server agree. A log that \<open>verify\<close> fails keeps the server from starting; and when the
  server refuses with the exit code of corruption, \<open>verify\<close> reports a failure. So the operator who is told to
  run \<open>verify\<close> finds the log that stopped the server. A log that \<open>verify\<close> passes is loaded from the records
  \<open>verify\<close> has counted: \<open>verify\<close> checks the frames and not what the records say, so the server loads
  the log, in the state of the specification after these records, exactly when the specification accepts
  them and the system opens the file. When \<open>verify\<close> passes every log, each log holds no record yet or
  records the specification accepts after one META record, and every file opens, the server starts with
  all of their queues.\<close>

theorem verify_agrees_with_server:
  assumes names: "distinct (map de_Name entries)" and os: "\<And>e. e \<in> set entries \<Longrightarrow> honest e"
  shows "(snd (runVerify dir (Inr entries)) = 2 \<longrightarrow>
      (\<exists>err. OpenManager dir None (Inr entries) = Inl err) \<and>
      runServe dir None (Inr entries) serve ns close_errs \<in> {1, 2}) \<and>
    (runServe dir None (Inr entries) serve ns close_errs = 2 \<longrightarrow> snd (runVerify dir (Inr entries)) = 2) \<and>
    snd (runVerify dir (Inr entries)) \<in> {0, 2} \<and>
    (snd (runVerify dir (Inr entries)) = 0 \<longrightarrow>
      (\<forall>e \<in> set entries. has_log e \<and> headed (log_records dir e) \<and> few_records (length (log_records dir e)) \<longrightarrow>
         loads_records dir e) \<and>
      ((\<forall>e \<in> set entries. has_log e \<longrightarrow> log_records dir e = [] \<or>
          headed (log_records dir e) \<and> few_records (length (log_records dir e)) \<and>
          (\<exists>a l. a_run (log_records dir e) a_init = Inr a \<and>
             Open (log_path dir (de_Name e)) (length (encode_all (log_records dir e))) (de_env e) = Inr l)) \<longrightarrow>
       (\<exists>m. OpenManager dir None (Inr entries) = Inr m \<and>
          (\<forall>e \<in> set entries. has_log e \<longrightarrow> log_records dir e \<noteq> [] \<longrightarrow>
             (\<exists>q. Get (de_Name e) m = Some q \<and> queue_inv q \<and> a_run (log_records dir e) a_init = Inr (absq q))))))"
proof (intro conjI impI)
  assume "snd (runVerify dir (Inr entries)) = 2"
  then obtain e where "e \<in> set entries" "has_log e" "verify_error dir e \<noteq> None"
    by (auto simp: runVerify_iff split: if_splits)
  then have "load_fails dir e" using load_and_verify(1) [OF os] by blast
  then have "\<not> (\<exists>m. OpenManager dir None (Inr entries) = Inr m)"
    using OpenManager_iff [OF names] \<open>e \<in> set entries\<close> by blast
  then show x: "\<exists>err. OpenManager dir None (Inr entries) = Inl err"
    by (cases "OpenManager dir None (Inr entries)") auto
  then show "runServe dir None (Inr entries) serve ns close_errs \<in> {1, 2}" by (auto simp: runServe_def)
next
  assume "runServe dir None (Inr entries) serve ns close_errs = 2"
  then obtain err where o: "OpenManager dir None (Inr entries) = Inl err" and c: "is_corruption err"
    by (auto simp: runServe_def split: sum.splits if_splits prod.splits serve_event.splits option.splits)
  from OpenManager_error [OF o] obtain e x where e: "e \<in> set entries" "has_log e" "load_entry dir e = Inl x"
    "err = Wrapped ''loading queue'' x" by blast
  then have "verify_error dir e \<noteq> None" using load_and_verify(2) [OF os [OF e(1)] e(3)] c by simp
  then show "snd (runVerify dir (Inr entries)) = 2" using e by (auto simp: runVerify_iff)
next
  assume "snd (runVerify dir (Inr entries)) = 0"
  then have v: "verify_error dir e = None" if "e \<in> set entries" "has_log e" for e
    using that by (auto simp: runVerify_iff split: if_splits)
  show loads: "\<forall>e \<in> set entries. has_log e \<and> headed (log_records dir e) \<and> few_records (length (log_records dir e)) \<longrightarrow>
      loads_records dir e"
    using verified_loads(2) [OF v] by (simp add: few_records_def)
  assume good: "\<forall>e \<in> set entries. has_log e \<longrightarrow> log_records dir e = [] \<or>
      headed (log_records dir e) \<and> few_records (length (log_records dir e)) \<and>
      (\<exists>a l. a_run (log_records dir e) a_init = Inr a \<and>
         Open (log_path dir (de_Name e)) (length (encode_all (log_records dir e))) (de_env e) = Inr l)"
  have loaded: "\<exists>q. load_entry dir e = Inr q \<and> queue_inv q \<and> a_run (log_records dir e) a_init = Inr (absq q)"
    if "e \<in> set entries" "has_log e" "log_records dir e \<noteq> []" for e
    using good loads that by (fastforce simp: loads_records_def)
  have "\<not> load_fails dir e" if "e \<in> set entries" for e
    using loaded [OF that] verified_loads(1) [OF v [OF that]] by (cases "log_records dir e = []") force+
  then obtain m where m: "OpenManager dir None (Inr entries) = Inr m" using OpenManager_iff [OF names] by blast
  then obtain qs where qs: "load_queues dir entries [] = Inr qs" "m = \<lparr>mg_root = dir, mg_queues = qs\<rparr>"
    by (auto simp: OpenManager_def bindE_eq_Inr)
  have "\<exists>q. Get (de_Name e) m = Some q \<and> queue_inv q \<and> a_run (log_records dir e) a_init = Inr (absq q)"
    if "e \<in> set entries" "has_log e" "log_records dir e \<noteq> []" for e
    using load_queues_Inr [OF qs(1) names that(1,2)] loaded [OF that] by (auto simp: Get_def qs(2))
  with m show "\<exists>m. OpenManager dir None (Inr entries) = Inr m \<and>
      (\<forall>e \<in> set entries. has_log e \<longrightarrow> log_records dir e \<noteq> [] \<longrightarrow>
         (\<exists>q. Get (de_Name e) m = Some q \<and> queue_inv q \<and> a_run (log_records dir e) a_init = Inr (absq q)))"
    by blast
qed (simp add: runVerify_iff)

definition sample_dir :: "byte list \<Rightarrow> dir_entry list" where
  "sample_dir contents = [\<lparr>de_Name = ''jobs'', de_IsDir = True, de_stat_ok = True, de_file = Opened contents no_io,
     de_env = sample_env\<lparr>oe_OpenFile := Inr contents\<rparr>, de_clock = (\<lambda>_. 0), de_now1 = 0, de_now2 = 0\<rparr>]"

lemma sample_dir_honest: "e \<in> set (sample_dir contents) \<Longrightarrow> honest e"
  by (simp add: sample_dir_def honest_def Open_def sample_env_def syncDir_def)

lemma sample_dir_records:
  assumes "e \<in> set (sample_dir (encode_all es))" and "list_all wf_entry es"
  shows "verify_error ''data'' e = None" and "log_records ''data'' e = es"
proof -
  have "feed gather off es rs = Inr (rs @ es)" for off rs
    by (induction es arbitrary: off rs) (auto simp: gather_def)
  from replay_complete [OF assms(2) this [of 0 "[]"]] show "log_records ''data'' e = es"
    using assms(1) by (auto simp: sample_dir_def log_records_def)
  have "\<exists>cs. feed tally off es cs0 = Inr cs" for off cs0
    by (induction es arbitrary: off cs0) (auto simp: tally_def)
  then obtain cs where "feed tally 0 es (\<lambda>_. 0) = Inr cs" by blast
  from replay_complete [OF assms(2) this] show "verify_error ''data'' e = None"
    using assms(1) by (auto simp: sample_dir_def)
qed

text \<open>A damaged log stops the server; the log of a queue just created does not.\<close>

theorem verify_agrees_with_server_witness:
  "runServe ''data'' None (Inr (sample_dir sample_damaged)) (\<lambda>m. (m, Signalled)) [] (\<lambda>_. None) \<in> {1, 2} \<and>
   (\<exists>m q. OpenManager ''data'' None (Inr (sample_dir (encode_all [(TypeMeta, sample_meta)]))) = Inr m \<and>
      Get ''jobs'' m = Some q \<and> queue_inv q)"
proof
  have names: "distinct (map de_Name (sample_dir contents))" for contents by (simp add: sample_dir_def)
  have "snd (runVerify ''data'' (Inr (sample_dir sample_damaged))) = 2"
    using sample_damaged_replay [of "log_path ''data'' ''jobs''"] by (auto simp: runVerify_iff sample_dir_def)
  then show "runServe ''data'' None (Inr (sample_dir sample_damaged)) (\<lambda>m. (m, Signalled)) [] (\<lambda>_. None) \<in> {1, 2}"
    using verify_agrees_with_server [OF names [of sample_damaged] sample_dir_honest [of _ sample_damaged]] by blast
  let ?es = "[(TypeMeta, sample_meta)]"
  let ?d = "sample_dir (encode_all ?es)"
  have "few_records (0 + 1)" by (simp add: few_records_def max_i64_def)
  with life_accounted [OF sample_life [of 0]] obtain a where
    es: "list_all wf_entry ?es" "a_run ?es a_init = Inr a" by (auto simp: accounted_def)
  note r = sample_dir_records [OF _ es(1)]
  have ok: "snd (runVerify ''data'' (Inr ?d)) = 0" using r(1) by (auto simp: runVerify_iff)
  have opens: "\<exists>l. Open path (length (encode_all ?es)) (de_env e) = Inr l" if "e \<in> set ?d" for e path
    using that by (simp add: sample_dir_def Open_def sample_env_def syncDir_def)
  have e: "log_records ''data'' e = ?es" if "e \<in> set ?d" for e using r(2) [OF that] .
  have "\<forall>e \<in> set ?d. has_log e \<longrightarrow> log_records ''data'' e = [] \<or>
      headed (log_records ''data'' e) \<and> few_records (length (log_records ''data'' e)) \<and>
      (\<exists>a l. a_run (log_records ''data'' e) a_init = Inr a \<and>
         Open (log_path ''data'' (de_Name e)) (length (encode_all (log_records ''data'' e))) (de_env e) = Inr l)"
    using opens es(2) \<open>few_records (0 + 1)\<close> by (simp add: e)
  with verify_agrees_with_server [OF names [of "encode_all ?es"] sample_dir_honest [of _ "encode_all ?es"], of "''data''"] ok
  obtain m where
    m: "OpenManager ''data'' None (Inr ?d) = Inr m"
      "\<forall>e \<in> set ?d. has_log e \<longrightarrow> log_records ''data'' e \<noteq> [] \<longrightarrow>
         (\<exists>q. Get (de_Name e) m = Some q \<and> queue_inv q \<and> a_run (log_records ''data'' e) a_init = Inr (absq q))" by blast
  have "hd ?d \<in> set ?d" "has_log (hd ?d)" "de_Name (hd ?d) = ''jobs''" by (simp_all add: sample_dir_def)
  with m(2) e [of "hd ?d"] obtain q where "Get ''jobs'' m = Some q" "queue_inv q" by fastforce
  with m(1) show "\<exists>m q. OpenManager ''data'' None (Inr ?d) = Inr m \<and> Get ''jobs'' m = Some q \<and> queue_inv q" by blast
qed

end
