(* ===== verification/Lab_Props.thy ===== *)
theory Lab_Props
  imports Supervisor Command_Props
begin

text \<open>
  The corruption lab of the demo against the reader of the log: a flipped byte is refused with the offset of
  its record, a torn tail is dropped, and what \<open>Repair\<close> does with the report of \<open>verify\<close>.
\<close>

unbundle bit_operations_syntax

section \<open>Damage and loading\<close>

lemma flip_neq: "(x :: byte) XOR 0xff \<noteq> x"
proof
  assume "x XOR 0xff = x"
  then have "x XOR (x XOR 0xff) = 0" by simp
  then show False by (simp flip: xor.assoc)
qed

text \<open>A byte of a log changed: loading names the record it is in.\<close>

lemma Load_damaged:
  assumes wf: "list_all wf_entry es" and hd: "headed es" and run: "a_run es a_init = Inr a"
    and len: "2 ^ 32 + 1 + int (length es) \<le> max_i64"
    and i: "i < length (encode_all es)" "encode_all es ! i \<noteq> b"
  shows "\<exists>es1 e es2 r. es = es1 @ e # es2 \<and> length (encode_all es1) \<le> i \<and> i < length (encode_all (es1 @ [e])) \<and>
    Load root name (Opened ((encode_all es)[i := b]) no_io) env clock t1 t2 =
      Inl (CorruptionError (log_path root name) (length (encode_all es1)) r)"
proof -
  from encode_all_position [OF i(1)] obtain es1 t p es2 j where es: "es = es1 @ (t, p) # es2"
    and j: "j < EncodedLen p" "i = length (encode_all es1) + j" "encode_all es ! i = Encode [] t p ! j" by blast
  let ?q = "(newQueue (path_join root name))\<lparr>q_path := log_path root name\<rparr>"
  have "prefix es1 es" using es by simp
  from feed_prefix [OF hd run len this] obtain s' where "feed (load_step clock) 0 es1 (False, ?q) = Inr s'" by blast
  moreover have "Encode [] t p ! j \<noteq> b" using i(2) j(3) by simp
  ultimately obtain r where "Replay (log_path root name) (Opened ((encode_all es)[i := b]) no_io) (load_step clock) (False, ?q) =
      (\<lparr>v_ValidBytes = 0, v_Records = length es1, v_Torn = None\<rparr>, s',
       Some (CorruptionError (log_path root name) (length (encode_all es1)) r))"
    using replay_damaged [OF wf es _ j(1)] j(2) by metis
  then have "Load root name (Opened ((encode_all es)[i := b]) no_io) env clock t1 t2 =
      Inl (CorruptionError (log_path root name) (length (encode_all es1)) r)"
    by (cases s') (simp add: Load_def Let_def)
  then show ?thesis using es j by (intro exI [of _ es1] exI [of _ "(t, p)"] exI [of _ es2] exI [of _ r])
    (simp add: encode_all_append encode_all_Cons)
qed

text \<open>An unfinished record after a log: loading drops it, and the queue is that of the log.\<close>

lemma Load_torn:
  assumes wf: "list_all wf_entry es" and hd: "headed es" and run: "a_run es a_init = Inr a"
    and len: "2 ^ 32 + 1 + int (length es) \<le> max_i64"
    and rec: "wf_entry (t, p)" "0 < n" "n < EncodedLen p" and env: "env_ok (encode_all es @ take n (Encode [] t p)) env"
  shows "\<exists>q. Load root name (Opened (encode_all es @ take n (Encode [] t p)) no_io) env clock t1 t2 = Inr q \<and>
    queue_inv q \<and> absq q = a \<and> l_file (q_log q) = encode_all es"
proof -
  let ?q = "(newQueue (path_join root name))\<lparr>q_path := log_path root name\<rparr>"
  from feed_prefix [OF hd run len, of es clock "log_path root name" "path_join root name"] obtain s' where
    fd: "feed (load_step clock) 0 es (False, ?q) = Inr s'" by auto
  with feed_headed [OF hd len, where clock = clock and dir = "path_join root name" and path = "log_path root name"] obtain q where
    q: "s' = (True, q)" "queue_inv q" "a_run es a_init = Inr (absq q)" by (cases s') auto
  have "Open (log_path root name) (length (encode_all es)) env =
      Inr (fresh_log (log_path root name) (encode_all es) (length (encode_all es)))"
    using Open_ok [OF env, of "length (encode_all es)"] by simp
  with replay_torn [OF wf fd rec, of "log_path root name"] q show ?thesis
    using run by (simp add: Load_def Let_def) (simp add: fresh_log_def)
qed

text \<open>The corruption lab. On the log of any queue, at least 64 bytes long, with the server stopped: flipping a
  byte in the middle makes \<open>Load\<close> fail with the offset of the record that holds the byte, so the server does
  not start and exits with code 2; leaving part of a record at the end keeps every record: \<open>Load\<close> succeeds,
  the state is that of the log, and the file is cut back to it.\<close>

lemma corruption_lab:
  assumes wf: "list_all wf_entry es" and hd: "headed es" and run: "a_run es a_init = Inr a" and room: "few_records (length es)"
    and size: "64 \<le> length (encode_all es)" and stopped: "\<not> sv_running s"
    and log: "files (log_path (sv_dir s) name) = Some (encode_all es)"
    and dir: "de_Name e = name" "de_IsDir e" "de_stat_ok e"
    and torn_env: "env_ok (encode_all es @ torn_fragment) env"
  shows "(\<exists>files' data fl. FlipByteMidLog None name s files = (files', Inr fl) \<and>
      files' (log_path (sv_dir s) name) = Some data \<and>
      (\<exists>off r. off \<le> fl_off fl \<and>
         load_entry (sv_dir s) (e\<lparr>de_file := Opened data no_io\<rparr>) = Inl (CorruptionError (log_path (sv_dir s) name) off r)) \<and>
      runServe (sv_dir s) None (Inr [e\<lparr>de_file := Opened data no_io\<rparr>]) serve ns errs = 2) \<and>
    (\<exists>files' data q. TruncateTailMidRecord None None name s files = (files', Inr (length (encode_all es))) \<and>
      files' (log_path (sv_dir s) name) = Some data \<and>
      Load (sv_dir s) name (Opened data no_io) env clock t1 t2 = Inr q \<and> queue_inv q \<and> absq q = a \<and>
      l_file (q_log q) = encode_all es)"
proof (intro conjI)
  let ?data = "encode_all es" and ?off = "length (encode_all es) div 2"
  let ?flip = "?data[?off := ?data ! ?off XOR 0xff]"
  have len: "2 ^ 32 + 1 + int (length es) \<le> max_i64" using room by (simp add: few_records_def)
  have off: "?off < length ?data" "?data ! ?off \<noteq> ?data ! ?off XOR 0xff"
    using size flip_neq [of "?data ! ?off"] by auto
  from Load_damaged [OF wf hd run len off, of "sv_dir s" name "de_env e" "de_clock e" "de_now1 e" "de_now2 e"] obtain es1 r where
    l: "length (encode_all es1) \<le> ?off"
    "load_entry (sv_dir s) (e\<lparr>de_file := Opened ?flip no_io\<rparr>) =
       Inl (CorruptionError (log_path (sv_dir s) name) (length (encode_all es1)) r)"
    using dir(1) by auto
  have "FlipByteMidLog None name s files =
      (files(log_path (sv_dir s) name \<mapsto> ?flip), Inr \<lparr>fl_off = ?off, fl_old = ?data ! ?off, fl_new = ?data ! ?off XOR 0xff\<rparr>)"
    using stopped log size off(1) by (simp add: FlipByteMidLog_def Let_def)
  moreover have "runServe (sv_dir s) None (Inr [e\<lparr>de_file := Opened ?flip no_io\<rparr>]) serve ns errs = 2"
    using l(2) dir by (simp add: runServe_def OpenManager_def)
  ultimately show "\<exists>files' data fl. FlipByteMidLog None name s files = (files', Inr fl) \<and>
      files' (log_path (sv_dir s) name) = Some data \<and>
      (\<exists>off r. off \<le> fl_off fl \<and>
         load_entry (sv_dir s) (e\<lparr>de_file := Opened data no_io\<rparr>) = Inl (CorruptionError (log_path (sv_dir s) name) off r)) \<and>
      runServe (sv_dir s) None (Inr [e\<lparr>de_file := Opened data no_io\<rparr>]) serve ns errs = 2"
    using l by (intro exI [of _ "files(log_path (sv_dir s) name \<mapsto> ?flip)"] exI [of _ ?flip]
        exI [of _ "\<lparr>fl_off = ?off, fl_old = ?data ! ?off, fl_new = ?data ! ?off XOR 0xff\<rparr>"]) auto
  have "wf_entry (TypeEnqueue, replicate 64 120)" "0 < HeaderSize + 3" "HeaderSize + 3 < EncodedLen (replicate 64 (120 :: byte))"
    by (simp_all add: wf_entry_def Type_valid_def rtype_defs MaxRecordSize_def HeaderSize_def EncodedLen_def)
  from Load_torn [OF wf hd run len this torn_env [unfolded torn_fragment_def], of "sv_dir s" name clock t1 t2]
  show "\<exists>files' data q. TruncateTailMidRecord None None name s files = (files', Inr (length (encode_all es))) \<and>
      files' (log_path (sv_dir s) name) = Some data \<and>
      Load (sv_dir s) name (Opened data no_io) env clock t1 t2 = Inr q \<and> queue_inv q \<and> absq q = a \<and>
      l_file (q_log q) = encode_all es"
    using stopped log by (simp add: TruncateTailMidRecord_def Let_def flip: torn_fragment_def)
qed

lemma sample_meta_long: "51 \<le> length sample_meta"
  by (simp add: sample_meta_def encodeConfig_def config_members_def sample_valid_def show_string_def escape_plain plain_def)

definition sample_lab_entry :: dir_entry where
  "sample_lab_entry = \<lparr>de_Name = ''jobs'', de_IsDir = True, de_stat_ok = True, de_file = NotExist,
     de_env = sample_env, de_clock = (\<lambda>_. 0), de_now1 = 0, de_now2 = 0\<rparr>"

section \<open>Repairing by the report\<close>

lemma str_index_here: "str_index pat (pat @ s) = Some 0"
  by (subst str_index.simps) simp

lemma str_index_next:
  "take (length pat) (c # s) \<noteq> pat \<Longrightarrow> str_index pat (c # s) = map_option Suc (str_index pat s)"
  by (subst str_index.simps) simp

text \<open>The first offset in a report is found whatever follows it.\<close>

lemma str_index_prefix:
  "(\<forall>i < length pre. take (length pat) (drop i (pre @ pat)) \<noteq> pat) \<Longrightarrow>
   str_index pat (pre @ pat @ s) = Some (length pre)"
proof (induction pre)
  case (Cons c pre)
  have "take (length pat) (c # pre @ pat) \<noteq> pat" using Cons.prems by auto
  moreover have "take (length pat) ((c # pre @ pat) @ s) = take (length pat) (c # pre @ pat)"
    by (subst take_append) simp
  ultimately have "take (length pat) (c # (pre @ pat @ s)) \<noteq> pat" by simp
  moreover have "str_index pat (pre @ pat @ s) = Some (length pre)"
    by (rule Cons.IH) (use Cons.prems in \<open>auto dest: spec [of _ "Suc _"]\<close>)
  ultimately show ?case by (simp add: str_index_next)
qed (simp add: str_index_here)

lemma takeWhile_digits: "list_all is_digit ds \<Longrightarrow> \<not> is_digit c \<Longrightarrow> takeWhile is_digit (ds @ c # s) = ds"
  by (induction ds) auto

text \<open>The text of a report up to the offset of its first line, a corrupt log at \<open>path\<close>.\<close>

definition report_head :: "string \<Rightarrow> string" where
  "report_head path = ''FAIL  '' @ path @ end_line @ ''      wal: corrupt record in '' @ path @ '' ''"

lemma parseOffset_first:
  assumes clear: "\<forall>i < length (report_head path). take (length marker) (drop i (report_head path @ marker)) \<noteq> marker"
    and off: "int off \<le> max_i64"
  shows "parseOffset (concat (map (line_text txt why) (FAIL path (CorruptionError path off r) # ls)) @ rest) = Some (int off)"
proof -
  obtain tl where rep: "concat (map (line_text txt why) (FAIL path (CorruptionError path off r) # ls)) @ rest =
      report_head path @ marker @ show_nat off @ CHR '':'' # tl"
    by (simp add: line_text_def error_text_def corruption_Error_def report_head_def marker_def)
  have "takeWhile is_digit (show_nat off @ CHR '':'' # tl) = show_nat off"
    using show_nat_digits [of off] by (intro takeWhile_digits) (simp_all add: is_digit_def)
  moreover have "parse_int_lit (show_nat off) = Some (int off)"
    using parse_int_lit_show [of "int off"] off by (simp add: show_int_def in_i64_def min_i64_def)
  ultimately show ?thesis
    unfolding rep parseOffset_def by (simp add: str_index_prefix [OF clear])
qed

text \<open>
  \<open>Repair\<close> does not look at which log the report names: it cuts the log of the queue it is given at the first
  offset in the report, also when that is the offset of another queue's log at \<open>path\<close>.
\<close>

lemma repair_cuts_at_first_offset:
  assumes clear: "\<forall>i < length (report_head path). take (length marker) (drop i (report_head path @ marker)) \<noteq> marker"
    and off: "int off \<le> max_i64" "off \<le> length data" and stopped: "\<not> sv_running s" and name: "name \<noteq> ''''"
    and report: "report = concat (map (line_text txt why) (FAIL path (CorruptionError path off r) # ls)) @ rest"
    and log: "files (log_path (sv_dir s) name) = Some data" "files (backup_path (log_path (sv_dir s) name) (re_now env)) = None"
    and env: "repair_works env"
  shows "\<exists>s' files'. Supervisor_Repair (Some (report, 2)) env summary name s files = ((s', files'), None) \<and>
    files' (log_path (sv_dir s) name) = Some (take off data)"
proof -
  have "parseOffset report = Some (int off)" unfolding report by (rule parseOffset_first [OF clear off(1)])
  moreover have "runRepair (sv_dir s) name (int off) env files =
      (files(backup_path (log_path (sv_dir s) name) (re_now env) \<mapsto> data, log_path (sv_dir s) name \<mapsto> take off data), 0)"
    using log name env off(2) backup_path_neq [of "log_path (sv_dir s) name" "re_now env"]
    by (simp add: runRepair_def copyFile_def repair_works_def Let_def)
  ultimately show ?thesis using stopped by (simp add: Supervisor_Repair_def Supervisor_Verify_def)
qed

text \<open>For one, \<open>path\<close> may be the log of a queue named \<open>fifo\<close>.\<close>

lemma report_head_clear:
  "\<forall>i < length (report_head ''data/fifo/wal.log''). take (length marker) (drop i (report_head ''data/fifo/wal.log'' @ marker)) \<noteq> marker"
  by code_simp

end
