(* ===== verification/Dashboard_Props.thy ===== *)
theory Dashboard_Props
  imports Dashboard Lab_Props Client_Wire
begin

text \<open>
  The dashboard against the server: the queues it makes sure of, and the corruption lab from the request to the
  explanation it shows, with the server's own \<open>verify\<close> and start behind it.
\<close>

section \<open>The demo's queues\<close>

lemma client_CreateQueue_None:
  "client_CreateQueue http c = None \<longleftrightarrow>
   (\<exists>status raw long. http (CreateQueue_request c) = Answer status raw long None \<and> (status < 400 \<or> status = StatusConflict))"
proof (cases "http (CreateQueue_request c)")
  case (Answer status raw long err)
  then show ?thesis by (cases err) (auto simp: client_CreateQueue_def client_do_def)
qed (simp add: client_CreateQueue_def client_do_def)

lemma ensure_loop_None: "ensure_loop net defs = None \<longleftrightarrow> (\<forall>def \<in> set defs. client_CreateQueue (net (qd_Name def)) (QueueConfig_of def) = None)"
  by (induction defs) (auto split: option.splits)

abbreviation served_config :: "QueueDef \<Rightarrow> config" where
  "served_config def \<equiv> config_of (QueueConfig_of def)"

text \<open>Each of them has a name and an ordering that \<open>Validate\<close> lets through as they are.\<close>

lemma QueueDefs_valid: "def \<in> set QueueDefs \<Longrightarrow> Validate (served_config def) = Inr (served_config def)"
  by (auto simp: QueueDefs_def QueueConfig_of_def config_of_def Validate_def validate_ordering_def validate_attempts_def
      validate_visibility_def validate_dedup_def validate_aging_def alnum_def name_char_def Let_def)

lemma QueueDefs_plain:
  assumes "def \<in> set QueueDefs"
  shows "nameRE (qd_Name def)" "qd_Ordering def = FIFO \<or> qd_Ordering def = LIFO" "config_ranges (served_config def)"
  using assms
  by (auto simp: QueueDefs_def QueueConfig_of_def config_of_def config_ranges_def in_i64_def min_i64_def max_i64_def alnum_def name_char_def)

lemma QueueDefs_decoded:
  assumes "def \<in> set QueueDefs"
  shows "decode set_create_field zero_config (bytes_of (hr_Body (CreateQueue_request (QueueConfig_of def)))) = Inr (served_config def)"
proof -
  note P = QueueDefs_plain [OF assms]
  have "list_all plain (qd_Ordering def)" using P(2) by (auto simp: plain_def)
  then show ?thesis
    using P nameRE_plain [OF P(1)]
    by (intro decode_create fits_create) (simp_all add: QueueConfig_of_def)
qed

text \<open>C28: the demo's queues. \<open>EnsureQueues\<close> reports no error exactly when every creation is answered with success or with
  409; and the server has no other objection to what it asks for: each request takes the route of
  \<open>createQueue\<close>, is decoded to the configuration the demo means, which \<open>Validate\<close> leaves as it is, and is
  answered with 409 when the queue exists, and goes on to \<open>Create\<close> with that configuration when it does not. So
  it can be called again and again.\<close>

theorem ensure_queues_repeatable:
  "(EnsureQueues net = None \<longleftrightarrow>
     (\<forall>def \<in> set QueueDefs. \<exists>status raw long.
        net (qd_Name def) (CreateQueue_request (QueueConfig_of def)) = Answer status raw long None \<and>
        (status < 400 \<or> status = StatusConflict))) \<and>
   (\<forall>def \<in> set QueueDefs.
      taken (CreateQueue_request (QueueConfig_of def)) = Handler CreateQueueHandler [] \<and>
      valid_config (served_config def) \<and> c_Name (served_config def) = qd_Name def \<and>
      createQueue_begin (bytes_of (hr_Body (CreateQueue_request (QueueConfig_of def)))) stat_ok f env m =
        (if Get (qd_Name def) m \<noteq> None then Inl (writeError StatusConflict (EngineError (ErrQueueExists (qd_Name def))))
         else case Create_begin (mg_root m) (served_config def) stat_ok f env of
                Inl err \<Rightarrow> Inl (create_error err)
              | Inr (q, batch) \<Rightarrow> Inr (qd_Name def, q, batch)))"
proof (intro conjI ballI)
  show "EnsureQueues net = None \<longleftrightarrow>
     (\<forall>def \<in> set QueueDefs. \<exists>status raw long.
        net (qd_Name def) (CreateQueue_request (QueueConfig_of def)) = Answer status raw long None \<and>
        (status < 400 \<or> status = StatusConflict))"
    by (simp only: EnsureQueues_def ensure_loop_None client_CreateQueue_None)
next
  fix def assume d: "def \<in> set QueueDefs"
  show "taken (CreateQueue_request (QueueConfig_of def)) = Handler CreateQueueHandler []" by (rule taken_server)
  show "valid_config (served_config def)" by (rule Validate_valid [OF QueueDefs_valid [OF d]])
  show n: "c_Name (served_config def) = qd_Name def" by (simp add: config_of_def QueueConfig_of_def)
  have "Manager_Create_begin (served_config def) stat_ok f env m =
      (if Get (qd_Name def) m \<noteq> None then Inl (ErrQueueExists (qd_Name def))
       else Create_begin (mg_root m) (served_config def) stat_ok f env)"
    by (simp add: Manager_Create_begin_def QueueDefs_valid [OF d] n Get_def)
  then show "createQueue_begin (bytes_of (hr_Body (CreateQueue_request (QueueConfig_of def)))) stat_ok f env m =
        (if Get (qd_Name def) m \<noteq> None then Inl (writeError StatusConflict (EngineError (ErrQueueExists (qd_Name def))))
         else case Create_begin (mg_root m) (served_config def) stat_ok f env of
                Inl err \<Rightarrow> Inl (create_error err)
              | Inr (q, batch) \<Rightarrow> Inr (qd_Name def, q, batch))"
    by (auto simp: createQueue_begin_def QueueDefs_decoded [OF d] n create_error_def split: sum.splits)
qed

text \<open>A server that has all the queues.\<close>

theorem ensure_queues_repeatable_witness:
  "EnsureQueues (\<lambda>_ _. Answer StatusConflict (ErrorBody InvalidBody) False None) = None \<and> valid_config (served_config (hd QueueDefs)) \<and>
   c_Name (served_config (hd QueueDefs)) = ''fifo''"
proof -
  have "hd QueueDefs \<in> set QueueDefs" "qd_Name (hd QueueDefs) = ''fifo''" by (simp_all add: QueueDefs_def)
  moreover have "Ex Not" by (rule exI [of Not False]) simp
  ultimately show ?thesis
    using ensure_queues_repeatable [of "\<lambda>_ _. Answer StatusConflict (ErrorBody InvalidBody) False None"] by simp
qed

section \<open>The corruption lab from end to end\<close>

text \<open>
  The entries of the data directory over given files: the queue \<open>name\<close> with its log as it is there, and the
  others.
\<close>

definition entries_of :: "string \<Rightarrow> dir_entry \<Rightarrow> dir_entry list \<Rightarrow> fsdir \<Rightarrow> dir_entry list" where
  "entries_of dir e others files =
     e\<lparr>de_file := (case files (log_path dir (de_Name e)) of None \<Rightarrow> NotExist | Some data \<Rightarrow> Opened data no_io)\<rparr> # others"

text \<open>
  What the lab relies on: its own writes succeed, a server it kills is gone in time, \<open>verify\<close> is run on those entries
  and reports with the exit code, and a started server becomes healthy exactly when it can open the directory.
\<close>

definition lab_works :: "string \<Rightarrow> (fsdir \<Rightarrow> dir_entry list) \<Rightarrow> lab_env \<Rightarrow> bool" where
  "lab_works dir entries env \<longleftrightarrow> le_stat env = None \<and> le_write env = None \<and> ch_gone (le_kill env) \<and>
     (\<forall>files. (\<exists>report. le_verify env files = Some (report, snd (runVerify dir (Inr (entries files))))) \<and>
        ch_exec (le_start env files) = None \<and>
        (\<forall>logs. start_loop logs (ch_polls (le_start env files)) = Started \<longleftrightarrow>
           (\<exists>m. OpenManager dir None (Inr (entries files)) = Inr m)))"

text \<open>The other queues are in order.\<close>

definition in_order :: "string \<Rightarrow> dir_entry list \<Rightarrow> bool" where
  "in_order dir others \<longleftrightarrow> (\<forall>x \<in> set others. \<not> load_fails dir x \<and> (has_log x \<longrightarrow> verify_error dir x = None))"

lemma start_child_started:
  assumes "\<not> sv_running (db_sup d)" and "ch_exec c = None"
  shows "\<exists>logs. snd (start_child c d) = Started \<longleftrightarrow> start_loop logs (ch_polls c) = Started"
proof -
  let ?s = "(log_line (ch_banner c) (db_sup d))\<lparr>sv_started := True, sv_running := True, sv_lastExit := '''',
     sv_logs := fold ring_Write (ch_output c) (sv_logs (log_line (ch_banner c) (db_sup d)))\<rparr>"
  show ?thesis
    using assms
    by (intro exI [of _ "lastLogLines 6 ?s"]) (simp add: start_child_def Start_def Let_def split: start_result.splits)
qed

lemma stop_for_lab:
  assumes "sv_running (db_sup d) \<Longrightarrow> sv_started (db_sup d)" and "ch_gone c"
  shows "\<not> sv_running (db_sup (stop_child c d))" "sv_dir (db_sup (stop_child c d)) = sv_dir (db_sup d)"
  using assms by (auto simp: stop_child_def Kill_def Let_def)

lemma take_explain:
  "take 10 (explain ''tail'' True) \<noteq> ''Unexpected''" "take 10 (explain ''midlog'' False) \<noteq> ''Unexpected''"
  by (simp_all add: explain_def)

lemma entries_of_names: "map de_Name (entries_of dir e others files) = de_Name e # map de_Name others"
  by (simp add: entries_of_def)

text \<open>What the tool and the server make of a log that cannot be loaded, and of one that can.\<close>

lemma refused_by_both:
  assumes names: "distinct (map de_Name (e # others))" and e: "de_IsDir e" "de_stat_ok e"
    and os: "honest (e\<lparr>de_file := NotExist\<rparr>)"
    and data: "files (log_path dir (de_Name e)) = Some data"
    and bad: "load_entry dir (e\<lparr>de_file := Opened data no_io\<rparr>) = Inl err" "is_corruption err"
  shows "snd (runVerify dir (Inr (entries_of dir e others files))) = 2"
    "\<nexists>m. OpenManager dir None (Inr (entries_of dir e others files)) = Inr m"
proof -
  let ?e = "e\<lparr>de_file := Opened data no_io\<rparr>"
  have E: "entries_of dir e others files = ?e # others" using data by (simp add: entries_of_def)
  have h: "honest ?e" using os by (simp add: honest_def)
  have "verify_error dir ?e \<noteq> None" by (rule load_and_verify(2) [OF h bad])
  then show "snd (runVerify dir (Inr (entries_of dir e others files))) = 2"
    unfolding E runVerify_iff using e by auto
  have "\<exists>x. load_entry dir ?e = Inl x \<and> \<not> is_incomplete x"
    using load_and_verify(1) [OF h] \<open>verify_error dir ?e \<noteq> None\<close> by blast
  then have "load_fails dir ?e" using e by simp
  then show "\<nexists>m. OpenManager dir None (Inr (entries_of dir e others files)) = Inr m"
    using OpenManager_iff [of "?e # others" dir] names unfolding E by auto
qed

lemma accepted_by_both:
  assumes names: "distinct (map de_Name (e # others))" and e: "de_IsDir e" "de_stat_ok e" and others: "in_order dir others"
    and data: "files (log_path dir (de_Name e)) = Some data"
    and good: "load_entry dir (e\<lparr>de_file := Opened data no_io\<rparr>) = Inr q"
    and verified: "verify_error dir (e\<lparr>de_file := Opened data no_io\<rparr>) = None"
  shows "snd (runVerify dir (Inr (entries_of dir e others files))) = 0"
    "\<exists>m. OpenManager dir None (Inr (entries_of dir e others files)) = Inr m \<and> Get (de_Name e) m = Some q"
proof -
  let ?e = "e\<lparr>de_file := Opened data no_io\<rparr>"
  have E: "entries_of dir e others files = ?e # others" using data by (simp add: entries_of_def)
  show "snd (runVerify dir (Inr (entries_of dir e others files))) = 0"
    unfolding E runVerify_iff using others verified by (auto simp: in_order_def)
  have "\<not> (\<exists>x \<in> set (?e # others). load_fails dir x)" using others good by (auto simp: in_order_def)
  from load_queues_ok [OF this, where qs = "[]"] obtain qs where qs: "load_queues dir (?e # others) [] = Inr qs" by blast
  have "map_of qs (de_Name e) = Some q" using load_queues_Inr [OF qs _ _] names e good by force
  then show "\<exists>m. OpenManager dir None (Inr (entries_of dir e others files)) = Inr m \<and> Get (de_Name e) m = Some q"
    unfolding E using qs by (simp add: OpenManager_def Get_def)
qed

abbreviation lab_mode :: "string \<times> string \<Rightarrow> string" where
  "lab_mode b \<equiv> if fst b = ''tail'' then ''tail'' else ''midlog''"

lemma lab_answer_true:
  assumes works: "lab_works dir entries env" and stopped: "\<not> sv_running (db_sup d)"
  shows "\<exists>d' rep. lab_answer mode what env d files = (d', rep) \<and>
    lr_verify_code rep = snd (runVerify dir (Inr (entries files))) \<and>
    (lr_started rep \<longleftrightarrow> (\<exists>m. OpenManager dir None (Inr (entries files)) = Inr m)) \<and>
    lr_explanation rep = explain mode (lr_started rep)"
proof -
  let ?d = "Add (''corruption lab: '' @ le_what env what) d"
  obtain report where report: "le_verify env files = Some (report, snd (runVerify dir (Inr (entries files))))"
    using works unfolding lab_works_def by blast
  obtain d2 r where c: "start_child (le_start env files) ?d = (d2, r)" by (rule prod.exhaust)
  have "\<not> sv_running (db_sup ?d)" "ch_exec (le_start env files) = None"
    using works stopped by (simp_all add: Add_def lab_works_def)
  from start_child_started [OF this] obtain logs where "snd (start_child (le_start env files) ?d) = Started \<longleftrightarrow>
      start_loop logs (ch_polls (le_start env files)) = Started" by blast
  moreover have "start_loop logs (ch_polls (le_start env files)) = Started \<longleftrightarrow> (\<exists>m. OpenManager dir None (Inr (entries files)) = Inr m)"
    using works unfolding lab_works_def by blast
  ultimately have s: "r = Started \<longleftrightarrow> (\<exists>m. OpenManager dir None (Inr (entries files)) = Inr m)"
    unfolding c snd_conv by blast
  show ?thesis unfolding lab_answer_def Supervisor_Verify_def report c option.case prod.case using s by simp
qed

lemma corrupt_outcome:
  assumes managed: "db_managed d" and body: "readJSON set_lab_field ('''', '''') body = (b, True)"
    and works: "lab_works dir entries env" and started: "sv_running (db_sup d) \<Longrightarrow> sv_started (db_sup d)"
    and damage: "damage_log (lab_mode b) env (or_target (snd b) d) (db_sup (stop_child (le_kill env) d)) files = (files', Inr what)"
  shows "\<exists>d' rep. corrupt body env d files = ((d', files'), StatusOK, LabBody rep) \<and>
    lr_verify_code rep = snd (runVerify dir (Inr (entries files'))) \<and>
    (lr_started rep \<longleftrightarrow> (\<exists>m. OpenManager dir None (Inr (entries files')) = Inr m)) \<and>
    lr_explanation rep = explain (lab_mode b) (lr_started rep)"
proof -
  have "ch_gone (le_kill env)" using works by (simp add: lab_works_def)
  from lab_answer_true [OF works stop_for_lab(1) [OF started this], of "lab_mode b" what files'] obtain d' rep where
    "lab_answer (lab_mode b) what env (stop_child (le_kill env) d) files' = (d', rep)"
    "lr_verify_code rep = snd (runVerify dir (Inr (entries files')))"
    "lr_started rep \<longleftrightarrow> (\<exists>m. OpenManager dir None (Inr (entries files')) = Inr m)"
    "lr_explanation rep = explain (lab_mode b) (lr_started rep)" by blast
  then show ?thesis
    by (intro exI [of _ d'] exI [of _ rep]) (simp only: corrupt_def Let_def managed body damage prod.case sum.case bool.case simp_thms if_False)
qed

lemma fragment_size: "wf_entry (TypeEnqueue, replicate 64 120)" "0 < HeaderSize + 3" "HeaderSize + 3 < EncodedLen (replicate 64 (120 :: byte))"
  by (simp_all add: wf_entry_def Type_valid_def rtype_defs MaxRecordSize_def HeaderSize_def EncodedLen_def)

lemma tally_feeds: "\<exists>cs'. feed tally off es cs = Inr cs'"
  by (induction es arbitrary: off cs) (auto simp: tally_def)

lemma torn_log:
  assumes names: "distinct (map de_Name (e # others))" and e: "de_IsDir e" "de_stat_ok e" and others: "in_order dir others"
    and wf: "list_all wf_entry es" and hd: "headed es" and run: "a_run es a_init = Inr a" and room: "few_records (length es)"
    and torn_env: "env_ok (encode_all es @ torn_fragment) (de_env e)"
    and files: "files (log_path dir (de_Name e)) = Some (encode_all es @ torn_fragment)"
  shows "snd (runVerify dir (Inr (entries_of dir e others files))) = 0"
    "\<exists>m q. OpenManager dir None (Inr (entries_of dir e others files)) = Inr m \<and> Get (de_Name e) m = Some q \<and>
       queue_inv q \<and> absq q = a"
proof -
  let ?e = "e\<lparr>de_file := Opened (encode_all es @ torn_fragment) no_io\<rparr>"
  have len: "2 ^ 32 + 1 + int (length es) \<le> max_i64" using room by (simp add: few_records_def)
  from Load_torn [OF wf hd run len fragment_size torn_env [unfolded torn_fragment_def], folded torn_fragment_def]
  obtain q where q: "load_entry dir ?e = Inr q" "queue_inv q" "absq q = a" by fastforce
  obtain cs' where cs': "feed tally 0 es (\<lambda>_. 0) = Inr cs'" using tally_feeds by blast
  have "verify_error dir ?e = None"
    using replay_torn [OF wf cs' fragment_size, of "log_path dir (de_Name e)"] by (simp add: torn_fragment_def)
  note A = accepted_by_both [where e = e and dir = dir and files = files, OF names e others files q(1) this]
  show "snd (runVerify dir (Inr (entries_of dir e others files))) = 0" by (rule A(1))
  show "\<exists>m q. OpenManager dir None (Inr (entries_of dir e others files)) = Inr m \<and> Get (de_Name e) m = Some q \<and>
       queue_inv q \<and> absq q = a"
    using A(2) q(2,3) by blast
qed

abbreviation flip_middle :: "byte list \<Rightarrow> byte list" where
  "flip_middle data \<equiv> data[length data div 2 := data ! (length data div 2) XOR 0xff]"

lemma flipped_log:
  assumes names: "distinct (map de_Name (e # others))" and e: "de_IsDir e" "de_stat_ok e" and os: "honest (e\<lparr>de_file := NotExist\<rparr>)"
    and wf: "list_all wf_entry es" and hd: "headed es" and run: "a_run es a_init = Inr a" and room: "few_records (length es)"
    and size: "64 \<le> length (encode_all es)" and files: "files (log_path dir (de_Name e)) = Some (flip_middle (encode_all es))"
  shows "snd (runVerify dir (Inr (entries_of dir e others files))) = 2"
    "\<nexists>m. OpenManager dir None (Inr (entries_of dir e others files)) = Inr m"
proof -
  let ?data = "encode_all es"
  have len: "2 ^ 32 + 1 + int (length es) \<le> max_i64" using room by (simp add: few_records_def)
  have off: "length ?data div 2 < length ?data" "?data ! (length ?data div 2) \<noteq> ?data ! (length ?data div 2) XOR 0xff"
    using size flip_neq [of "?data ! (length ?data div 2)"] by auto
  from Load_damaged [OF wf hd run len off, of dir "de_Name e" "de_env e" "de_clock e" "de_now1 e" "de_now2 e"]
  obtain x where x: "load_entry dir (e\<lparr>de_file := Opened (flip_middle ?data) no_io\<rparr>) = Inl x" "is_corruption x" by fastforce
  show "snd (runVerify dir (Inr (entries_of dir e others files))) = 2"
    "\<nexists>m. OpenManager dir None (Inr (entries_of dir e others files)) = Inr m"
    using refused_by_both [where e = e and dir = dir and files = files, OF names e os files x] .
qed

text \<open>C8: the corruption lab tells the truth. On a managed server, running or not, with all queues in order, let the log
  of the chosen queue be that of any life of it, at least 64 bytes long. Whatever else the request holds, the lab
  kills the server, damages the log, and what it then shows is what happened: in the tail mode \<open>verify\<close> passes
  with code 0, the server starts, and the queue has every message it had; in the other mode \<open>verify\<close> fails
  with code 2 and the server does not start. So the explanation is never one of those that begin with
  ``Unexpected''.\<close>

theorem lab_tells_the_truth:
  assumes managed: "db_managed d" and body: "readJSON set_lab_field ('''', '''') body = (b, True)"
    and started: "sv_running (db_sup d) \<Longrightarrow> sv_started (db_sup d)"
    and queue: "or_target (snd b) d = de_Name e" "de_IsDir e" "de_stat_ok e" and dir: "dir = sv_dir (db_sup d)"
    and names: "distinct (map de_Name (e # others))" and others: "in_order dir others"
    and os: "honest (e\<lparr>de_file := NotExist\<rparr>)"
    and works: "lab_works dir (entries_of dir e others) env"
    and wf: "list_all wf_entry es" and hd: "headed es" and run: "a_run es a_init = Inr a" and room: "few_records (length es)"
    and size: "64 \<le> length (encode_all es)" and log: "files (log_path dir (de_Name e)) = Some (encode_all es)"
    and torn_env: "env_ok (encode_all es @ torn_fragment) (de_env e)"
  shows "\<exists>d' files' rep. corrupt body env d files = ((d', files'), StatusOK, LabBody rep) \<and>
    take 10 (lr_explanation rep) \<noteq> ''Unexpected'' \<and>
    (if fst b = ''tail''
     then lr_verify_code rep = 0 \<and> lr_started rep \<and>
       (\<exists>m q. OpenManager dir None (Inr (entries_of dir e others files')) = Inr m \<and> Get (de_Name e) m = Some q \<and>
          queue_inv q \<and> absq q = a)
     else lr_verify_code rep = 2 \<and> \<not> lr_started rep)"
proof -
  have env: "le_stat env = None" "le_write env = None" "ch_gone (le_kill env)" using works by (simp_all add: lab_works_def)
  let ?s = "db_sup (stop_child (le_kill env) d)"
  have s: "\<not> sv_running ?s" "sv_dir ?s = dir" using stop_for_lab [OF started env(3)] dir by simp_all
  note O = corrupt_outcome [OF managed body works started]
  show ?thesis
  proof (cases "fst b = ''tail''")
    case True
    let ?files = "files(log_path dir (de_Name e) \<mapsto> encode_all es @ torn_fragment)"
    have "damage_log (lab_mode b) env (or_target (snd b) d) ?s files = (?files, Inr (Torn (length (encode_all es))))"
      using True s log by (simp add: damage_log_def TruncateTailMidRecord_def env queue(1) Let_def)
    note c = O [OF _ this]
    have f: "?files (log_path dir (de_Name e)) = Some (encode_all es @ torn_fragment)" by simp
    note T = torn_log [where e = e and dir = dir and files = ?files, OF names queue(2,3) others wf hd run room torn_env f]
    show ?thesis using c T True take_explain(1) by auto
  next
    case False
    let ?files = "files(log_path dir (de_Name e) \<mapsto> flip_middle (encode_all es))"
    have "\<exists>fl. damage_log (lab_mode b) env (or_target (snd b) d) ?s files = (?files, Inr (Flipped fl))"
      using False s log size by (auto simp: damage_log_def FlipByteMidLog_def env queue(1) Let_def)
    then obtain fl where "damage_log (lab_mode b) env (or_target (snd b) d) ?s files = (?files, Inr (Flipped fl))" by blast
    note c = O [OF _ this]
    have f: "?files (log_path dir (de_Name e)) = Some (flip_middle (encode_all es))" by simp
    note R = flipped_log [where e = e and dir = dir and files = ?files, OF names queue(2,3) os wf hd run room size f]
    show ?thesis using c R False take_explain(2) by auto
  qed
qed

text \<open>A laboratory in which everything works, its server looked at once.\<close>

definition sample_child :: child where
  "sample_child = \<lparr>ch_banner = '''', ch_exec = None, ch_polls = [], ch_output = [], ch_exit = '''', ch_gone = True\<rparr>"

definition sample_lab :: "(fsdir \<Rightarrow> dir_entry list) \<Rightarrow> lab_env" where
  "sample_lab entries =
     \<lparr>le_kill = sample_child, le_stat = None, le_write = None,
      le_verify = (\<lambda>files. Some ('''', snd (runVerify ''data'' (Inr (entries files))))),
      le_start = (\<lambda>files. sample_child\<lparr>ch_polls :=
        [\<lparr>po_exited = isl (OpenManager ''data'' None (Inr (entries files))), po_healthy = True, po_exited_later = False\<rparr>]\<rparr>),
      le_what = (\<lambda>_. '''')\<rparr>"

lemma sample_lab_works: "lab_works ''data'' entries (sample_lab entries)"
proof -
  have "(\<not> isl x) = (\<exists>m. x = Inr m)" for x :: "go_error + manager" by (cases x) simp_all
  then show ?thesis by (auto simp: lab_works_def sample_lab_def sample_child_def)
qed

text \<open>The log of a queue that has just been created, a byte of it flipped.\<close>

theorem lab_tells_the_truth_witness:
  "\<exists>d d' env files files' rep. corrupt [] env d files = ((d', files'), StatusOK, LabBody rep) \<and>
    lr_verify_code rep = 2 \<and> \<not> lr_started rep"
proof -
  let ?es = "[(TypeMeta, sample_meta)]"
  let ?img = "encode_all ?es @ torn_fragment"
  define e where "e = sample_lab_entry\<lparr>de_env := sample_env\<lparr>oe_OpenFile := Inr ?img\<rparr>\<rparr>"
  define d where "d = \<lparr>db_sup = NewSupervisor ''data'', db_runner = (NewRunner (newRingWriter 60))\<lparr>rn_target := ''jobs''\<rparr>, db_managed = True\<rparr>"
  define fs where "fs = Map.empty(log_path ''data'' ''jobs'' \<mapsto> encode_all ?es)"
  have acc: "accounted 0 [] 3 [(1, TypeMeta, sample_meta)] sample_running"
    by (rule life_accounted [OF sample_life]) (simp add: few_records_def max_i64_def)
  then obtain a where run: "a_run ?es a_init = Inr a" and hd: "headed ?es" and wf: "list_all wf_entry ?es"
    by (auto simp: accounted_def)
  have size: "64 \<le> length (encode_all ?es)" using sample_meta_long by (simp add: encode_all_Cons EncodedLen_def HeaderSize_def)
  have D: "db_managed d" "sv_running (db_sup d) \<Longrightarrow> sv_started (db_sup d)" "''data'' = sv_dir (db_sup d)"
    by (simp_all add: d_def NewSupervisor_def)
  have E: "de_Name e = ''jobs''" "de_IsDir e" "de_stat_ok e" by (simp_all add: e_def sample_lab_entry_def)
  have body: "readJSON set_lab_field ('''', '''') [] = (('''', ''''), True)" by (simp add: readJSON_def)
  have target: "or_target (snd ('''', '''')) d = de_Name e" unfolding E(1) by (simp add: or_target_def d_def Target_def)
  have names: "distinct (map de_Name (e # []))" by simp
  have others: "in_order ''data'' []" by (simp add: in_order_def)
  have os: "honest (e\<lparr>de_file := NotExist\<rparr>)"
    by (simp add: e_def sample_lab_entry_def honest_def Open_def syncDir_def sample_env_def)
  have room: "few_records (length ?es)" "env_ok ?img (de_env e)"
    by (simp_all add: few_records_def max_i64_def env_ok_def sample_env_def e_def)
  have log: "fs (log_path ''data'' (de_Name e)) = Some (encode_all ?es)" unfolding E(1) fs_def by simp
  from lab_tells_the_truth [where d = d and body = "[]" and b = "('''', '''')" and es = "[(TypeMeta, sample_meta)]" and files = fs and e = e and dir = "''data''" and others = "[]" and env = "sample_lab (entries_of ''data'' e [])", OF D(1) body D(2) target E(2,3) D(3) names others os sample_lab_works wf hd run room(1) size log room(2)]
  show ?thesis by simp blast
qed

end
