(* ===== verification/Spec2Isabelle.thy ===== *)
theory Spec2Isabelle
  imports Queue_Timer Inspect_Props Queue_Retry Api_Refusals Pool_Props Dashboard_Props
begin

text \<open>
  \<^bold>\<open>A verification development of artie-queue\<close>

  artie-queue is a durable message queue in Go. A queue keeps its messages in memory, in three heaps
  (ready, delayed, in flight) and a dead-letter list, and writes every transition to an append-only
  log before it reports success; a restart replays the log. Its parts under \<open>src/internal\<close> are \<open>wal\<close>
  (record framing, replay, the group-commit log), \<open>queue\<close> (messages, heaps, payload codec, the queue
  itself, the registry of queues), \<open>api\<close> (the HTTP handlers) and \<open>demo\<close> (a client of the API with a pool
  of workers, a supervisor of the server process and a dashboard over both); \<open>cmd\<close> holds the server with
  its tools \<open>verify\<close> and \<open>repair\<close>, and the job runner, which is the demo.

  \<^bold>\<open>Theories\<close>, in the order of the code:

  \<^item> \<open>Prelude\<close>: machine integers as Go has them (\<open>i64\<close> wraps), instants and durations, byte strings,
    little-endian words, the error values of the program, lists with two elements exchanged.
  \<^item> \<open>Go_Heap\<close>: \<open>container/heap\<close> over an interface record; the locales \<open>heap_order\<close> and \<open>go_heap\<close> state
    what an implementation of \<open>heap.Interface\<close> promises and prove \<open>Push\<close>, \<open>Pop\<close>, \<open>Remove\<close> and \<open>Init\<close>
    correct once and for all.
  \<^item> \<open>Message\<close> (\<open>message.go\<close>) and \<open>Queue_Heaps\<close> (\<open>heaps.go\<close>): messages, configuration, comparator; the
    three heaps of message pointers over a memory, each an interpretation of the locale
    \<open>message_order\<close>, itself a sublocale of \<open>go_heap\<close>.
  \<^item> \<open>Crc32c\<close>, \<open>Wal_Record\<close> (\<open>record.go\<close>), \<open>Wal_Replay\<close> and \<open>Wal_Writer\<close> (\<open>replay.go\<close>), \<open>Wal_Log\<close> (\<open>log.go\<close>):
    checksums and frames, the replay loop with every error branch, the writer of snapshots, and the
    log as a state machine: the buffer and the counters under the mutex, one program counter for the
    flusher goroutine, one step per critical section. \<open>log_reach\<close> is reachability, \<open>log_inv\<close> the
    invariant, \<open>crash_image\<close> what a crash may leave of the file. \<open>Wal_Props\<close> holds their properties; there
    \<open>log_step\<close> is anything that may happen to a log, for what follows a failed write.
  \<^item> \<open>Go_Json\<close>, \<open>Json_Valid\<close> and \<open>Codec\<close> (\<open>codec.go\<close>): the part of \<open>encoding/json\<close> the program needs, and the
    payloads of the records with their round trips.
  \<^item> \<open>Queue_State\<close> (\<open>queue.go\<close>: the state and \<open>apply\<close>), \<open>Queue_Inv\<close> (the invariant \<open>queue_inv\<close>: every
    message is in exactly the holder its state names, at the index it records, and ids are unique),
    \<open>Queue_Ops\<close> (\<open>queue.go\<close>: the public operations and the timer), \<open>Queue_Safety\<close> (what each does),
    \<open>Queue_Spec\<close> (the abstract queue \<open>aqueue\<close>, a map from ids to messages, and the refinement of each
    transition), \<open>Queue_Sim\<close> (equality up to closed deduplication windows), \<open>Queue_Load\<close> and
    \<open>Queue_Create\<close> (\<open>Load\<close> and \<open>Create\<close>), \<open>Queue_Tidy\<close>, \<open>Queue_Snapshot\<close> and \<open>Queue_Compact\<close> (\<open>Compact\<close>:
    what a snapshot needs, holds, and how it is put in place), \<open>Queue_Steps\<close> and \<open>Queue_Life\<close> (all
    operations as steps, in any order; the log accounts for the state), \<open>Queue_Recovery\<close> (crash
    recovery), \<open>Queue_Timer\<close> (the goroutine \<open>run\<close>: sleeping, signals, and why no wake-up is lost),
    \<open>Queue_Inspect\<close> (\<open>Stats\<close>, \<open>Peek\<close>, \<open>DLQ\<close>). \<open>Queue_Props\<close> and \<open>Inspect_Props\<close> hold the properties
    of single operations, this theory those of a queue's whole life; \<open>Sample_Life\<close> is the queue their
    instances are about.
  \<^item> \<open>Manager\<close> (\<open>manager.go\<close>): the registry of the queues of a data directory, opening and closing it.
  \<^item> \<open>Api\<close> (\<open>server.go\<close>): every handler with the decoding of its body; \<open>Api_Steps\<close> shows that requests are
    steps of a queue's life, \<open>Api_Props\<close> and \<open>Api_Refusals\<close> what its answers promise and refuse.
    \<open>Queue_Retry\<close> follows a deduplication id through steps, a crash and a restart: retries are idempotent.
  \<^item> \<open>Command\<close> (\<open>cmd/artie-queue\<close>): serving, \<open>verify\<close> and \<open>repair\<close>, with \<open>Command_Props\<close>: what a repair
    restores, and how the verdict of \<open>verify\<close> on a log and the server's loading of it agree, both ways.
  \<^item> \<open>Ring\<close> and \<open>Supervisor\<close> (\<open>supervisor.go\<close>): the line buffer, and the supervisor of the server process with its
    corruption lab; \<open>Lab_Props\<close> sets the damage it does against what the server makes of it.
  \<^item> \<open>Client\<close> (\<open>client.go\<close> and the routes of \<open>server.go\<close>): requests as text and the routes they take;
    \<open>Client_Wire\<close> shows that the server reads back what the client wrote.
  \<^item> \<open>Runner\<close> (\<open>runner.go\<close>): the worker pool, each worker a state machine; \<open>Pool\<close> is all its runs, with the
    invariant, and \<open>Pool_Props\<close> its properties.
  \<^item> \<open>Dashboard\<close> (\<open>dashboard.go\<close> and \<open>cmd/jobrunner\<close>): the handlers behind the demo's page over the supervisor and
    the runner, and the set-up and shutdown around them; \<open>Dashboard_Props\<close> runs the corruption lab against the
    model of the server, and \<open>EnsureQueues\<close> against its handler.

  \<^bold>\<open>Modelling choices.\<close> A method of a Go struct is a function on a record; pointers are numbers into a
  memory of messages, so that aliasing between heaps and maps is visible; a map is an association
  list with distinct keys. An operation that waits for durability outside the mutex is two
  definitions, its critical section and what follows the wait; a blocked call is the value \<open>None\<close>. The
  clock, the random bytes of message ids, the answers of the operating system and of the network are
  arguments. The eight random bytes of an id are one word. Instants are integers in
  nanoseconds; only their conversion to \<open>int64\<close> wraps: \<open>enqueue_ok\<close> collects what an accepted request
  relies on to be recorded as it is (a new id, a sequence number left, instants before 2262). Formatted
  error texts are reduced to constructors, except the report of \<open>verify\<close>, which the supervisor reads;
  log messages are left out. Loops are total functions; the expiry loop of a tick has the number of
  leases as fuel, which \<open>tick_expires_leases\<close> shows to be enough. Bounds in the recovery theorems
  (\<open>2 ^ 64 - 2\<close> flusher moves, \<open>2 ^ 62\<close> records) keep counters from wrapping.

  \<^bold>\<open>Not modelled.\<close> Around the two executables: HTTP listeners, flags, the choice of a subcommand, signals. Responses
  are values, not their JSON. Scheduling is modelled as arbitrary interleaving of critical sections; memory
  exhaustion is not modelled.
\<close>

section \<open>One life of a queue\<close>

text \<open>A queue as \<open>Create\<close> makes it, before and after the flusher has written its META record.\<close>

text \<open>C1: crash recovery. Stop a queue at any moment of its life, with any calls, timer ticks and flusher
  moves behind it and any file a crash can leave: \<open>Load\<close> succeeds, and the queue it returns is the
  one the specification derives from a prefix of the records accepted so far. That prefix holds
  every record whose caller was told it is durable; with all of them on disk, the recovered queue
  agrees with the lost one; and it can go on living from there.\<close>

theorem crash_recovery:
  assumes "life T bes n es q" and "n < 2 ^ 64 - 2"
    and "few_records (length bes + length es)"
    and "crash_image (q_log q) img" and "env_ok img env"
    and "bes \<noteq> [] \<or> (\<exists>i < length es. Wait (fst (es ! i)) (q_log q) = Some None)"
  shows "\<exists>k q'. k \<le> length es \<and>
    Load data_dir name (Opened img no_io) env clock t1 t2 = Inr q' \<and> queue_inv q' \<and>
    a_run (bes @ map snd (take k es)) a_init = Inr (absq q') \<and>
    (\<forall>i < length es. Wait (fst (es ! i)) (q_log q) = Some None \<longrightarrow> i < k) \<and>
    (k = length es \<longrightarrow> a_sim T (absq q) (absq q')) \<and>
    life T (bes @ map snd (take k es)) 0 [] q'"
  by (rule recovery [OF assms])

theorem crash_recovery_witness:
  "\<exists>(k :: nat) q'. k \<le> 1 \<and> Load ''data'' ''jobs'' (Opened (Encode [] TypeMeta sample_meta) no_io)
      (sample_env\<lparr>oe_OpenFile := Inr (Encode [] TypeMeta sample_meta)\<rparr>) (\<lambda>_. 0) 0 0 = Inr q' \<and> queue_inv q' \<and> 0 < k"
proof -
  let ?img = "Encode [] TypeMeta sample_meta" and ?es = "[(1 :: u64, TypeMeta, sample_meta)]"
  have env: "env_ok ?img (sample_env\<lparr>oe_OpenFile := Inr ?img\<rparr>)" by (simp add: env_ok_def sample_env_def)
  have w: "\<exists>i < length ?es. Wait (fst (?es ! i)) (q_log sample_running) = Some None"
    using sample_running_log(2) by simp
  have "3 < (2 ^ 64 - 2 :: nat)" "few_records (length [] + length ?es)"
    by (simp_all add: few_records_def max_i64_def)
  from crash_recovery [OF sample_life this sample_running_log(3) env disjI2 [OF w],
      where data_dir = "''data''" and name = "''jobs''" and clock = "\<lambda>_. 0" and T = 0, of 0 0]
  obtain k q' where "k \<le> length ?es"
    "Load ''data'' ''jobs'' (Opened ?img no_io) (sample_env\<lparr>oe_OpenFile := Inr ?img\<rparr>) (\<lambda>_. 0) 0 0 = Inr q'"
    "queue_inv q'" and i: "\<forall>i < length ?es. Wait (fst (?es ! i)) (q_log sample_running) = Some None \<longrightarrow> i < k"
    by (elim exE conjE) (rule that)
  moreover have "0 < k" using i sample_running_log(2) by simp
  ultimately show ?thesis by (intro exI [of _ k] exI [of _ q']) simp
qed

text \<open>C2: the log accounts for the state. At every moment of a queue's life its invariant holds, and its
  durable state, up to deduplication entries whose window is over, is what the specification makes
  of the records in the log followed by those accepted since: a running queue cannot drift from the
  queue a replay would give.\<close>

theorem log_accounts_for_state:
  assumes "life T bes n es q" and "few_records (length bes + length es)"
  shows "queue_inv q \<and> headed (bes @ map snd es) \<and> list_all wf_entry (bes @ map snd es) \<and>
    (\<exists>a. a_run (bes @ map snd es) a_init = Inr a \<and> a_sim T (absq q) a)"
  using life_accounted [OF assms] by (simp add: accounted_def)

theorem log_accounts_for_state_witness:
  "queue_inv sample_running \<and> (\<exists>a. a_run [(TypeMeta, sample_meta)] a_init = Inr a \<and> a_sim 0 (absq sample_running) a)"
  using log_accounts_for_state [OF sample_life, of 0] by (simp add: few_records_def max_i64_def)

section \<open>Compaction\<close>

text \<open>C4: a snapshot loses nothing. Taken at any moment of a queue's life, in whatever order the two maps
  are walked, the snapshot is a log that \<open>Load\<close> accepts, and the queue it loads agrees with the one the
  snapshot was taken from: the same messages with their attempts, the same sequence counter, and
  every deduplication entry whose window is still open.\<close>

theorem snapshot_loses_nothing:
  assumes "life T bes n es q" and "few_records (length bes + length es)" and "now \<le> T" and "queue_fits q"
    and "ranges ids (q_byID q)" and "ranges keys (q_dedup q)"
    and "few_records (length (snapshot now ids keys q))" and "env_ok (encode_all (snapshot now ids keys q)) env"
  shows "\<exists>q'. Load data_dir name (Opened (encode_all (snapshot now ids keys q)) no_io) env clock t1 t2 = Inr q' \<and>
    queue_inv q' \<and> a_sim T (absq q) (absq q') \<and> life T (snapshot now ids keys q) 0 [] q'"
  using life_accounted [OF assms(1,2)] snapshot_loads [OF _ _ assms(3-8)] by (auto simp: accounted_def)

theorem snapshot_loses_nothing_witness:
  "\<exists>q'. Load ''data'' ''jobs'' (Opened (encode_all (snapshot 0 [] [] sample_running)) no_io)
      (sample_env\<lparr>oe_OpenFile := Inr (encode_all (snapshot 0 [] [] sample_running))\<rparr>) (\<lambda>_. 0) 0 0 = Inr q' \<and>
    a_sim 0 (absq sample_running) (absq q')"
proof -
  have "queue_fits sample_running" "ranges [] (q_byID sample_running)" "ranges [] (q_dedup sample_running)"
    "few_records (length [] + length [(1 :: u64, TypeMeta, sample_meta)])"
    "few_records (length (snapshot 0 [] [] sample_running))"
    "env_ok (encode_all (snapshot 0 [] [] sample_running))
      (sample_env\<lparr>oe_OpenFile := Inr (encode_all (snapshot 0 [] [] sample_running))\<rparr>)"
    by (simp_all add: few_records_def max_i64_def env_ok_def sample_env_def queue_fits_def ranges_def newQueue_def
        sample_life_defs snapshot_def live_messages_def orphans_def map_filter_simps)
  from snapshot_loses_nothing [OF sample_life this(4) order_refl this(1-3,5,6)] show ?thesis by blast
qed

text \<open>C5: compaction is all or nothing. However a call ends, the log's path names either the file that
  was there or a file that holds the whole snapshot, no other name but the temporary file's changes,
  and the state of the queue is what it was. A call that reports success leaves the queue writing to
  the installed snapshot; one that reports an error leaves everything as it was, or has put the
  queue out of service.\<close>

theorem compaction_all_or_nothing:
  assumes "Compact now ids keys env q dir = ((q', dir'), r)"
  shows "absq q' = absq q \<and>
    dir' (q_path q) \<in> {dir (q_path q), Some (encode_all (snapshot now ids keys q))} \<and>
    (\<forall>x. x \<noteq> q_path q \<and> x \<noteq> compact_tmp q \<longrightarrow> dir' x = dir x) \<and>
    (r = Some None \<longrightarrow> dir' (q_path q) = Some (l_file (q_log q')) \<and>
       l_file (q_log q') = encode_all (snapshot now ids keys q) \<and> l_synced (q_log q') = length (l_file (q_log q')) \<and>
       n_Compactions (q_counters q') = n_Compactions (q_counters q) + 1) \<and>
    (\<forall>e. r = Some (Some e) \<longrightarrow> q' = q \<and> dir' (q_path q) = dir (q_path q) \<or> q_failed q' = Some e)"
  using assms
proof (cases rule: Compact_outcome)
  case ended
  from ended(3) show ?thesis by (auto dest!: abandoned_all swapped_all)
qed (auto simp: absq_def)

definition sample_compact_env :: compact_env where
  "sample_compact_env = \<lparr>ce_create = None, ce_write = (\<lambda>_. None),
     ce_install = \<lparr>in_Flush = None, in_Sync = None, in_Close = None, in_Rename = None, in_dir_open = (\<lambda>_. None), in_dir_sync = (\<lambda>_. None)\<rparr>,
     ce_close = None, ce_open = None\<rparr>"

lemma sample_compacts: "snd (Compact 0 [] [] sample_compact_env sample_running Map.empty) = Some None"
proof -
  let ?c = "\<lambda>w. compact_swap sample_compact_env w sample_running (Map.empty(compact_tmp sample_running \<mapsto> []))"
  have sync: "Sync (q_log sample_running) = (q_log sample_running, Some None)" "l_closed (q_log sample_running) = False"
    by (simp_all add: sample_life_defs Sync_def)
  have "checkLocked sample_running = None" by (simp add: checkLocked_def sample_life_defs newQueue_def)
  moreover have "snapshot 0 [] [] sample_running = [(TypeMeta, encodeConfig (snapshot_config sample_running))]"
    by (simp add: snapshot_def live_messages_def orphans_def map_filter_simps)
  moreover have "snd (?c w) = Some None" for w
    by (simp add: compact_swap_def sample_compact_env_def Install_def syncDir_def Let_def Reopen_def sync)
  ultimately show ?thesis
    by (simp add: Compact_def sync NewWriter_def sample_compact_env_def Writer_Append_def Let_def compact_tmp_def)
qed

theorem compaction_all_or_nothing_witness:
  "absq (fst (fst (Compact 0 [] [] sample_compact_env sample_running Map.empty))) = absq sample_running \<and>
   n_Compactions (q_counters (fst (fst (Compact 0 [] [] sample_compact_env sample_running Map.empty)))) = 1"
proof -
  obtain q' d r where c: "Compact 0 [] [] sample_compact_env sample_running Map.empty = ((q', d), r)"
    by (metis prod.exhaust)
  moreover have "r = Some None" using sample_compacts c by simp
  moreover have "n_Compactions (q_counters sample_running) = 0" by (simp add: sample_life_defs newQueue_def zero_counters_def)
  ultimately show ?thesis using compaction_all_or_nothing [OF c] by simp
qed

text \<open>C3: replay and the running queue share one set of rules, and those rules are the specification:
  applying any record to a queue fails exactly when the specification fails, with the same error,
  and otherwise gives a queue that abstracts to the specification's state and keeps the invariant.\<close>

theorem apply_implements_specification:
  assumes "queue_inv q" and "attempts_below max_i64 q" and "r_Type rec = TypeMeta \<Longrightarrow> q_byID q = []"
  shows "map_sum id absq (apply_record now rec q) = a_apply (r_Type rec, r_Payload rec) (absq q) \<and>
    (\<forall>q'. apply_record now rec q = Inr q' \<longrightarrow> queue_inv q')"
  using apply_record_refines [OF assms(1,2)] assms(3) by blast

theorem apply_implements_specification_witness:
  "map_sum id absq (apply_record 5 \<lparr>r_Type = TypeAck, r_Payload = bytes_of ''0a1b'', r_Offset = 0\<rparr> (sample_one stateReady))
    = a_apply (TypeAck, bytes_of ''0a1b'') (absq (sample_one stateReady))"
  using apply_implements_specification [OF sample_one_inv [of stateReady], of "\<lparr>r_Type = TypeAck, r_Payload = bytes_of ''0a1b'', r_Offset = 0\<rparr>" 5]
  by (simp add: attempts_below_def sample_message_def max_i64_def rtype_defs)

end
